(* ===== verification/Prelude.thy ===== *)
theory Prelude
  imports Main "HOL-Library.Word" "HOL-Library.Monad_Syntax"
    "HOL-Library.Char_ord" "HOL-Library.List_Lexorder"
begin

text \<open>
  Shared vocabulary of the development: names for the C integer types of the target (big-endian
  32-bit MIPS, see \<^verbatim>\<open>src/makes\<close>), byte buffers with checked access, and the string functions of
  the C library that the sources call. A buffer access outside the buffer, the dereference of a null
  pointer and every other undefined behaviour is the value \<^const>\<open>None\<close> of the option monad; return
  codes are ordinary values inside \<^const>\<open>Some\<close>.
\<close>

unbundle bit_operations_syntax

named_theorems c_simps \<open>rewrite rules for the C library and buffer operations\<close>
named_theorems wf_intros \<open>preservation lemmas of the data-structure invariants\<close>

type_synonym u8 = "8 word"
type_synonym u16 = "16 word"
type_synonym u32 = "32 word"
type_synonym cstr = "char list"
type_synonym buf = "char list"

abbreviation NUL :: char where
  "NUL \<equiv> CHR 0x00"

abbreviation CR :: char where
  "CR \<equiv> CHR 0x0D"

abbreviation LF :: char where
  "LF \<equiv> CHR 0x0A"

section \<open>Lists\<close>

lemma find_append:
  "List.find P (xs @ ys) = (case List.find P xs of Some x \<Rightarrow> Some x | None \<Rightarrow> List.find P ys)"
  by (induction xs) auto

lemma map_of_find: "map_of (map (\<lambda>x. (f x, x)) xs) k = List.find (\<lambda>x. f x = k) xs"
  by (induction xs) auto

lemma find_cong_set:
  "(\<And>x. x \<in> set xs \<Longrightarrow> P x = Q x) \<Longrightarrow> List.find P xs = List.find Q xs"
  by (induction xs) auto

fun str_index :: "char \<Rightarrow> cstr \<Rightarrow> nat option" where
  "str_index c [] = None"
| "str_index c (x # xs) = (if x = c then Some 0 else map_option Suc (str_index c xs))"

lemma str_index_Some_iff:
  "str_index c s = Some i \<longleftrightarrow> i < length s \<and> s ! i = c \<and> c \<notin> set (take i s)"
proof (induction s arbitrary: i)
  case (Cons x xs)
  then show ?case by (cases i) auto
qed simp

lemma str_index_None_iff: "str_index c s = None \<longleftrightarrow> c \<notin> set s"
  by (induction s) auto

section \<open>Byte buffers\<close>

definition rd :: "buf \<Rightarrow> nat \<Rightarrow> char option" where
  "rd b i = (if i < length b then Some (b ! i) else None)"

definition wr :: "buf \<Rightarrow> nat \<Rightarrow> char \<Rightarrow> buf option" where
  "wr b i c = (if i < length b then Some (b[i := c]) else None)"

definition mem_read :: "buf \<Rightarrow> nat \<Rightarrow> nat \<Rightarrow> cstr option" where
  "mem_read b off n = (if off + n \<le> length b then Some (take n (drop off b)) else None)"

definition mem_write :: "buf \<Rightarrow> nat \<Rightarrow> cstr \<Rightarrow> buf option" where
  "mem_write b off s =
     (if off + length s \<le> length b
      then Some (take off b @ s @ drop (off + length s) b) else None)"

lemma rd_Some_iff [c_simps]: "rd b i = Some c \<longleftrightarrow> i < length b \<and> c = b ! i"
  by (auto simp: rd_def)

lemma rd_None_iff [c_simps]: "rd b i = None \<longleftrightarrow> length b \<le> i"
  by (auto simp: rd_def)

lemma wr_Some_iff [c_simps]: "wr b i c = Some b' \<longleftrightarrow> i < length b \<and> b' = b[i := c]"
  by (auto simp: wr_def)

lemma mem_write_length: "mem_write b off s = Some b' \<Longrightarrow> length b' = length b"
  by (auto simp: mem_write_def split: if_splits)

lemma mem_write_read:
  "mem_write b off s = Some b' \<Longrightarrow> mem_read b' off (length s) = Some s"
  by (auto simp: mem_write_def mem_read_def split: if_splits)

section \<open>C strings\<close>

text \<open>
  A C string is the list of its bytes; the end of the list stands for the terminating NUL, and a NUL
  inside the list ends the string as well. The C library only fixes the sign of the result of a
  comparison; the model returns the difference of the first bytes that differ, read as unsigned.
\<close>

fun c_strcmp :: "cstr \<Rightarrow> cstr \<Rightarrow> int" where
  "c_strcmp [] [] = 0"
| "c_strcmp [] (y # ys) = - of_char y"
| "c_strcmp (x # xs) [] = of_char x"
| "c_strcmp (x # xs) (y # ys) =
     (if x = y then (if x = NUL then 0 else c_strcmp xs ys) else of_char x - of_char y)"

fun c_strncmp :: "nat \<Rightarrow> cstr \<Rightarrow> cstr \<Rightarrow> int" where
  "c_strncmp 0 xs ys = 0"
| "c_strncmp (Suc n) [] [] = 0"
| "c_strncmp (Suc n) [] (y # ys) = - of_char y"
| "c_strncmp (Suc n) (x # xs) [] = of_char x"
| "c_strncmp (Suc n) (x # xs) (y # ys) =
     (if x = y then (if x = NUL then 0 else c_strncmp n xs ys) else of_char x - of_char y)"

lemma of_char_nonneg [simp]: "0 \<le> (of_char a :: int)"
proof -
  have "of_char a = int (of_char a)" by (simp add: of_nat_of_char)
  then show ?thesis by linarith
qed

lemma of_char_zero_iff [simp]: "(of_char a :: int) = 0 \<longleftrightarrow> a = NUL"
proof -
  have "(of_char NUL :: int) = 0" by simp
  then show ?thesis by (metis of_char_eq_iff)
qed

lemma c_strcmp_eq_iff:
  "NUL \<notin> set s \<Longrightarrow> NUL \<notin> set t \<Longrightarrow> c_strcmp s t = 0 \<longleftrightarrow> s = t"
  by (induction s t rule: c_strcmp.induct) auto

text \<open>The bytes up to the terminating NUL, and the order that \<open>strcmp\<close> decides on them.\<close>

definition c_str :: "cstr \<Rightarrow> cstr" where
  "c_str s = takeWhile (\<lambda>c. c \<noteq> NUL) s"

lemma c_str_id [simp]: "NUL \<notin> set s \<Longrightarrow> c_str s = s"
  by (auto simp: c_str_def takeWhile_eq_all_conv)

lemma of_char_less_iff: "(of_char a :: int) < of_char b \<longleftrightarrow> a < b"
proof -
  have "(of_char a :: int) < of_char b \<longleftrightarrow> int (of_char a) < int (of_char b)"
    by (simp only: of_nat_of_char)
  then show ?thesis by (simp add: less_char_def)
qed

lemma of_char_pos_iff: "0 < (of_char a :: int) \<longleftrightarrow> a \<noteq> NUL"
  using of_char_nonneg [of a] of_char_zero_iff [of a] by linarith

lemma c_strcmp_zero_iff: "c_strcmp s t = 0 \<longleftrightarrow> c_str s = c_str t"
  by (induction s t rule: c_strcmp.induct) (auto simp: c_str_def)

lemma c_strcmp_neg_iff: "c_strcmp s t < 0 \<longleftrightarrow> c_str s < c_str t"
  by (induction s t rule: c_strcmp.induct)
    (auto simp: c_str_def of_char_less_iff of_char_pos_iff not_less)

lemma c_strncmp_eq_iff:
  "NUL \<notin> set s \<Longrightarrow> length s = n \<Longrightarrow> length t = n \<Longrightarrow> c_strncmp n s t = 0 \<longleftrightarrow> s = t"
  by (induction n s t rule: c_strncmp.induct) auto

lemma c_strncmp_take: "c_strncmp n s t = c_strncmp n s (take n t)"
  by (induction n s t rule: c_strncmp.induct) auto

section \<open>Big-endian words\<close>

definition be32 :: "u32 \<Rightarrow> buf" where
  "be32 w = [char_of (unat (drop_bit 24 w)), char_of (unat (drop_bit 16 w)),
             char_of (unat (drop_bit 8 w)), char_of (unat w)]"

lemma be32_hd:
  assumes "unat w < 2 ^ 24"
  shows "hd (be32 w) = NUL"
proof -
  have "unat (drop_bit 24 w) = 0" using assms by (simp add: unat_drop_bit_eq drop_bit_nat_def)
  then show ?thesis by (simp add: be32_def char_of_def)
qed

section \<open>Slices\<close>

definition sl :: "buf \<Rightarrow> nat \<Rightarrow> nat \<Rightarrow> buf" where
  "sl b off n = take n (drop off b)"

lemma sl_0 [simp]: "sl b off 0 = []"
  by (simp add: sl_def)

lemma sl_Suc [simp]: "off < length b \<Longrightarrow> sl b off (Suc n) = b ! off # sl b (Suc off) n"
  by (simp add: sl_def Cons_nth_drop_Suc [symmetric])

lemma length_sl: "off + n \<le> length b \<Longrightarrow> length (sl b off n) = n"
  by (simp add: sl_def)

lemma nth_sl: "i < n \<Longrightarrow> off + n \<le> length b \<Longrightarrow> sl b off n ! i = b ! (off + i)"
  by (simp add: sl_def)

lemma sl_cong:
  "length b = length b' \<Longrightarrow> (\<And>i. off \<le> i \<Longrightarrow> i < off + n \<Longrightarrow> b ! i = b' ! i) \<Longrightarrow> sl b off n = sl b' off n"
  unfolding sl_def by (rule nth_equalityI) auto

lemma sl_update [simp]: "i < off \<or> off + n \<le> i \<Longrightarrow> sl (b[i := c]) off n = sl b off n"
  by (rule sl_cong) (auto simp: nth_list_update)

lemma sl_split: "off + m + n \<le> length b \<Longrightarrow> sl b off (m + n) = sl b off m @ sl b (off + m) n"
  by (simp add: sl_def take_add add.commute)

lemma take_sl: "k \<le> n \<Longrightarrow> take k (sl b off n) = sl b off k"
  by (simp add: sl_def min_def)

lemma drop_sl: "k \<le> n \<Longrightarrow> drop k (sl b off n) = sl b (off + k) (n - k)"
  by (simp add: sl_def drop_take add.commute)

lemma sl_append:
  "off + m + n \<le> length b \<Longrightarrow> sl b off (m + n) = s @ t \<Longrightarrow> length s = m
     \<Longrightarrow> sl b off m = s \<and> sl b (off + m) n = t"
  by (simp add: sl_split length_sl)

lemma mem_read_sl [c_simps]: "off + n \<le> length b \<Longrightarrow> mem_read b off n = Some (sl b off n)"
  by (simp add: mem_read_def sl_def)

lemma sl_snoc_update: "j < length b \<Longrightarrow> sl (b[j := c]) 0 (Suc j) = sl b 0 j @ [c]"
  by (simp add: sl_def take_Suc_conv_app_nth)

section \<open>Signed words\<close>

lemma sint_u32: "sint (w :: u32) = (if uint w < 2 ^ 31 then uint w else uint w - 2 ^ 32)"
proof -
  have w: "0 \<le> uint w" "uint w < 2 ^ 32" using uint_bounded [of w] by simp_all
  have b: "bit (uint w) 31 \<longleftrightarrow> \<not> uint w < 2 ^ 31"
  proof -
    have "uint w div 2 ^ 31 = (if uint w < 2 ^ 31 then 0 else 1)" using w by (simp add: div_pos_geq div_pos_pos_trivial)
    then show ?thesis by (simp add: bit_iff_odd)
  qed
  have "sint w = take_bit 32 (uint w) - 2 ^ 32 * of_bool (bit (uint w) 31)"
    unfolding sint_uint signed_take_bit_eq_take_bit_minus by simp
  then show ?thesis using w b by (simp add: take_bit_int_eq_self)
qed

section \<open>Invariants of state machines\<close>

text \<open>A set of initial states, a step relation and a predicate that holds initially and is kept by every
  step: it holds in every state that can be reached.\<close>

locale state_inv =
  fixes init :: "'s \<Rightarrow> bool" and step :: "'s \<Rightarrow> 's \<Rightarrow> bool" and inv :: "'s \<Rightarrow> bool"
  assumes init_inv: "init s \<Longrightarrow> inv s"
    and step_inv: "step s t \<Longrightarrow> inv s \<Longrightarrow> inv t"
begin

lemma steps_inv: "step\<^sup>*\<^sup>* s t \<Longrightarrow> inv s \<Longrightarrow> inv t"
  by (induction rule: rtranclp_induct) (auto intro: step_inv)

lemma reach_inv: "init s \<Longrightarrow> step\<^sup>*\<^sup>* s t \<Longrightarrow> inv t"
  using init_inv steps_inv by blast

end

section \<open>Loops with a bound\<close>

text \<open>A loop that repeats a step as long as the step asks for it, and the same loop with a bound on the
  number of rounds. When every round that asks for another one lowers a rank, the bound is the rank.\<close>

fun run :: "nat \<Rightarrow> ('s \<Rightarrow> ('s \<times> bool) option) \<Rightarrow> 's \<Rightarrow> 's option" where
  "run 0 f s = None"
| "run (Suc k) f s = do { (s1, go) \<leftarrow> f s; if go then run k f s1 else Some s1 }"

locale ranked_loop =
  fixes f :: "'s \<Rightarrow> ('s \<times> bool) option" and loop :: "'s \<Rightarrow> 's option" and rank :: "'s \<Rightarrow> nat"
  assumes unfold: "loop s = do { (s1, go) \<leftarrow> f s; if go then loop s1 else Some s1 }"
    and lower: "f s = Some (s1, True) \<Longrightarrow> rank s1 < rank s"
begin

lemma loop_run: "rank s < k \<Longrightarrow> loop s = run k f s"
proof (induction k arbitrary: s)
  case (Suc k)
  have "loop s1 = run k f s1" if "f s = Some (s1, True)" for s1
    using Suc lower [OF that] by simp
  then show ?case by (subst unfold) (auto split: bind_split)
qed simp

text \<open>After at most \<open>rank s\<close> rounds that ask for another one, the loop is in a state whose step ends it.\<close>

lemma loop_ends:
  "\<exists>j s'. j \<le> rank s \<and> ((\<lambda>a b. f a = Some (b, True)) ^^ j) s s' \<and>
     (f s' = None \<and> loop s = None \<or> (\<exists>r. f s' = Some (r, False) \<and> loop s = Some r))"
proof (induction "rank s" arbitrary: s rule: less_induct)
  case less
  show ?case
  proof (cases "\<exists>s1. f s = Some (s1, True)")
    case True
    then obtain s1 where s1: "f s = Some (s1, True)" by blast
    from less [OF lower [OF s1]] obtain j s' where j: "j \<le> rank s1" "((\<lambda>a b. f a = Some (b, True)) ^^ j) s1 s'"
      "f s' = None \<and> loop s1 = None \<or> (\<exists>r. f s' = Some (r, False) \<and> loop s1 = Some r)" by blast
    have "loop s = loop s1" by (subst unfold) (simp add: s1)
    moreover have "((\<lambda>a b. f a = Some (b, True)) ^^ Suc j) s s'" using s1 j(2) by (rule relpowp_Suc_I2)
    moreover have "Suc j \<le> rank s" using lower [OF s1] j(1) by simp
    ultimately show ?thesis using j(3) by metis
  next
    case False
    then have "f s = None \<and> loop s = None \<or> (\<exists>r. f s = Some (r, False) \<and> loop s = Some r)"
      by (cases "f s") (auto simp: unfold [of s])
    then show ?thesis by (intro exI [of _ 0] exI [of _ s]) simp
  qed
qed

end

end
