(* ===== verification/AvlLib.thy ===== *)
theory AvlLib
  imports Prelude
begin

text \<open>
  The AVL tree library \<^verbatim>\<open>src/nginx/avllib/avlLib.c\<close>. A tree is the datatype \<open>avl_node\<close> with the
  stored \<open>height\<close> field kept as data, so that the invariant has to state what the code maintains. The
  ancestor array of pointers to node pointers is a list of \<open>frame\<close>s, innermost ancestor first: a frame
  is the ancestor node with a hole where the pointer that was followed is. A null dereference and a
  write past the \<open>AVL_MAX_HEIGHT\<close> entries of the ancestor array are \<^const>\<open>None\<close>. The first part
  holds the code, the second the invariant, the locale \<open>avl_order\<close> of comparison functions, and the
  refinement of the operations to updates of a finite map.
\<close>

section \<open>The code\<close>

datatype 'a avl_node =
    NULL
  | AVL_NODE (left: "'a avl_node") (height: int) (data: 'a) (right: "'a avl_node")

datatype status = OK | ERROR

datatype 'a frame =
    InLeft int 'a "'a avl_node"
  | InRight "'a avl_node" int 'a

definition AVL_MAX_HEIGHT :: nat where
  "AVL_MAX_HEIGHT = 42"

fun node_height :: "'a avl_node \<Rightarrow> int" where
  "node_height NULL = 0"
| "node_height (AVL_NODE l h x r) = h"

fun plug :: "'a frame \<Rightarrow> 'a avl_node \<Rightarrow> 'a avl_node" where
  "plug (InLeft h x r) t = AVL_NODE t h x r"
| "plug (InRight l h x) t = AVL_NODE l h x t"

fun unwind :: "'a avl_node \<Rightarrow> 'a frame list \<Rightarrow> 'a avl_node" where
  "unwind t [] = t"
| "unwind t (f # fs) = unwind (plug f t) fs"

subsection \<open>Rebalancing\<close>

definition avl_fix_left :: "'a avl_node \<Rightarrow> 'a \<Rightarrow> 'a avl_node \<Rightarrow> 'a avl_node option" where
  "avl_fix_left leftp x rightp =
     (case leftp of
        NULL \<Rightarrow> None
      | AVL_NODE leftleftp _ b leftrightp \<Rightarrow>
          let leftrighth = node_height leftrightp in
          if leftleftp \<noteq> NULL \<and> node_height leftleftp \<ge> leftrighth
          then Some (AVL_NODE leftleftp (leftrighth + 2) b
                       (AVL_NODE leftrightp (leftrighth + 1) x rightp))
          else (case leftrightp of
                  NULL \<Rightarrow> None
                | AVL_NODE c _ d e \<Rightarrow>
                    Some (AVL_NODE (AVL_NODE leftleftp leftrighth b c) (leftrighth + 1) d
                            (AVL_NODE e leftrighth x rightp))))"

definition avl_fix_right :: "'a avl_node \<Rightarrow> 'a \<Rightarrow> 'a avl_node \<Rightarrow> 'a avl_node option" where
  "avl_fix_right leftp x rightp =
     (case rightp of
        NULL \<Rightarrow> None
      | AVL_NODE rightleftp _ d rightrightp \<Rightarrow>
          let rightlefth = node_height rightleftp in
          if rightrightp \<noteq> NULL \<and> node_height rightrightp \<ge> rightlefth
          then Some (AVL_NODE (AVL_NODE leftp (rightlefth + 1) x rightleftp) (rightlefth + 2) d
                       rightrightp)
          else (case rightleftp of
                  NULL \<Rightarrow> None
                | AVL_NODE c _ b e \<Rightarrow>
                    Some (AVL_NODE (AVL_NODE leftp rightlefth x c) (rightlefth + 1) b
                            (AVL_NODE e rightlefth d rightrightp))))"

text \<open>One round of the loop on the subtree that \<open>*nodepp\<close> points to; the flag is the \<open>break\<close>.\<close>

fun avl_rebalance_step :: "'a avl_node \<Rightarrow> ('a avl_node \<times> bool) option" where
  "avl_rebalance_step NULL = None"
| "avl_rebalance_step (AVL_NODE leftp h x rightp) =
     (let lefth = node_height leftp; righth = node_height rightp in
      if righth - lefth < -1 then map_option (\<lambda>t. (t, False)) (avl_fix_left leftp x rightp)
      else if righth - lefth > 1 then map_option (\<lambda>t. (t, False)) (avl_fix_right leftp x rightp)
      else let h' = (if righth > lefth then righth else lefth) + 1 in
        if h = h' then Some (AVL_NODE leftp h x rightp, True)
        else Some (AVL_NODE leftp h' x rightp, False))"

fun avlRebalance :: "'a avl_node \<Rightarrow> 'a frame list \<Rightarrow> 'a avl_node option" where
  "avlRebalance t [] = Some t"
| "avlRebalance t (f # fs) =
     (case avl_rebalance_step (plug f t) of
        None \<Rightarrow> None
      | Some (t', brk) \<Rightarrow> if brk then Some (unwind t' fs) else avlRebalance t' fs)"

subsection \<open>Search, insertion and deletion with a comparison function\<close>

fun avlSearch :: "('a \<Rightarrow> 'k \<Rightarrow> int) \<Rightarrow> 'a avl_node \<Rightarrow> 'k \<Rightarrow> 'a option" where
  "avlSearch compare NULL key = None"
| "avlSearch compare (AVL_NODE l h x r) key =
     (let delta = compare x key in
      if delta = 0 then Some x
      else if delta < 0 then avlSearch compare l key
      else avlSearch compare r key)"

text \<open>The descent shared by the insertions and deletions; the frames collected so far are the entries
  of \<open>ancestor\<close>, each stored before the node is compared.\<close>

fun avl_descend ::
  "('a \<Rightarrow> 'k \<Rightarrow> int) \<Rightarrow> 'k \<Rightarrow> 'a avl_node \<Rightarrow> 'a frame list \<Rightarrow> ('a avl_node \<times> 'a frame list) option" where
  "avl_descend compare key NULL fs = Some (NULL, fs)"
| "avl_descend compare key (AVL_NODE l h x r) fs =
     (if AVL_MAX_HEIGHT \<le> length fs then None
      else let delta = compare x key in
        if delta = 0 then Some (AVL_NODE l h x r, fs)
        else if delta < 0 then avl_descend compare key l (InLeft h x r # fs)
        else avl_descend compare key r (InRight l h x # fs))"

definition avlInsert ::
  "('a \<Rightarrow> 'k \<Rightarrow> int) \<Rightarrow> 'a avl_node \<Rightarrow> 'a \<Rightarrow> 'k \<Rightarrow> (status \<times> 'a avl_node) option" where
  "avlInsert compare root newNode key =
     (case avl_descend compare key root [] of
        None \<Rightarrow> None
      | Some (AVL_NODE _ _ _ _, fs) \<Rightarrow> Some (ERROR, root)
      | Some (NULL, fs) \<Rightarrow>
          map_option (Pair OK) (avlRebalance (AVL_NODE NULL 1 newNode NULL) fs))"

text \<open>The walk to the in-order predecessor: \<open>n\<close> is \<open>ancestorCount\<close> on entry, the result is the left
  child and the data of the predecessor and the frames pushed on the way.\<close>

fun avl_last ::
  "nat \<Rightarrow> 'a avl_node \<Rightarrow> 'a frame list \<Rightarrow> ('a avl_node \<times> 'a \<times> 'a frame list) option" where
  "avl_last n NULL gs = None"
| "avl_last n (AVL_NODE l h x r) gs =
     (if r = NULL then Some (l, x, gs)
      else if AVL_MAX_HEIGHT \<le> n then None
      else avl_last (Suc n) r (InRight l h x # gs))"

definition avl_unlink ::
  "'a avl_node \<Rightarrow> int \<Rightarrow> 'a avl_node \<Rightarrow> 'a frame list \<Rightarrow> 'a avl_node option" where
  "avl_unlink l h r fs =
     (if l = NULL then avlRebalance r fs
      else case avl_last (Suc (length fs)) l [] of
             None \<Rightarrow> None
           | Some (l', p, gs) \<Rightarrow>
               if AVL_MAX_HEIGHT \<le> Suc (length fs) then None
               else avlRebalance l' (gs @ InLeft h p r # fs))"

definition avlDelete ::
  "('a \<Rightarrow> 'k \<Rightarrow> int) \<Rightarrow> 'a avl_node \<Rightarrow> 'k \<Rightarrow> ('a option \<times> 'a avl_node) option" where
  "avlDelete compare root key =
     (case avl_descend compare key root [] of
        None \<Rightarrow> None
      | Some (NULL, fs) \<Rightarrow> Some (None, root)
      | Some (AVL_NODE l h x r, fs) \<Rightarrow> map_option (Pair (Some x)) (avl_unlink l h r fs))"

subsection \<open>The routines specialised to unsigned keys\<close>

text \<open>\<open>AVL_UNSIGNED_NODE\<close>: the links, the key, and whatever the user's structure adds after it.\<close>

record unsigned_data =
  ukey :: u32

fun avlSearchUnsigned :: "'z unsigned_data_scheme avl_node \<Rightarrow> u32 \<Rightarrow> 'z unsigned_data_scheme option" where
  "avlSearchUnsigned NULL key = None"
| "avlSearchUnsigned (AVL_NODE l h x r) key =
     (if key = ukey x then Some x
      else if key < ukey x then avlSearchUnsigned l key
      else avlSearchUnsigned r key)"

fun avl_descend_unsigned ::
  "u32 \<Rightarrow> 'z unsigned_data_scheme avl_node \<Rightarrow> 'z unsigned_data_scheme frame list
   \<Rightarrow> ('z unsigned_data_scheme avl_node \<times> 'z unsigned_data_scheme frame list) option" where
  "avl_descend_unsigned key NULL fs = Some (NULL, fs)"
| "avl_descend_unsigned key (AVL_NODE l h x r) fs =
     (if AVL_MAX_HEIGHT \<le> length fs then None
      else if key = ukey x then Some (AVL_NODE l h x r, fs)
      else if key < ukey x then avl_descend_unsigned key l (InLeft h x r # fs)
      else avl_descend_unsigned key r (InRight l h x # fs))"

definition avlInsertUnsigned ::
  "'z unsigned_data_scheme avl_node \<Rightarrow> 'z unsigned_data_scheme
   \<Rightarrow> (status \<times> 'z unsigned_data_scheme avl_node) option" where
  "avlInsertUnsigned root newNode =
     (case avl_descend_unsigned (ukey newNode) root [] of
        None \<Rightarrow> None
      | Some (AVL_NODE _ _ _ _, fs) \<Rightarrow> Some (ERROR, root)
      | Some (NULL, fs) \<Rightarrow>
          map_option (Pair OK) (avlRebalance (AVL_NODE NULL 1 newNode NULL) fs))"

definition avlDeleteUnsigned ::
  "'z unsigned_data_scheme avl_node \<Rightarrow> u32
   \<Rightarrow> ('z unsigned_data_scheme option \<times> 'z unsigned_data_scheme avl_node) option" where
  "avlDeleteUnsigned root key =
     (case avl_descend_unsigned key root [] of
        None \<Rightarrow> None
      | Some (NULL, fs) \<Rightarrow> Some (None, root)
      | Some (AVL_NODE l h x r, fs) \<Rightarrow> map_option (Pair (Some x)) (avl_unlink l h r fs))"

subsection \<open>Neighbours and extrema\<close>

fun avl_successor ::
  "('a \<Rightarrow> 'k \<Rightarrow> int) \<Rightarrow> 'k \<Rightarrow> 'a avl_node \<Rightarrow> 'a option \<Rightarrow> 'a option" where
  "avl_successor compare key NULL superiorp = superiorp"
| "avl_successor compare key (AVL_NODE l h x r) superiorp =
     (if compare x key < 0 then avl_successor compare key l (Some x)
      else avl_successor compare key r superiorp)"

definition avlSuccessorGet :: "('a \<Rightarrow> 'k \<Rightarrow> int) \<Rightarrow> 'a avl_node \<Rightarrow> 'k \<Rightarrow> 'a option" where
  "avlSuccessorGet compare root key = avl_successor compare key root None"

fun avl_predecessor ::
  "('a \<Rightarrow> 'k \<Rightarrow> int) \<Rightarrow> 'k \<Rightarrow> 'a avl_node \<Rightarrow> 'a option \<Rightarrow> 'a option" where
  "avl_predecessor compare key NULL inferiorp = inferiorp"
| "avl_predecessor compare key (AVL_NODE l h x r) inferiorp =
     (if compare x key > 0 then avl_predecessor compare key r (Some x)
      else avl_predecessor compare key l inferiorp)"

definition avlPredecessorGet :: "('a \<Rightarrow> 'k \<Rightarrow> int) \<Rightarrow> 'a avl_node \<Rightarrow> 'k \<Rightarrow> 'a option" where
  "avlPredecessorGet compare root key = avl_predecessor compare key root None"

fun avlMinimumGet :: "'a avl_node \<Rightarrow> 'a option" where
  "avlMinimumGet NULL = None"
| "avlMinimumGet (AVL_NODE l h x r) = (if l \<noteq> NULL then avlMinimumGet l else Some x)"

fun avlMaximumGet :: "'a avl_node \<Rightarrow> 'a option" where
  "avlMaximumGet NULL = None"
| "avlMaximumGet (AVL_NODE l h x r) = (if r \<noteq> NULL then avlMaximumGet r else Some x)"

subsection \<open>The informing and the replacing insertion\<close>

text \<open>The last component of the result is what was stored through \<open>ppKeyHolder\<close>; \<open>holder_null\<close> says
  that the caller passed a null \<open>ppKeyHolder\<close>.\<close>

definition avlInsertInform ::
  "('a \<Rightarrow> 'k \<Rightarrow> int) \<Rightarrow> 'a avl_node \<Rightarrow> 'a \<Rightarrow> 'k \<Rightarrow> bool \<Rightarrow> (status \<times> 'a avl_node \<times> 'a option) option" where
  "avlInsertInform compare root newNode key holder_null =
     (if holder_null then Some (ERROR, root, None)
      else case avl_descend compare key root [] of
        None \<Rightarrow> None
      | Some (AVL_NODE _ _ x _, fs) \<Rightarrow> Some (ERROR, root, Some x)
      | Some (NULL, fs) \<Rightarrow>
          map_option (\<lambda>t. (OK, t, Some newNode))
            (avlRebalance (AVL_NODE NULL 1 newNode NULL) fs))"

definition avlRemoveInsert ::
  "('a \<Rightarrow> 'k \<Rightarrow> int) \<Rightarrow> 'a avl_node \<Rightarrow> 'a \<Rightarrow> 'k \<Rightarrow> ('a option \<times> 'a avl_node) option" where
  "avlRemoveInsert compare root newNode key =
     (case avl_descend compare key root [] of
        None \<Rightarrow> None
      | Some (AVL_NODE l h x r, fs) \<Rightarrow> Some (Some x, unwind (AVL_NODE l h newNode r) fs)
      | Some (NULL, fs) \<Rightarrow>
          map_option (Pair None) (avlRebalance (AVL_NODE NULL 1 newNode NULL) fs))"

subsection \<open>Walking, printing and erasing\<close>

text \<open>\<open>walkExec\<close> receives the address of the node pointer, so it may replace the subtree; \<open>'s\<close> is
  the state it works on. The printing and erasing routines are described by the calls they make to
  \<open>printNode\<close> and \<open>rgos_free\<close>; \<open>Free None\<close> is \<open>rgos_free (NULL)\<close>.\<close>

fun avlTreeWalk ::
  "('a avl_node \<Rightarrow> 's \<Rightarrow> 'a avl_node \<times> 's) \<Rightarrow> 'a avl_node \<Rightarrow> 's \<Rightarrow> 'a avl_node \<times> 's" where
  "avlTreeWalk walkExec NULL s = (NULL, s)"
| "avlTreeWalk walkExec (AVL_NODE l h x r) s =
     (let (l', s1) = (if l \<noteq> NULL then avlTreeWalk walkExec l s else (l, s));
          (r', s2) = (if r \<noteq> NULL then avlTreeWalk walkExec r s1 else (r, s1))
      in walkExec (AVL_NODE l' h x r') s2)"

datatype 'a tree_call = Print 'a | Free "'a option"

fun avlTreePrint :: "'a avl_node \<Rightarrow> 'a tree_call list" where
  "avlTreePrint NULL = []"
| "avlTreePrint (AVL_NODE l h x r) =
     Print x # (if l \<noteq> NULL then avlTreePrint l else []) @ (if r \<noteq> NULL then avlTreePrint r else [])"

fun ptr_of :: "'a avl_node \<Rightarrow> 'a option" where
  "ptr_of NULL = None"
| "ptr_of (AVL_NODE l h x r) = Some x"

fun avlTreeErase :: "'a avl_node \<Rightarrow> 'a avl_node \<times> 'a tree_call list" where
  "avlTreeErase NULL = (NULL, [])"
| "avlTreeErase (AVL_NODE l h x r) =
     (let cl = (if l \<noteq> NULL then let (l', c) = avlTreeErase l in c @ [Free (ptr_of l')] else []);
          cr = (if r \<noteq> NULL then let (r', c) = avlTreeErase r in c @ [Free (ptr_of r')] else [])
      in (NULL, cl @ cr @ [Free (Some x)]))"

fun avlTreePrintErase :: "'a avl_node \<Rightarrow> 'a avl_node \<times> 'a tree_call list" where
  "avlTreePrintErase NULL = (NULL, [])"
| "avlTreePrintErase (AVL_NODE l h x r) =
     (let cl = (if l \<noteq> NULL then let (l', c) = avlTreePrintErase l in c @ [Free (ptr_of l')] else []);
          cr = (if r \<noteq> NULL then let (r', c) = avlTreePrintErase r in c @ [Free (ptr_of r')] else [])
      in (NULL, Print x # cl @ cr @ [Free (Some x)]))"

section \<open>The balancing invariant\<close>

fun ht :: "'a avl_node \<Rightarrow> nat" where
  "ht NULL = 0"
| "ht (AVL_NODE l h x r) = 1 + max (ht l) (ht r)"

fun inorder :: "'a avl_node \<Rightarrow> 'a list" where
  "inorder NULL = []"
| "inorder (AVL_NODE l h x r) = inorder l @ x # inorder r"

fun avl :: "'a avl_node \<Rightarrow> bool" where
  "avl NULL = True"
| "avl (AVL_NODE l h x r) =
     (ht l \<le> ht r + 1 \<and> ht r \<le> ht l + 1 \<and> h = int (1 + max (ht l) (ht r)) \<and> avl l \<and> avl r)"

lemma ht_zero_iff [simp]: "ht t = 0 \<longleftrightarrow> t = NULL"
  by (cases t) auto

lemma node_height_ht [simp]: "avl t \<Longrightarrow> node_height t = int (ht t)"
  by (cases t) auto

lemma avl_fix_left_ok:
  assumes "avl l" "avl r" "ht l = ht r + 2"
  shows "\<exists>t. avl_fix_left l x r = Some t \<and> avl t \<and> inorder t = inorder l @ x # inorder r
           \<and> (ht t = ht r + 2 \<or> ht t = ht r + 3)"
  using assms
  by (cases l) (auto simp: avl_fix_left_def Let_def split: avl_node.splits)

lemma avl_fix_right_ok:
  assumes "avl l" "avl r" "ht r = ht l + 2"
  shows "\<exists>t. avl_fix_right l x r = Some t \<and> avl t \<and> inorder t = inorder l @ x # inorder r
           \<and> (ht t = ht l + 2 \<or> ht t = ht l + 3)"
  using assms
  by (cases r) (auto simp: avl_fix_right_def Let_def split: avl_node.splits)

subsection \<open>Paths of ancestors\<close>

fun path_ok :: "nat \<Rightarrow> 'a frame list \<Rightarrow> bool" where
  "path_ok n [] = True"
| "path_ok n (InLeft h x r # fs) =
     (avl r \<and> n \<le> ht r + 1 \<and> ht r \<le> n + 1 \<and> h = int (1 + max n (ht r))
      \<and> path_ok (1 + max n (ht r)) fs)"
| "path_ok n (InRight l h x # fs) =
     (avl l \<and> n \<le> ht l + 1 \<and> ht l \<le> n + 1 \<and> h = int (1 + max (ht l) n)
      \<and> path_ok (1 + max (ht l) n) fs)"

fun lefts :: "'a frame list \<Rightarrow> 'a list" where
  "lefts [] = []"
| "lefts (InLeft h x r # fs) = lefts fs"
| "lefts (InRight l h x # fs) = lefts fs @ inorder l @ [x]"

fun rights :: "'a frame list \<Rightarrow> 'a list" where
  "rights [] = []"
| "rights (InLeft h x r # fs) = x # inorder r @ rights fs"
| "rights (InRight l h x # fs) = rights fs"

lemma unwind_append [simp]: "unwind t (fs @ gs) = unwind (unwind t fs) gs"
  by (induction fs arbitrary: t) auto

lemma inorder_unwind: "inorder (unwind t fs) = lefts fs @ inorder t @ rights fs"
proof (induction t fs rule: unwind.induct)
  case (2 t f fs)
  then show ?case by (cases f) auto
qed simp

lemma lefts_append [simp]: "lefts (fs @ gs) = lefts gs @ lefts fs"
  by (induction fs rule: lefts.induct) auto

lemma rights_append [simp]: "rights (fs @ gs) = rights fs @ rights gs"
  by (induction fs rule: rights.induct) auto

lemma avl_unwind: "avl (unwind t fs) \<longleftrightarrow> avl t \<and> path_ok (ht t) fs"
proof (induction t fs rule: unwind.induct)
  case (2 t f fs)
  then show ?case by (cases f) auto
qed simp

lemma path_ok_data: "path_ok n (gs @ InLeft h x r # fs) = path_ok n (gs @ InLeft h p r # fs)"
  by (induction n gs rule: path_ok.induct) auto

lemma avl_step_node:
  assumes "avl l" "avl r" "ht l \<le> ht r + 2" "ht r \<le> ht l + 2"
  shows "\<exists>t brk. avl_rebalance_step (AVL_NODE l h x r) = Some (t, brk) \<and> avl t
           \<and> inorder t = inorder l @ x # inorder r \<and> max (ht l) (ht r) \<le> ht t
           \<and> ht t \<le> 1 + max (ht l) (ht r)
           \<and> (ht l \<le> ht r + 1 \<and> ht r \<le> ht l + 1 \<longrightarrow> ht t = 1 + max (ht l) (ht r))
           \<and> (brk \<longrightarrow> t = AVL_NODE l h x r)"
proof -
  consider "ht l = ht r + 2" | "ht r = ht l + 2" | "ht l \<le> ht r + 1" "ht r \<le> ht l + 1"
    using assms(3,4) by linarith
  then show ?thesis
  proof cases
    case 1
    with avl_fix_left_ok [OF assms(1,2) 1, of x] assms show ?thesis by auto
  next
    case 2
    with avl_fix_right_ok [OF assms(1,2) 2, of x] assms show ?thesis by auto
  next
    case 3
    with assms show ?thesis by (auto simp: Let_def max_def)
  qed
qed

lemma avl_rebalance_step_ok:
  assumes "path_ok n (f # fs)" "avl t" "ht t \<le> n + 1" "n \<le> ht t + 1"
  shows "\<exists>t' brk m. avl_rebalance_step (plug f t) = Some (t', brk) \<and> avl t'
           \<and> inorder t' = inorder (plug f t) \<and> path_ok m fs
           \<and> ht t' \<le> m + 1 \<and> m \<le> ht t' + 1 \<and> (brk \<longrightarrow> ht t' = m)"
proof (cases f)
  case (InLeft h x r)
  have "ht t \<le> ht r + 2" "ht r \<le> ht t + 2" "avl r" using assms InLeft by auto
  from avl_step_node [OF assms(2) this(3,1,2), of h x] obtain t' brk where
    "avl_rebalance_step (plug f t) = Some (t', brk)" "avl t'" "inorder t' = inorder (plug f t)"
    "max (ht t) (ht r) \<le> ht t'" "ht t' \<le> 1 + max (ht t) (ht r)"
    "ht t \<le> ht r + 1 \<and> ht r \<le> ht t + 1 \<longrightarrow> ht t' = 1 + max (ht t) (ht r)"
    "brk \<longrightarrow> t' = AVL_NODE t h x r"
    using InLeft by auto
  with assms InLeft show ?thesis
    by (intro exI [of _ t'] exI [of _ brk] exI [of _ "1 + max n (ht r)"]) auto
next
  case (InRight l h x)
  have "ht l \<le> ht t + 2" "ht t \<le> ht l + 2" "avl l" using assms InRight by auto
  from avl_step_node [OF this(3) assms(2) this(1,2), of h x] obtain t' brk where
    "avl_rebalance_step (plug f t) = Some (t', brk)" "avl t'" "inorder t' = inorder (plug f t)"
    "max (ht l) (ht t) \<le> ht t'" "ht t' \<le> 1 + max (ht l) (ht t)"
    "ht l \<le> ht t + 1 \<and> ht t \<le> ht l + 1 \<longrightarrow> ht t' = 1 + max (ht l) (ht t)"
    "brk \<longrightarrow> t' = AVL_NODE l h x t"
    using InRight by auto
  with assms InRight show ?thesis
    by (intro exI [of _ t'] exI [of _ brk] exI [of _ "1 + max (ht l) n"]) auto
qed

lemma avlRebalance_ok:
  "path_ok n fs \<Longrightarrow> avl t \<Longrightarrow> ht t \<le> n + 1 \<Longrightarrow> n \<le> ht t + 1 \<Longrightarrow>
   \<exists>t'. avlRebalance t fs = Some t' \<and> avl t' \<and> inorder t' = lefts fs @ inorder t @ rights fs"
proof (induction fs arbitrary: n t)
  case (Cons f fs)
  from avl_rebalance_step_ok [OF Cons.prems] obtain t' brk m where
    step: "avl_rebalance_step (plug f t) = Some (t', brk)" and t': "avl t'"
    and ord: "inorder t' = inorder (plug f t)" and m: "path_ok m fs"
    and near: "ht t' \<le> m + 1" "m \<le> ht t' + 1" and brk: "brk \<longrightarrow> ht t' = m"
    by blast
  have whole: "lefts (f # fs) @ inorder t @ rights (f # fs) = lefts fs @ inorder t' @ rights fs"
    using ord by (cases f) auto
  show ?case
  proof (cases brk)
    case True
    with step brk m t' whole show ?thesis by (simp add: avl_unwind inorder_unwind)
  next
    case False
    with step Cons.IH [OF m t' near] whole show ?thesis by auto
  qed
qed simp

subsection \<open>The descent, and the room in the ancestor array\<close>

lemma avl_descend_unwind:
  "avl_descend cmp k t fs = Some (u, gs) \<Longrightarrow> unwind u gs = unwind t fs"
  by (induction t arbitrary: fs) (auto simp: Let_def split: if_splits)

lemma avl_descend_room:
  "length fs + ht t \<le> AVL_MAX_HEIGHT \<Longrightarrow>
   \<exists>u gs. avl_descend cmp k t fs = Some (u, gs) \<and> length gs + ht u \<le> length fs + ht t"
proof (induction t arbitrary: fs)
  case (AVL_NODE l h x r)
  from AVL_NODE.IH(1) [of "InLeft h x r # fs"] AVL_NODE.IH(2) [of "InRight l h x # fs"]
    AVL_NODE.prems show ?case
    by (cases "cmp x k = 0"; cases "cmp x k < 0") (fastforce simp: Let_def)+
qed simp

lemma avl_last_room:
  "t \<noteq> NULL \<Longrightarrow> n + ht t \<le> Suc AVL_MAX_HEIGHT \<Longrightarrow> \<exists>l p hs. avl_last n t gs = Some (l, p, hs)"
proof (induction n t gs rule: avl_last.induct)
  case (2 n l h x r gs)
  show ?case
  proof (cases "r = NULL")
    case False
    then have "0 < ht r" by (simp add: zero_less_iff_neq_zero)
    with 2 False show ?thesis by auto
  qed simp
qed simp

lemma avl_last_unwind:
  "avl_last n t gs = Some (l, p, hs) \<Longrightarrow>
   rights gs = rights hs \<and> (\<exists>h. unwind (AVL_NODE l h p NULL) hs = unwind t gs)"
proof (induction n t gs rule: avl_last.induct)
  case (2 n l' h x r gs)
  then show ?case by (cases "r = NULL") (auto split: if_splits)
qed simp

lemma avl_unlink_ok:
  assumes "avl (unwind (AVL_NODE l h x r) fs)" "length fs + ht (AVL_NODE l h x r) \<le> AVL_MAX_HEIGHT"
  shows "\<exists>t. avl_unlink l h r fs = Some t \<and> avl t
           \<and> inorder t = lefts fs @ inorder l @ inorder r @ rights fs"
proof (cases "l = NULL")
  case True
  with assms(1) avlRebalance_ok [of "ht (AVL_NODE l h x r)" fs r] show ?thesis
    by (auto simp: avl_unlink_def avl_unwind)
next
  case False
  have pos: "0 < ht l" using False by (simp add: zero_less_iff_neq_zero)
  then have room: "Suc (length fs) + ht l \<le> Suc AVL_MAX_HEIGHT" "\<not> AVL_MAX_HEIGHT \<le> Suc (length fs)"
    using assms(2) by auto
  from avl_last_room [OF False room(1), of "[]"] obtain l' p gs
    where last: "avl_last (Suc (length fs)) l [] = Some (l', p, gs)" by blast
  from avl_last_unwind [OF last] obtain h' where
    gs: "rights gs = []" and un: "unwind (AVL_NODE l' h' p NULL) gs = l" by auto
  have "avl (unwind (AVL_NODE l' h' p NULL) (gs @ InLeft h x r # fs))"
    using assms(1) un by simp
  then have ok: "avl l'" "path_ok (1 + ht l') (gs @ InLeft h p r # fs)"
    using path_ok_data [of _ gs h x r fs p] unfolding avl_unwind by auto
  have "inorder l = lefts gs @ inorder l' @ [p]"
    using un gs inorder_unwind [of "AVL_NODE l' h' p NULL" gs] by simp
  then show ?thesis
    using avlRebalance_ok [OF ok(2,1)] gs last room(2) False by (simp add: avl_unlink_def)
qed

subsection \<open>Height against number of nodes\<close>

fun fib :: "nat \<Rightarrow> nat" where
  "fib 0 = 0"
| "fib (Suc 0) = 1"
| "fib (Suc (Suc n)) = fib n + fib (Suc n)"

lemma fib_Suc_mono: "fib n \<le> fib (Suc n)"
  by (induction n rule: fib.induct) auto

lemma fib_mono: "m \<le> n \<Longrightarrow> fib m \<le> fib n"
  by (rule lift_Suc_mono_le [of fib]) (auto simp: fib_Suc_mono)

lemma avl_fib_nodes: "avl t \<Longrightarrow> fib (ht t + 2) \<le> Suc (length (inorder t))"
proof (induction t)
  case (AVL_NODE l h x r)
  show ?case
  proof (cases "ht l \<le> ht r")
    case True
    with AVL_NODE.prems fib_mono [of "ht r + 1" "ht l + 2"] AVL_NODE.IH show ?thesis
      by (auto simp: max_def)
  next
    case False
    with AVL_NODE.prems fib_mono [of "ht l + 1" "ht r + 2"] AVL_NODE.IH show ?thesis
      by (auto simp: max_def)
  qed
qed simp

lemma avl_ht_room:
  assumes "avl t" "length (inorder t) < fib 45 - 1"
  shows "ht t \<le> AVL_MAX_HEIGHT"
proof (rule ccontr)
  assume "\<not> ht t \<le> AVL_MAX_HEIGHT"
  then have "fib 45 \<le> fib (ht t + 2)" by (intro fib_mono) (simp add: AVL_MAX_HEIGHT_def)
  with avl_fib_nodes [OF assms(1)] assms(2) show False by linarith
qed

fun fib_from :: "nat \<Rightarrow> nat \<Rightarrow> nat \<Rightarrow> nat" where
  "fib_from a b 0 = a"
| "fib_from a b (Suc n) = fib_from b (a + b) n"

lemma fib_from_fib: "fib_from (fib m) (fib (Suc m)) n = fib (m + n)"
proof (induction n arbitrary: m)
  case (Suc n)
  from Suc.IH [of "Suc m"] show ?case by simp
qed simp

lemma fib_from_numeral:
  "fib_from (numeral a) (numeral b) (numeral k) =
   fib_from (numeral b) (numeral a + numeral b) (pred_numeral k)"
  by (simp only: numeral_eq_Suc fib_from.simps)

lemma fib_45: "fib 45 = 1134903170"
proof -
  have "fib_from 2 3 42 = 1134903170" by (simp add: fib_from_numeral)
  moreover have "fib 3 = 2" "fib (Suc 3) = 3" by (simp_all add: eval_nat_numeral)
  ultimately show ?thesis using fib_from_fib [of 3 42] by simp
qed

section \<open>Ordered trees as finite maps\<close>

text \<open>
  What the routines expect of a comparison function: it compares the search argument with the node's
  key in a strict total order, and its sign is negative when the argument comes first. \<open>key\<close> and
  \<open>arg\<close> say what is compared. \<open>tree_map\<close> is the abstract view of a tree.
\<close>

definition tree_map :: "('a \<Rightarrow> 'o) \<Rightarrow> 'a avl_node \<Rightarrow> 'o \<rightharpoonup> 'a" where
  "tree_map key t = map_of (map (\<lambda>x. (key x, x)) (inorder t))"

definition avl_sorted :: "('o \<Rightarrow> 'o \<Rightarrow> bool) \<Rightarrow> ('a \<Rightarrow> 'o) \<Rightarrow> 'a list \<Rightarrow> bool" where
  "avl_sorted lt key xs = sorted_wrt (\<lambda>x y. lt (key x) (key y)) xs"

definition avl_wf :: "('o \<Rightarrow> 'o \<Rightarrow> bool) \<Rightarrow> ('a \<Rightarrow> 'o) \<Rightarrow> 'a avl_node \<Rightarrow> bool" where
  "avl_wf lt key t \<longleftrightarrow> avl t \<and> avl_sorted lt key (inorder t)"

locale avl_order =
  fixes less :: "'o \<Rightarrow> 'o \<Rightarrow> bool"
    and key :: "'a \<Rightarrow> 'o"
    and arg :: "'k \<Rightarrow> 'o"
    and cmp :: "'a \<Rightarrow> 'k \<Rightarrow> int"
  assumes less_irrefl: "\<not> less a a"
    and less_trans: "less a b \<Longrightarrow> less b c \<Longrightarrow> less a c"
    and less_total: "a \<noteq> b \<Longrightarrow> less a b \<or> less b a"
    and cmp_zero: "cmp x k = 0 \<longleftrightarrow> arg k = key x"
    and cmp_neg: "cmp x k < 0 \<longleftrightarrow> less (arg k) (key x)"
begin

abbreviation ordered :: "'a list \<Rightarrow> bool" where
  "ordered \<equiv> avl_sorted less key"

abbreviation wf_tree :: "'a avl_node \<Rightarrow> bool" where
  "wf_tree \<equiv> avl_wf less key"

lemma cmp_pos: "cmp x k > 0 \<longleftrightarrow> less (key x) (arg k)"
  using cmp_zero [of x k] cmp_neg [of x k] less_total less_irrefl less_trans
  by (metis linorder_neqE_linordered_idom order_less_asym)

lemma ordered_simps [simp]:
  "ordered []"
  "ordered (x # xs) \<longleftrightarrow> (\<forall>y \<in> set xs. less (key x) (key y)) \<and> ordered xs"
  "ordered (xs @ ys) \<longleftrightarrow> ordered xs \<and> ordered ys \<and> (\<forall>x \<in> set xs. \<forall>y \<in> set ys. less (key x) (key y))"
  by (auto simp: avl_sorted_def sorted_wrt_append)

lemma avl_descend_split:
  assumes "avl_descend cmp k t fs = Some (u, gs)" "ordered (inorder (unwind t fs))"
    "\<forall>x \<in> set (lefts fs). less (key x) (arg k)" "\<forall>x \<in> set (rights fs). less (arg k) (key x)"
  shows "(\<forall>x \<in> set (lefts gs). less (key x) (arg k)) \<and> (\<forall>x \<in> set (rights gs). less (arg k) (key x))
         \<and> (\<forall>l h x r. u = AVL_NODE l h x r \<longrightarrow> key x = arg k)"
  using assms
proof (induction t arbitrary: fs)
  case (AVL_NODE l h x r)
  have ord: "ordered (lefts fs @ (inorder l @ x # inorder r) @ rights fs)"
    using AVL_NODE.prems(2) by (simp add: inorder_unwind)
  consider "cmp x k = 0" | "cmp x k < 0" | "cmp x k > 0" by linarith
  then show ?case
  proof cases
    case 1
    with AVL_NODE.prems show ?thesis by (auto simp: Let_def cmp_zero split: if_splits)
  next
    case 2
    then have "less (arg k) (key x)" by (simp add: cmp_neg)
    then have "\<forall>y \<in> set (rights (InLeft h x r # fs)). less (arg k) (key y)"
      using ord AVL_NODE.prems(4) less_trans [of "arg k" "key x"] by auto
    with AVL_NODE.IH(1) [of "InLeft h x r # fs"] AVL_NODE.prems 2 show ?thesis
      by (simp add: Let_def split: if_splits)
  next
    case 3
    then have k: "less (key x) (arg k)" by (simp add: cmp_pos)
    have "\<forall>y \<in> set (lefts (InRight l h x # fs)). less (key y) (arg k)"
      using ord AVL_NODE.prems(3) less_trans [OF _ k] k by auto
    with AVL_NODE.IH(2) [of "InRight l h x # fs"] AVL_NODE.prems 3 show ?thesis
      by (simp add: Let_def split: if_splits)
  qed
qed simp

lemma map_of_keys_None:
  "(\<forall>x \<in> set xs. key x \<noteq> k) \<Longrightarrow> map_of (map (\<lambda>x. (key x, x)) xs) k = None"
  by (induction xs) auto

lemma descend_root:
  assumes "wf_tree t" "ht t \<le> AVL_MAX_HEIGHT"
  obtains u fs where "avl_descend cmp k t [] = Some (u, fs)" "unwind u fs = t"
    "length fs + ht u \<le> AVL_MAX_HEIGHT"
    "\<forall>x \<in> set (lefts fs). less (key x) (arg k)" "\<forall>x \<in> set (rights fs). less (arg k) (key x)"
    "\<And>l h x r. u = AVL_NODE l h x r \<Longrightarrow> key x = arg k"
proof -
  from avl_descend_room [of "[]" t cmp k] assms(2) obtain u fs where
    d: "avl_descend cmp k t [] = Some (u, fs)" and room: "length fs + ht u \<le> ht t" by auto
  from avl_descend_unwind [OF d] have un: "unwind u fs = t" by simp
  from avl_descend_split [OF d] assms(1)
  have "(\<forall>x \<in> set (lefts fs). less (key x) (arg k)) \<and> (\<forall>x \<in> set (rights fs). less (arg k) (key x))
         \<and> (\<forall>l h x r. u = AVL_NODE l h x r \<longrightarrow> key x = arg k)"
    by (simp add: avl_wf_def)
  with d un room assms(2) that show thesis by auto
qed

lemma avlSearch_map:
  assumes "wf_tree t"
  shows "avlSearch cmp t k = tree_map key t (arg k)"
proof -
  have "ordered (inorder t)" using assms by (simp add: avl_wf_def)
  then show ?thesis
  proof (induction t)
    case (AVL_NODE l h x r)
    consider "cmp x k = 0" | "cmp x k < 0" | "cmp x k > 0" by linarith
    then show ?case
    proof cases
      case 1
      then have "map_of (map (\<lambda>x. (key x, x)) (inorder l)) (arg k) = None"
        using AVL_NODE.prems by (intro map_of_keys_None) (auto simp: cmp_zero less_irrefl)
      with 1 show ?thesis by (simp add: tree_map_def map_add_def cmp_zero)
    next
      case 2
      then have k: "less (arg k) (key x)" by (simp add: cmp_neg)
      have "\<forall>y \<in> set (inorder r). less (arg k) (key y)" using AVL_NODE.prems less_trans [OF k] by simp
      then have "map_of (map (\<lambda>x. (key x, x)) (inorder r)) (arg k) = None"
        using less_irrefl by (intro map_of_keys_None) metis
      moreover have "arg k \<noteq> key x" using k less_irrefl by auto
      ultimately show ?thesis
        using 2 AVL_NODE by (simp add: tree_map_def map_add_def split: option.splits)
    next
      case 3
      then have k: "less (key x) (arg k)" by (simp add: cmp_pos)
      have "\<forall>y \<in> set (inorder l). less (key y) (arg k)" using AVL_NODE.prems less_trans [OF _ k] by simp
      then have "map_of (map (\<lambda>x. (key x, x)) (inorder l)) (arg k) = None"
        using less_irrefl by (intro map_of_keys_None) metis
      moreover have "arg k \<noteq> key x" using k less_irrefl by auto
      ultimately show ?thesis
        using 3 AVL_NODE by (simp add: tree_map_def map_add_def split: option.splits)
    qed
  qed (simp add: tree_map_def)
qed

lemma map_of_mid:
  assumes "\<forall>y \<in> set L. less (key y) (key x)" "\<forall>y \<in> set R. less (key x) (key y)"
  shows "map_of (map (\<lambda>x. (key x, x)) (L @ x # R)) =
           (map_of (map (\<lambda>x. (key x, x)) (L @ R)))(key x \<mapsto> x)"
    and "map_of (map (\<lambda>x. (key x, x)) (L @ R)) (key x) = None"
proof -
  have "\<forall>y \<in> set L. key y \<noteq> key x" "\<forall>y \<in> set R. key y \<noteq> key x"
    using assms less_irrefl by metis+
  then have L: "map_of (map (\<lambda>x. (key x, x)) L) (key x) = None"
    and R: "map_of (map (\<lambda>x. (key x, x)) R) (key x) = None"
    by (simp_all only: map_of_keys_None)
  then show "map_of (map (\<lambda>x. (key x, x)) (L @ x # R)) =
           (map_of (map (\<lambda>x. (key x, x)) (L @ R)))(key x \<mapsto> x)"
    by (auto simp: fun_eq_iff map_add_def split: option.splits)
  from L R show "map_of (map (\<lambda>x. (key x, x)) (L @ R)) (key x) = None"
    by (simp add: map_add_def)
qed

lemma ordered_mid:
  assumes "ordered (L @ R)" "\<forall>y \<in> set L. less (key y) (key x)" "\<forall>y \<in> set R. less (key x) (key y)"
  shows "ordered (L @ x # R)"
  using assms by auto

text \<open>Linking a fresh leaf in at the end of the descent: the core of all three insertions.\<close>

lemma link_leaf:
  assumes "unwind NULL fs = t" "wf_tree t" "arg k = key x"
    "\<forall>y \<in> set (lefts fs). less (key y) (arg k)" "\<forall>y \<in> set (rights fs). less (arg k) (key y)"
  shows "\<exists>t'. avlRebalance (AVL_NODE NULL 1 x NULL) fs = Some t' \<and> wf_tree t'
           \<and> tree_map key t' = (tree_map key t)(key x \<mapsto> x)
           \<and> inorder t' = lefts fs @ x # rights fs"
proof -
  have t: "inorder t = lefts fs @ rights fs"
    using assms(1) inorder_unwind [of NULL fs] by simp
  have "path_ok 0 fs" using assms(1,2) avl_unwind [of NULL fs] by (simp add: avl_wf_def)
  with avlRebalance_ok [of 0 fs "AVL_NODE NULL 1 x NULL"] obtain t' where
    t': "avlRebalance (AVL_NODE NULL 1 x NULL) fs = Some t'" "avl t'" "inorder t' = lefts fs @ x # rights fs"
    by auto
  have "ordered (inorder t')"
    using ordered_mid [of "lefts fs" "rights fs" x] assms(2-5) t t'(3) by (simp add: avl_wf_def)
  moreover have "tree_map key t' = (tree_map key t)(key x \<mapsto> x)"
    using map_of_mid(1) [of "lefts fs" x "rights fs"] assms(3-5) t t'(3) by (simp add: tree_map_def)
  ultimately show ?thesis using t' by (auto simp: avl_wf_def)
qed

lemma found_split:
  assumes "unwind (AVL_NODE l h y r) fs = t" "wf_tree t"
  shows "inorder t = (lefts fs @ inorder l) @ y # (inorder r @ rights fs)"
    and "\<forall>z \<in> set (lefts fs @ inorder l). less (key z) (key y)"
    and "\<forall>z \<in> set (inorder r @ rights fs). less (key y) (key z)"
    and "ordered ((lefts fs @ inorder l) @ inorder r @ rights fs)"
  using assms inorder_unwind [of "AVL_NODE l h y r" fs] by (auto simp: avl_wf_def)

lemma found_map:
  assumes "unwind (AVL_NODE l h y r) fs = t" "wf_tree t"
  shows "tree_map key t (key y) = Some y"
  using map_of_mid(1) [OF found_split(2,3) [OF assms]] found_split(1) [OF assms]
  by (simp add: tree_map_def)

lemma absent_map:
  assumes "unwind NULL fs = t" "\<forall>y \<in> set (lefts fs). less (key y) k" "\<forall>y \<in> set (rights fs). less k (key y)"
  shows "tree_map key t k = None"
proof -
  have "\<forall>y \<in> set (inorder t). key y \<noteq> k"
    using assms inorder_unwind [of NULL fs] less_irrefl by auto
  then show ?thesis by (simp add: tree_map_def map_of_keys_None)
qed

lemma avlInsert_refines:
  assumes "wf_tree t" "ht t \<le> AVL_MAX_HEIGHT" "arg k = key x"
  shows "case tree_map key t (key x) of
           Some y \<Rightarrow> avlInsert cmp t x k = Some (ERROR, t)
         | None \<Rightarrow> \<exists>t'. avlInsert cmp t x k = Some (OK, t') \<and> wf_tree t'
                     \<and> tree_map key t' = (tree_map key t)(key x \<mapsto> x)
                     \<and> length (inorder t') = Suc (length (inorder t))"
proof -
  obtain u fs where d: "avl_descend cmp k t [] = Some (u, fs)" and un: "unwind u fs = t"
    and L: "\<forall>y \<in> set (lefts fs). less (key y) (arg k)"
    and R: "\<forall>y \<in> set (rights fs). less (arg k) (key y)"
    and found: "\<And>l h y r. u = AVL_NODE l h y r \<Longrightarrow> key y = arg k"
    using descend_root [OF assms(1,2)] by metis
  show ?thesis
  proof (cases u)
    case NULL
    have "inorder t = lefts fs @ rights fs" using un NULL inorder_unwind [of NULL fs] by simp
    with link_leaf [of fs t k x] absent_map [of fs t "arg k"] un L R assms d NULL show ?thesis
      by (auto simp: avlInsert_def)
  next
    case (AVL_NODE l h y r)
    with found_map [of l h y r fs t] found un assms d show ?thesis by (auto simp: avlInsert_def)
  qed
qed

lemma avlInsertInform_refines:
  assumes "wf_tree t" "ht t \<le> AVL_MAX_HEIGHT" "arg k = key x"
  shows "case tree_map key t (key x) of
           Some y \<Rightarrow> avlInsertInform cmp t x k False = Some (ERROR, t, Some y)
         | None \<Rightarrow> \<exists>t'. avlInsertInform cmp t x k False = Some (OK, t', Some x) \<and> wf_tree t'
                     \<and> tree_map key t' = (tree_map key t)(key x \<mapsto> x)"
proof -
  obtain u fs where d: "avl_descend cmp k t [] = Some (u, fs)" and un: "unwind u fs = t"
    and L: "\<forall>y \<in> set (lefts fs). less (key y) (arg k)"
    and R: "\<forall>y \<in> set (rights fs). less (arg k) (key y)"
    and found: "\<And>l h y r. u = AVL_NODE l h y r \<Longrightarrow> key y = arg k"
    using descend_root [OF assms(1,2)] by metis
  show ?thesis
  proof (cases u)
    case NULL
    with link_leaf [of fs t k x] absent_map [of fs t "arg k"] un L R assms d show ?thesis
      by (auto simp: avlInsertInform_def)
  next
    case (AVL_NODE l h y r)
    with found_map [of l h y r fs t] found un assms d show ?thesis
      by (auto simp: avlInsertInform_def)
  qed
qed

lemma avlRemoveInsert_refines:
  assumes "wf_tree t" "ht t \<le> AVL_MAX_HEIGHT" "arg k = key x"
  shows "\<exists>t'. avlRemoveInsert cmp t x k = Some (tree_map key t (key x), t') \<and> wf_tree t'
           \<and> tree_map key t' = (tree_map key t)(key x \<mapsto> x)"
proof -
  obtain u fs where d: "avl_descend cmp k t [] = Some (u, fs)" and un: "unwind u fs = t"
    and L: "\<forall>y \<in> set (lefts fs). less (key y) (arg k)"
    and R: "\<forall>y \<in> set (rights fs). less (arg k) (key y)"
    and found: "\<And>l h y r. u = AVL_NODE l h y r \<Longrightarrow> key y = arg k"
    using descend_root [OF assms(1,2)] by metis
  show ?thesis
  proof (cases u)
    case NULL
    with link_leaf [of fs t k x] absent_map [of fs t "arg k"] un L R assms d show ?thesis
      by (auto simp: avlRemoveInsert_def)
  next
    case (AVL_NODE l h y r)
    let ?t' = "unwind (AVL_NODE l h x r) fs"
    let ?L = "lefts fs @ inorder l" and ?R = "inorder r @ rights fs"
    have y: "key y = key x" using found AVL_NODE assms(3) by simp
    have un': "unwind (AVL_NODE l h y r) fs = t" using un AVL_NODE by simp
    note sp = found_split [OF un' assms(1)]
    have io: "inorder ?t' = ?L @ x # ?R" by (simp add: inorder_unwind)
    have "avl ?t'" using un' assms(1) by (auto simp: avl_wf_def avl_unwind)
    moreover have "ordered (inorder ?t')"
      unfolding io using sp(2-4) y by (intro ordered_mid) auto
    moreover have "tree_map key ?t' = (tree_map key t)(key x \<mapsto> x)"
      using map_of_mid(1) [OF sp(2,3)] map_of_mid(1) [of ?L x ?R] sp y io by (simp add: tree_map_def)
    ultimately show ?thesis
      using d AVL_NODE found_map [OF un' assms(1)] y by (simp add: avlRemoveInsert_def avl_wf_def)
  qed
qed

lemma avlDelete_refines:
  assumes "wf_tree t" "ht t \<le> AVL_MAX_HEIGHT"
  shows "\<exists>t'. avlDelete cmp t k = Some (tree_map key t (arg k), t') \<and> wf_tree t'
           \<and> tree_map key t' = (tree_map key t)(arg k := None)"
proof -
  obtain u fs where d: "avl_descend cmp k t [] = Some (u, fs)" and un: "unwind u fs = t"
    and room: "length fs + ht u \<le> AVL_MAX_HEIGHT"
    and L: "\<forall>y \<in> set (lefts fs). less (key y) (arg k)"
    and R: "\<forall>y \<in> set (rights fs). less (arg k) (key y)"
    and found: "\<And>l h y r. u = AVL_NODE l h y r \<Longrightarrow> key y = arg k"
    using descend_root [OF assms(1,2)] by metis
  show ?thesis
  proof (cases u)
    case NULL
    with absent_map [of fs t "arg k"] un L R assms d show ?thesis
      by (auto simp: avlDelete_def fun_upd_idem)
  next
    case (AVL_NODE l h y r)
    have un': "unwind (AVL_NODE l h y r) fs = t" using un AVL_NODE by simp
    note sp = found_split [OF un' assms(1)]
    from avl_unlink_ok [of l h y r fs] un' assms(1) room AVL_NODE obtain t' where
      t': "avl_unlink l h r fs = Some t'" "avl t'"
        "inorder t' = lefts fs @ inorder l @ inorder r @ rights fs"
      by (auto simp: avl_wf_def)
    have "tree_map key t' = (tree_map key t)(key y := None)"
      using map_of_mid [OF sp(2,3)] sp(1) t'(3) by (simp add: tree_map_def fun_upd_idem)
    moreover have "ordered (inorder t')" using sp(4) t'(3) by simp
    ultimately show ?thesis
      using d AVL_NODE t' found_map [OF un' assms(1)] found by (simp add: avlDelete_def avl_wf_def)
  qed
qed

lemma avl_successor_find:
  "ordered (inorder t) \<Longrightarrow>
   avl_successor cmp k t s =
     (case List.find (\<lambda>x. less (arg k) (key x)) (inorder t) of Some x \<Rightarrow> Some x | None \<Rightarrow> s)"
proof (induction t arbitrary: s)
  case (AVL_NODE l h x r)
  have "\<not> less (arg k) (key x) \<Longrightarrow> \<forall>y \<in> set (inorder l). \<not> less (arg k) (key y)"
    using AVL_NODE.prems less_trans by auto
  then have "\<not> less (arg k) (key x) \<Longrightarrow> List.find (\<lambda>x. less (arg k) (key x)) (inorder l) = None"
    by (simp add: find_None_iff)
  with AVL_NODE show ?case by (auto simp: cmp_neg find_append split: option.splits)
qed simp

lemma avl_predecessor_find:
  "ordered (inorder t) \<Longrightarrow>
   avl_predecessor cmp k t s =
     (case List.find (\<lambda>x. less (key x) (arg k)) (rev (inorder t)) of Some x \<Rightarrow> Some x | None \<Rightarrow> s)"
proof (induction t arbitrary: s)
  case (AVL_NODE l h x r)
  have "\<not> less (key x) (arg k) \<Longrightarrow> \<forall>y \<in> set (inorder r). \<not> less (key y) (arg k)"
    using AVL_NODE.prems less_trans by auto
  then have "\<not> less (key x) (arg k) \<Longrightarrow> List.find (\<lambda>x. less (key x) (arg k)) (rev (inorder r)) = None"
    by (simp add: find_None_iff)
  with AVL_NODE show ?case by (auto simp: cmp_pos find_append split: option.splits)
qed simp

end

lemma avlMinimumGet_hd: "avlMinimumGet t = (if t = NULL then None else Some (hd (inorder t)))"
proof (induction t)
  case (AVL_NODE l h x r)
  then show ?case by (cases l) (auto simp: hd_append)
qed simp

lemma avlMaximumGet_last: "avlMaximumGet t = (if t = NULL then None else Some (last (inorder t)))"
proof (induction t)
  case (AVL_NODE l h x r)
  then show ?case by (cases r) auto
qed simp

section \<open>The unsigned routines are instances\<close>

definition cmp_unsigned :: "'z unsigned_data_scheme \<Rightarrow> u32 \<Rightarrow> int" where
  "cmp_unsigned x key = (if key = ukey x then 0 else if key < ukey x then -1 else 1)"

interpretation au: avl_order "(<) :: u32 \<Rightarrow> u32 \<Rightarrow> bool" ukey "\<lambda>k. k" cmp_unsigned
  by unfold_locales (auto simp: cmp_unsigned_def)

lemma avl_descend_unsigned_eq:
  "avl_descend_unsigned key t fs = avl_descend cmp_unsigned key t fs"
  by (induction key t fs rule: avl_descend_unsigned.induct) (auto simp: cmp_unsigned_def Let_def)

lemma avlInsertUnsigned_eq:
  "avlInsertUnsigned root x = avlInsert cmp_unsigned root x (ukey x)"
  by (simp add: avlInsertUnsigned_def avlInsert_def avl_descend_unsigned_eq)

lemma avlDeleteUnsigned_eq: "avlDeleteUnsigned root key = avlDelete cmp_unsigned root key"
  by (simp add: avlDeleteUnsigned_def avlDelete_def avl_descend_unsigned_eq)

lemma avlSearchUnsigned_eq: "avlSearchUnsigned root key = avlSearch cmp_unsigned root key"
  by (induction root key rule: avlSearchUnsigned.induct) (auto simp: cmp_unsigned_def Let_def)

section \<open>Properties\<close>

text \<open>C5. Inserting a node whose key is not in a well-formed tree returns \<open>OK\<close> with a well-formed tree
  that maps the key to the node and is otherwise unchanged; inserting a key that is present returns
  \<open>ERROR\<close> and leaves the tree alone. Neither reads through a null pointer or past the ancestor array.\<close>

theorem avlInsertUnsigned_refines:
  assumes "avl_wf (<) ukey t" "ht t \<le> AVL_MAX_HEIGHT"
  shows "case tree_map ukey t (ukey x) of
           Some y \<Rightarrow> avlInsertUnsigned t x = Some (ERROR, t)
         | None \<Rightarrow> \<exists>t'. avlInsertUnsigned t x = Some (OK, t') \<and> avl_wf (<) ukey t'
                     \<and> tree_map ukey t' = (tree_map ukey t)(ukey x \<mapsto> x)
                     \<and> length (inorder t') = Suc (length (inorder t))"
  using au.avlInsert_refines [OF assms, of "ukey x" x] unfolding avlInsertUnsigned_eq by simp

lemma avlInsertUnsigned_refines_witness:
  "\<exists>t'. avlInsertUnsigned (AVL_NODE NULL 1 \<lparr>ukey = 5\<rparr> NULL) \<lparr>ukey = 3\<rparr> = Some (OK, t')
        \<and> avl_wf (<) ukey t'"
proof -
  have "avl_wf (<) ukey (AVL_NODE NULL 1 \<lparr>ukey = 5\<rparr> NULL)"
    by (simp add: avl_wf_def avl_sorted_def)
  from avlInsertUnsigned_refines [OF this, of "\<lparr>ukey = 3\<rparr>"] show ?thesis
    by (auto simp: tree_map_def AVL_MAX_HEIGHT_def)
qed

text \<open>C6. Deleting a key from a well-formed tree returns the node that held it, or null when there was
  none, and leaves a well-formed tree with exactly that key removed.\<close>

theorem avlDeleteUnsigned_refines:
  assumes "avl_wf (<) ukey t" "ht t \<le> AVL_MAX_HEIGHT"
  shows "\<exists>t'. avlDeleteUnsigned t key = Some (tree_map ukey t key, t') \<and> avl_wf (<) ukey t'
           \<and> tree_map ukey t' = (tree_map ukey t)(key := None)"
  using au.avlDelete_refines [OF assms, of key] by (simp add: avlDeleteUnsigned_eq)

lemma avlDeleteUnsigned_refines_witness:
  "\<exists>t'. avlDeleteUnsigned (AVL_NODE NULL 1 \<lparr>ukey = 5\<rparr> NULL) 5 = Some (Some \<lparr>ukey = 5\<rparr>, t')"
proof -
  have "avl_wf (<) ukey (AVL_NODE NULL 1 \<lparr>ukey = 5\<rparr> NULL)"
    by (simp add: avl_wf_def avl_sorted_def)
  from avlDeleteUnsigned_refines [OF this, of 5] show ?thesis
    by (auto simp: tree_map_def AVL_MAX_HEIGHT_def)
qed

text \<open>C29. The ancestor arrays are large enough: a balanced tree whose nodes (at least 12 bytes each) fit
  in a 32-bit address space is no higher than \<open>AVL_MAX_HEIGHT\<close>, so descending in it with any
  comparison function and any key stays inside the array.\<close>

theorem avl_ancestor_room:
  assumes "avl t" "12 * length (inorder t) \<le> 2 ^ 32"
  shows "ht t \<le> AVL_MAX_HEIGHT \<and> avl_descend cmp k t [] \<noteq> None"
proof -
  have "length (inorder t) < fib 45 - 1" using assms(2) by (simp add: fib_45)
  with assms(1) have "ht t \<le> AVL_MAX_HEIGHT" by (rule avl_ht_room)
  with avl_descend_room [of "[]" t cmp k] show ?thesis by auto
qed

lemma avl_ancestor_room_witness:
  "ht (AVL_NODE NULL 1 (7::nat) NULL) \<le> AVL_MAX_HEIGHT
   \<and> avl_descend (\<lambda>x k. int k - int x) (3::nat) (AVL_NODE NULL 1 7 NULL) [] \<noteq> None"
proof (rule avl_ancestor_room)
  show "avl (AVL_NODE NULL 1 (7::nat) NULL)" by simp
  show "12 * length (inorder (AVL_NODE NULL 1 (7::nat) NULL)) \<le> 2 ^ 32" by simp
qed

lemma avlTreeErase_NULL [simp]: "fst (avlTreeErase t) = NULL"
  by (cases t) (auto simp: Let_def)

lemma avlTreeErase_calls:
  "snd (avlTreeErase (AVL_NODE l h x r)) =
     snd (avlTreeErase l) @ (if l = NULL then [] else [Free None])
     @ snd (avlTreeErase r) @ (if r = NULL then [] else [Free None]) @ [Free (Some x)]"
  by (simp add: Let_def split_beta)

declare avlTreeErase.simps(2) [simp del]

text \<open>C30. \<open>avlTreeErase\<close> leaves the null tree and passes every node of the tree to \<open>rgos_free\<close> exactly
  once; the other calls it makes are \<open>rgos_free (NULL)\<close>.\<close>

theorem avlTreeErase_frees_once:
  "fst (avlTreeErase t) = NULL
   \<and> (\<forall>x. count_list (snd (avlTreeErase t)) (Free (Some x)) = count_list (inorder t) x)
   \<and> set (snd (avlTreeErase t)) \<subseteq> insert (Free None) ((Free \<circ> Some) ` set (inorder t))"
proof -
  have "\<forall>x. count_list (snd (avlTreeErase t)) (Free (Some x)) = count_list (inorder t) x"
    by (induction t) (simp_all add: avlTreeErase_calls)
  moreover have "set (snd (avlTreeErase t)) \<subseteq> insert (Free None) ((Free \<circ> Some) ` set (inorder t))"
    by (induction t) (auto simp: avlTreeErase_calls)
  ultimately show ?thesis by (simp add: avlTreeErase_NULL)
qed

end
