(* ===== verification/SnoopRules.thy ===== *)
theory SnoopRules
  imports AvlLib
begin

text \<open>
  The URL rules of the HTTP snooping engine: the rule tables and the routines of
  \<^verbatim>\<open>src/nginx/http-snooping/http-snooping.c\<close> that choose the rule for a URL
  (\<open>ngx_http_url_rule_get\<close>, and the older \<open>ngx_http_url_file_cache\<close>). A rule's function pointers
  are the constructors of \<open>key_fn\<close>; offsets into the URL stand for the pointers into it, and lengths
  that the code computes as a difference of pointers are 32-bit words. The host table is searched
  through the AVL tree that \<open>ngx_http_snooping_init\<close> builds; the interpretation \<open>hosts\<close> of
  \<open>avl_order\<close> shows that \<open>http_host_cmp\<close> orders it.
\<close>

section \<open>Flags and rules\<close>

named_theorems flag_defs \<open>values of the flag constants\<close>

definition HTTP_CACHE_URL_HEAD_XIEGAN :: u32 where
  "HTTP_CACHE_URL_HEAD_XIEGAN = 1"

definition HTTP_CACHE_URL_MID_XIEGAN :: u32 where
  "HTTP_CACHE_URL_MID_XIEGAN = 2"

definition HTTP_CACHE_URL_TAIL_XIEGAN :: u32 where
  "HTTP_CACHE_URL_TAIL_XIEGAN = 4"

definition HTTP_CACHE_URL_POST_FILE :: u32 where
  "HTTP_CACHE_URL_POST_FILE = 8"

definition HTTP_CACHE_URL_PARA :: u32 where
  "HTTP_CACHE_URL_PARA = 16"

definition HTTP_CACHE_URL_ACTION_CACHE_SP :: u32 where
  "HTTP_CACHE_URL_ACTION_CACHE_SP = 32"

definition HTTP_CACHE_URL_ACTION_CACHE_UPSTREAM :: u32 where
  "HTTP_CACHE_URL_ACTION_CACHE_UPSTREAM = 64"

definition HTTP_CACHE_URL_ACTION_UPPARSE :: u32 where
  "HTTP_CACHE_URL_ACTION_UPPARSE = 128"

definition HTTP_CACHE_URL_SP_WRITE :: u32 where
  "HTTP_CACHE_URL_SP_WRITE = 256"

definition HTTP_CACHE_URL_REDIRECT_PARA :: u32 where
  "HTTP_CACHE_URL_REDIRECT_PARA = 512"

definition HTTP_CACHE_URL_FORBIDEN :: u32 where
  "HTTP_CACHE_URL_FORBIDEN = 1024"

definition HTTP_CACHE_URL_CON_CLOSE :: u32 where
  "HTTP_CACHE_URL_CON_CLOSE = 2048"

definition HTTP_CACHE_URL_HOMEPAGE_POLL :: u32 where
  "HTTP_CACHE_URL_HOMEPAGE_POLL = 4096"

definition HTTP_CACHE_KEY_HOST :: u32 where
  "HTTP_CACHE_KEY_HOST = 1"

definition HTTP_CACHE_KEY_1_XIEGAN :: u32 where
  "HTTP_CACHE_KEY_1_XIEGAN = 2"

definition HTTP_CACHE_KEY_2_XIEGAN :: u32 where
  "HTTP_CACHE_KEY_2_XIEGAN = 4"

definition HTTP_CACHE_KEY_3_XIEGAN :: u32 where
  "HTTP_CACHE_KEY_3_XIEGAN = 8"

definition HTTP_CACHE_KEY_4_XIEGAN :: u32 where
  "HTTP_CACHE_KEY_4_XIEGAN = 16"

definition HTTP_CACHE_KEY_5_XIEGAN :: u32 where
  "HTTP_CACHE_KEY_5_XIEGAN = 32"

definition HTTP_CACHE_KEY_6_XIEGAN :: u32 where
  "HTTP_CACHE_KEY_6_XIEGAN = 64"

definition HTTP_CACHE_KEY_7_XIEGAN :: u32 where
  "HTTP_CACHE_KEY_7_XIEGAN = 128"

definition HTTP_CACHE_KEY_8_XIEGAN :: u32 where
  "HTTP_CACHE_KEY_8_XIEGAN = 256"

definition HTTP_CACHE_KEY_9_XIEGAN :: u32 where
  "HTTP_CACHE_KEY_9_XIEGAN = 512"

definition HTTP_CACHE_KEY_10_XIEGAN :: u32 where
  "HTTP_CACHE_KEY_10_XIEGAN = 1024"

definition HTTP_CACHE_KEY_ALL_XIEGAN :: u32 where
  "HTTP_CACHE_KEY_ALL_XIEGAN = HTTP_CACHE_KEY_1_XIEGAN OR HTTP_CACHE_KEY_2_XIEGAN OR HTTP_CACHE_KEY_3_XIEGAN
     OR HTTP_CACHE_KEY_4_XIEGAN OR HTTP_CACHE_KEY_5_XIEGAN OR HTTP_CACHE_KEY_6_XIEGAN OR HTTP_CACHE_KEY_7_XIEGAN
     OR HTTP_CACHE_KEY_8_XIEGAN OR HTTP_CACHE_KEY_9_XIEGAN OR HTTP_CACHE_KEY_10_XIEGAN"

definition HTTP_CACHE_KEY_PARA :: u32 where
  "HTTP_CACHE_KEY_PARA = 2048"

definition HTTP_CACHE_KEY_FILE :: u32 where
  "HTTP_CACHE_KEY_FILE = 4096"

definition HTTP_CACHE_HOST_FORBIDEN :: u32 where
  "HTTP_CACHE_HOST_FORBIDEN = 1"

lemmas http_cache_flag_defs [flag_defs] =
  HTTP_CACHE_URL_HEAD_XIEGAN_def HTTP_CACHE_URL_MID_XIEGAN_def HTTP_CACHE_URL_TAIL_XIEGAN_def HTTP_CACHE_URL_POST_FILE_def HTTP_CACHE_URL_PARA_def HTTP_CACHE_URL_ACTION_CACHE_SP_def HTTP_CACHE_URL_ACTION_CACHE_UPSTREAM_def HTTP_CACHE_URL_ACTION_UPPARSE_def HTTP_CACHE_URL_SP_WRITE_def HTTP_CACHE_URL_REDIRECT_PARA_def HTTP_CACHE_URL_FORBIDEN_def HTTP_CACHE_URL_CON_CLOSE_def HTTP_CACHE_URL_HOMEPAGE_POLL_def HTTP_CACHE_KEY_HOST_def HTTP_CACHE_KEY_1_XIEGAN_def HTTP_CACHE_KEY_2_XIEGAN_def HTTP_CACHE_KEY_3_XIEGAN_def HTTP_CACHE_KEY_4_XIEGAN_def HTTP_CACHE_KEY_5_XIEGAN_def HTTP_CACHE_KEY_6_XIEGAN_def HTTP_CACHE_KEY_7_XIEGAN_def HTTP_CACHE_KEY_8_XIEGAN_def HTTP_CACHE_KEY_9_XIEGAN_def HTTP_CACHE_KEY_10_XIEGAN_def HTTP_CACHE_KEY_PARA_def HTTP_CACHE_KEY_FILE_def HTTP_CACHE_HOST_FORBIDEN_def

datatype key_fn =
  SohuPara | SohuM3u8File | PlYoukuPara | YoukuAndriodPara | QqComPara | ArkLetvComPara

record http_cache_url =
  cache_flg :: u32
  key_flg :: u32
  head_xiegan :: cstr
  mid_xiegan :: cstr
  tail_xiegan :: cstr
  post_file :: cstr
  para :: cstr
  url_file_key_parse :: "key_fn option"
  url_para_key_parse :: "key_fn option"

definition rule ::
  "u32 \<Rightarrow> u32 \<Rightarrow> cstr \<Rightarrow> cstr \<Rightarrow> cstr \<Rightarrow> cstr \<Rightarrow> cstr \<Rightarrow> key_fn option \<Rightarrow> key_fn option \<Rightarrow> http_cache_url" where
  "rule cf kf h m t p pa ffn pfn =
     \<lparr>cache_flg = cf, key_flg = kf, head_xiegan = h, mid_xiegan = m, tail_xiegan = t,
      post_file = p, para = pa, url_file_key_parse = ffn, url_para_key_parse = pfn\<rparr>"

record http_cache_host_url_t =
  host_flg :: u32
  host :: cstr
  url_cache :: "http_cache_url list"

definition host_rule :: "u32 \<Rightarrow> cstr \<Rightarrow> http_cache_url list \<Rightarrow> http_cache_host_url_t" where
  "host_rule cf h us = \<lparr>host_flg = cf, host = h, url_cache = us\<rparr>"

section \<open>The rule tables\<close>

definition http_cache_file :: "http_cache_url list" where
  "http_cache_file =
    [rule (HTTP_CACHE_URL_HEAD_XIEGAN OR HTTP_CACHE_URL_POST_FILE OR HTTP_CACHE_URL_ACTION_CACHE_UPSTREAM OR HTTP_CACHE_URL_REDIRECT_PARA OR HTTP_CACHE_URL_CON_CLOSE)
       (HTTP_CACHE_KEY_1_XIEGAN OR HTTP_CACHE_KEY_FILE)
       ''/youku'' [] [] ''.flv'' [] None None,
     rule (HTTP_CACHE_URL_HEAD_XIEGAN OR HTTP_CACHE_URL_POST_FILE OR HTTP_CACHE_URL_ACTION_CACHE_UPSTREAM OR HTTP_CACHE_URL_REDIRECT_PARA OR HTTP_CACHE_URL_CON_CLOSE)
       (HTTP_CACHE_KEY_1_XIEGAN OR HTTP_CACHE_KEY_FILE)
       ''/youku'' [] [] ''.mp4'' [] None None,
     rule (HTTP_CACHE_URL_TAIL_XIEGAN OR HTTP_CACHE_URL_ACTION_CACHE_UPSTREAM OR HTTP_CACHE_URL_REDIRECT_PARA OR HTTP_CACHE_URL_CON_CLOSE)
       (HTTP_CACHE_KEY_FILE OR HTTP_CACHE_KEY_PARA)
       [] [] ''/ipad'' [] [] None (Some SohuPara),
     rule (HTTP_CACHE_URL_HEAD_XIEGAN OR HTTP_CACHE_URL_POST_FILE OR HTTP_CACHE_URL_ACTION_CACHE_UPSTREAM OR HTTP_CACHE_URL_REDIRECT_PARA OR HTTP_CACHE_URL_CON_CLOSE)
       (HTTP_CACHE_KEY_1_XIEGAN OR HTTP_CACHE_KEY_FILE)
       ''/sohu.vodnew.lxdns.com'' [] [] ''.mp4'' [] None None,
     rule (HTTP_CACHE_URL_POST_FILE OR HTTP_CACHE_URL_ACTION_CACHE_UPSTREAM OR HTTP_CACHE_URL_REDIRECT_PARA OR HTTP_CACHE_URL_CON_CLOSE)
       (HTTP_CACHE_KEY_FILE)
       [] [] [] ''.flv'' [] None None,
     rule (HTTP_CACHE_URL_POST_FILE OR HTTP_CACHE_URL_ACTION_CACHE_UPSTREAM OR HTTP_CACHE_URL_REDIRECT_PARA OR HTTP_CACHE_URL_CON_CLOSE)
       (HTTP_CACHE_KEY_FILE)
       [] [] [] ''.mp4'' [] None None,
     rule (HTTP_CACHE_URL_POST_FILE OR HTTP_CACHE_URL_ACTION_CACHE_SP OR HTTP_CACHE_URL_ACTION_UPPARSE OR HTTP_CACHE_URL_REDIRECT_PARA OR HTTP_CACHE_URL_CON_CLOSE)
       (HTTP_CACHE_KEY_FILE)
       [] [] [] ''.m3u8'' [] None None,
     rule (HTTP_CACHE_URL_HEAD_XIEGAN OR HTTP_CACHE_URL_MID_XIEGAN OR HTTP_CACHE_URL_TAIL_XIEGAN OR HTTP_CACHE_URL_ACTION_CACHE_SP OR HTTP_CACHE_URL_HOMEPAGE_POLL OR HTTP_CACHE_URL_CON_CLOSE)
       (HTTP_CACHE_KEY_FILE)
       [] [] ''/'' [] [] None None]"

definition http_youku_vidoe_html_url_str :: "http_cache_url list" where
  "http_youku_vidoe_html_url_str =
    [rule (HTTP_CACHE_URL_HEAD_XIEGAN OR HTTP_CACHE_URL_POST_FILE OR HTTP_CACHE_URL_ACTION_CACHE_SP OR HTTP_CACHE_URL_ACTION_UPPARSE OR HTTP_CACHE_URL_CON_CLOSE)
       (HTTP_CACHE_KEY_HOST OR HTTP_CACHE_KEY_FILE)
       ''/v_show'' [] [] ''.html'' [] None None,
     rule (HTTP_CACHE_URL_HEAD_XIEGAN OR HTTP_CACHE_URL_POST_FILE OR HTTP_CACHE_URL_ACTION_CACHE_SP OR HTTP_CACHE_URL_ACTION_UPPARSE OR HTTP_CACHE_URL_CON_CLOSE)
       (HTTP_CACHE_KEY_HOST OR HTTP_CACHE_KEY_FILE)
       ''/v_show'' [] [] ''.shtml'' [] None None]"

definition http_forbiden_rule :: http_cache_url where
  "http_forbiden_rule = rule (HTTP_CACHE_URL_FORBIDEN)
       (0)
       [] [] [] [] [] None None"

definition http_pl_youku_flvpath_url_str :: "http_cache_url list" where
  "http_pl_youku_flvpath_url_str =
    [rule (HTTP_CACHE_URL_HEAD_XIEGAN OR HTTP_CACHE_URL_TAIL_XIEGAN OR HTTP_CACHE_URL_ACTION_CACHE_SP OR HTTP_CACHE_URL_ACTION_UPPARSE OR HTTP_CACHE_URL_CON_CLOSE)
       (HTTP_CACHE_KEY_HOST OR HTTP_CACHE_KEY_1_XIEGAN OR HTTP_CACHE_KEY_2_XIEGAN OR HTTP_CACHE_KEY_PARA)
       ''/playlist'' [] ''/m3u8'' [] [] None (Some PlYoukuPara)]"

definition http_sohu_flvpath_url_str :: "http_cache_url list" where
  "http_sohu_flvpath_url_str =
    [rule (HTTP_CACHE_URL_HEAD_XIEGAN OR HTTP_CACHE_URL_POST_FILE OR HTTP_CACHE_URL_ACTION_CACHE_SP OR HTTP_CACHE_URL_ACTION_UPPARSE OR HTTP_CACHE_URL_CON_CLOSE)
       (HTTP_CACHE_KEY_HOST OR HTTP_CACHE_KEY_FILE)
       ''/ipad'' [] [] ''.m3u8'' [] (Some SohuM3u8File) None,
     rule (HTTP_CACHE_URL_POST_FILE OR HTTP_CACHE_URL_ACTION_CACHE_SP OR HTTP_CACHE_URL_ACTION_UPPARSE OR HTTP_CACHE_URL_ACTION_UPPARSE OR HTTP_CACHE_URL_CON_CLOSE)
       (HTTP_CACHE_KEY_HOST OR HTTP_CACHE_KEY_FILE)
       [] [] [] ''.m3u8'' [] (Some SohuM3u8File) None]"

definition http_youku_andriod_flvpath_url_str :: "http_cache_url list" where
  "http_youku_andriod_flvpath_url_str =
    [rule (HTTP_CACHE_URL_TAIL_XIEGAN OR HTTP_CACHE_URL_ACTION_CACHE_SP OR HTTP_CACHE_URL_ACTION_UPPARSE OR HTTP_CACHE_URL_CON_CLOSE)
       (HTTP_CACHE_KEY_PARA)
       ''/common'' ''/v3'' ''/play'' [] [] None (Some YoukuAndriodPara)]"

definition http_valf_atm_youku_com_rule :: "http_cache_url list" where
  "http_valf_atm_youku_com_rule =
    [rule (HTTP_CACHE_URL_TAIL_XIEGAN OR HTTP_CACHE_URL_REDIRECT_PARA OR HTTP_CACHE_URL_ACTION_CACHE_UPSTREAM OR HTTP_CACHE_URL_CON_CLOSE)
       (HTTP_CACHE_KEY_HOST OR HTTP_CACHE_KEY_FILE)
       [] [] ''/vf'' [] [] None None,
     rule (HTTP_CACHE_URL_TAIL_XIEGAN OR HTTP_CACHE_URL_REDIRECT_PARA OR HTTP_CACHE_URL_ACTION_CACHE_UPSTREAM OR HTTP_CACHE_URL_CON_CLOSE)
       (HTTP_CACHE_KEY_HOST OR HTTP_CACHE_KEY_FILE)
       [] [] ''/adv'' [] [] None None]"

definition http_m_aty_sohu_com_rule :: "http_cache_url list" where
  "http_m_aty_sohu_com_rule =
    [rule (HTTP_CACHE_URL_TAIL_XIEGAN OR HTTP_CACHE_URL_REDIRECT_PARA OR HTTP_CACHE_URL_ACTION_CACHE_UPSTREAM OR HTTP_CACHE_URL_CON_CLOSE)
       (HTTP_CACHE_KEY_HOST OR HTTP_CACHE_KEY_FILE)
       [] [] ''/m'' [] [] None None]"

definition http_wscctcdn_inter_qiyi_com_rule :: "http_cache_url list" where
  "http_wscctcdn_inter_qiyi_com_rule =
    [rule (HTTP_CACHE_URL_HEAD_XIEGAN OR HTTP_CACHE_URL_REDIRECT_PARA OR HTTP_CACHE_URL_ACTION_CACHE_SP OR HTTP_CACHE_URL_ACTION_CACHE_UPSTREAM OR HTTP_CACHE_URL_CON_CLOSE)
       (HTTP_CACHE_KEY_FILE)
       ''/videos'' [] [] ''.f4v'' [] None None,
     rule (HTTP_CACHE_URL_HEAD_XIEGAN OR HTTP_CACHE_URL_REDIRECT_PARA OR HTTP_CACHE_URL_ACTION_CACHE_SP OR HTTP_CACHE_URL_ACTION_CACHE_UPSTREAM OR HTTP_CACHE_URL_CON_CLOSE)
       (HTTP_CACHE_KEY_FILE)
       ''/videos'' [] [] ''.ts'' [] None None]"

definition http_cache_m_iqiyi_com_rule :: "http_cache_url list" where
  "http_cache_m_iqiyi_com_rule =
    [rule (HTTP_CACHE_URL_HEAD_XIEGAN OR HTTP_CACHE_URL_POST_FILE OR HTTP_CACHE_URL_ACTION_CACHE_SP OR HTTP_CACHE_URL_ACTION_UPPARSE OR HTTP_CACHE_URL_CON_CLOSE)
       (HTTP_CACHE_KEY_HOST OR HTTP_CACHE_KEY_FILE)
       ''/dc'' [] [] ''.m3u8'' [] None None]"

definition http_cache_vv_video_qq_com_rule :: "http_cache_url list" where
  "http_cache_vv_video_qq_com_rule =
    [rule (HTTP_CACHE_URL_TAIL_XIEGAN OR HTTP_CACHE_URL_POST_FILE OR HTTP_CACHE_URL_ACTION_CACHE_SP OR HTTP_CACHE_URL_ACTION_UPPARSE OR HTTP_CACHE_URL_CON_CLOSE)
       (HTTP_CACHE_KEY_HOST OR HTTP_CACHE_KEY_FILE OR HTTP_CACHE_KEY_PARA)
       [] [] ''/getinfo'' [] [] None (Some QqComPara)]"

definition http_cache_ark_letv_com_rule :: "http_cache_url list" where
  "http_cache_ark_letv_com_rule =
    [rule (HTTP_CACHE_URL_TAIL_XIEGAN OR HTTP_CACHE_URL_REDIRECT_PARA OR HTTP_CACHE_URL_ACTION_CACHE_UPSTREAM OR HTTP_CACHE_URL_CON_CLOSE)
       (HTTP_CACHE_KEY_HOST OR HTTP_CACHE_KEY_FILE OR HTTP_CACHE_KEY_PARA)
       [] [] ''/s'' [] [] None (Some ArkLetvComPara)]"

definition http_cache_host_url :: "http_cache_host_url_t list" where
  "http_cache_host_url =
    [host_rule 0 ''v.youku.com'' http_youku_vidoe_html_url_str,
     host_rule 0 ''pl.youku.com'' http_pl_youku_flvpath_url_str,
     host_rule 0 ''my.tv.sohu.com'' http_sohu_flvpath_url_str,
     host_rule 0 ''hot.vrs.sohu.com'' http_sohu_flvpath_url_str,
     host_rule 0 ''play.api.3g.youku.com'' http_youku_andriod_flvpath_url_str,
     host_rule HTTP_CACHE_HOST_FORBIDEN ''Fvid.atm.youku.com'' [http_forbiden_rule],
     host_rule HTTP_CACHE_HOST_FORBIDEN ''atm.youku.com'' [http_forbiden_rule],
     host_rule HTTP_CACHE_HOST_FORBIDEN ''html.atm.youku.com'' [http_forbiden_rule],
     host_rule HTTP_CACHE_HOST_FORBIDEN ''valb.atm.youku.com'' [http_forbiden_rule],
     host_rule 0 ''valf.atm.youku.com'' http_valf_atm_youku_com_rule,
     host_rule HTTP_CACHE_HOST_FORBIDEN ''valo.atm.youku.com'' [http_forbiden_rule],
     host_rule HTTP_CACHE_HOST_FORBIDEN ''valp.atm.youku.com'' [http_forbiden_rule],
     host_rule HTTP_CACHE_HOST_FORBIDEN ''lstat.youku.com'' [http_forbiden_rule],
     host_rule HTTP_CACHE_HOST_FORBIDEN ''speed.lstat.youku.com'' [http_forbiden_rule],
     host_rule HTTP_CACHE_HOST_FORBIDEN ''urchin.lstat.youku.com'' [http_forbiden_rule],
     host_rule HTTP_CACHE_HOST_FORBIDEN ''stat.youku.com'' [http_forbiden_rule],
     host_rule HTTP_CACHE_HOST_FORBIDEN ''static.lstat.youku.com'' [http_forbiden_rule],
     host_rule HTTP_CACHE_HOST_FORBIDEN ''valc.atm.youku.com'' [http_forbiden_rule],
     host_rule HTTP_CACHE_HOST_FORBIDEN ''vid.atm.youku.com'' [http_forbiden_rule],
     host_rule HTTP_CACHE_HOST_FORBIDEN ''walp.atm.youku.com'' [http_forbiden_rule],
     host_rule 0 ''ad.api.3g.youku.com'' http_valf_atm_youku_com_rule,
     host_rule 0 ''m.aty.sohu.com'' http_m_aty_sohu_com_rule,
     host_rule 0 ''wscctcdn.inter.qiyi.com'' http_wscctcdn_inter_qiyi_com_rule,
     host_rule 0 ''data.video.iqiyi.com'' http_wscctcdn_inter_qiyi_com_rule,
     host_rule 0 ''cache.m.iqiyi.com'' http_cache_m_iqiyi_com_rule,
     host_rule 0 ''vv.video.qq.com'' http_cache_vv_video_qq_com_rule,
     host_rule 0 ''ark.letv.com'' http_cache_ark_letv_com_rule]"

lemmas rule_table_defs = http_cache_file_def http_youku_vidoe_html_url_str_def http_forbiden_rule_def http_pl_youku_flvpath_url_str_def http_sohu_flvpath_url_str_def http_youku_andriod_flvpath_url_str_def http_valf_atm_youku_com_rule_def http_m_aty_sohu_com_rule_def http_wscctcdn_inter_qiyi_com_rule_def http_cache_m_iqiyi_com_rule_def http_cache_vv_video_qq_com_rule_def http_cache_ark_letv_com_rule_def http_cache_host_url_def

definition http_cache_default_host_url :: http_cache_host_url_t where
  "http_cache_default_host_url = host_rule 0 [] http_cache_file"

section \<open>Choosing a rule\<close>

definition http_host_cmp :: "http_cache_host_url_t \<Rightarrow> cstr \<Rightarrow> int" where
  "http_host_cmp node key = c_strcmp (host node) key"

text \<open>The positions the scan of the resource part keeps: the first, the second and the last slash
  (\<open>xiegan\<close>), the last dot, and the question mark.\<close>

record url_segs =
  seg_j :: nat
  seg_head :: nat
  seg_mid :: nat
  seg_tail :: nat
  seg_post :: nat
  seg_para :: nat
  seg_para_len :: nat

fun scan_segs :: "nat \<Rightarrow> nat \<Rightarrow> cstr \<Rightarrow> url_segs \<Rightarrow> url_segs" where
  "scan_segs len i [] s = s"
| "scan_segs len i (c # cs) s =
     (if c = CHR ''/'' then
        scan_segs len (Suc i) cs
          (if seg_j s = 0 then s\<lparr>seg_head := i, seg_mid := i, seg_tail := i, seg_j := 1\<rparr>
           else if seg_j s = 1 then s\<lparr>seg_mid := i, seg_tail := i, seg_j := 2\<rparr>
           else s\<lparr>seg_tail := i\<rparr>)
      else if c = CHR ''.'' then scan_segs len (Suc i) cs (s\<lparr>seg_post := i\<rparr>)
      else if c = CHR ''?'' then s\<lparr>seg_para := i, seg_para_len := len - i\<rparr>
      else scan_segs len (Suc i) cs s)"

definition init_segs :: "nat \<Rightarrow> nat \<Rightarrow> url_segs" where
  "init_segs len post =
     \<lparr>seg_j = 0, seg_head = 0, seg_mid = 0, seg_tail = 0, seg_post = post,
      seg_para = len, seg_para_len = 0\<rparr>"

text \<open>One guarded comparison of a rule's string with the part of the URL at \<open>off\<close>.\<close>

definition seg_ok :: "u32 \<Rightarrow> u32 \<Rightarrow> cstr \<Rightarrow> cstr \<Rightarrow> nat \<Rightarrow> u32 \<Rightarrow> bool" where
  "seg_ok flg F pat url off len \<longleftrightarrow>
     (flg AND F \<noteq> 0 \<longrightarrow>
        of_nat (length pat) = len \<and> c_strncmp (length pat) pat (drop off url) = 0)"

definition rule_matches :: "cstr \<Rightarrow> url_segs \<Rightarrow> http_cache_url \<Rightarrow> bool" where
  "rule_matches url s u \<longleftrightarrow>
     seg_ok (cache_flg u) HTTP_CACHE_URL_HEAD_XIEGAN (head_xiegan u) url (seg_head s)
       (of_nat (seg_mid s) - of_nat (seg_head s))
   \<and> seg_ok (cache_flg u) HTTP_CACHE_URL_MID_XIEGAN (mid_xiegan u) url (seg_mid s)
       (of_nat (seg_tail s) - of_nat (seg_mid s))
   \<and> seg_ok (cache_flg u) HTTP_CACHE_URL_TAIL_XIEGAN (tail_xiegan u) url (seg_tail s)
       (of_nat (seg_para s) - of_nat (seg_tail s))
   \<and> seg_ok (cache_flg u) HTTP_CACHE_URL_POST_FILE (post_file u) url (seg_post s)
       (of_nat (seg_para s) - of_nat (seg_post s))
   \<and> seg_ok (cache_flg u) HTTP_CACHE_URL_PARA (para u) url (seg_para s)
       (of_nat (seg_para_len s))"

definition ngx_http_url_rule_get ::
  "http_cache_host_url_t avl_node \<Rightarrow> cstr \<Rightarrow> http_cache_url option" where
  "ngx_http_url_rule_get tree url =
     (case str_index (CHR ''/'') url of
        None \<Rightarrow> None
      | Some i \<Rightarrow>
          let hst = take i url; res_url = drop i url in
          if res_url = [] \<or> hst = [] then None
          else let found = avlSearch http_host_cmp tree hst;
                   segs = scan_segs (length res_url) 0 res_url (init_segs (length res_url) 0)
            in (case found of
                  Some ch \<Rightarrow>
                    if host_flg ch AND HTTP_CACHE_HOST_FORBIDEN \<noteq> 0 then Some http_forbiden_rule
                    else List.find (rule_matches res_url segs) (url_cache ch)
                | None \<Rightarrow>
                    List.find (rule_matches res_url segs) (url_cache http_cache_default_host_url)))"

text \<open>The older routine scans the table, never forbids, and starts the post-fix at the last byte of
  the URL instead of its first. For an empty URL that would be the byte in front of it, a pointer that is
  not defined: the outer \<open>None\<close>.\<close>

definition ngx_http_url_file_cache :: "cstr \<Rightarrow> cstr \<Rightarrow> http_cache_url option option" where
  "ngx_http_url_file_cache hst url =
     (let cache_host =
            (case List.find (\<lambda>e. length (host e) = length hst
                                 \<and> c_strncmp (length (host e)) (host e) hst = 0) http_cache_host_url
             of Some e \<Rightarrow> e | None \<Rightarrow> http_cache_default_host_url);
          segs = scan_segs (length url) 0 url (init_segs (length url) (length url - 1))
      in if url = [] then None else Some (List.find (rule_matches url segs) (url_cache cache_host)))"

text \<open>The loop of \<open>ngx_http_snooping_init\<close> that fills the host tree; the status of \<open>avlInsert\<close> is
  ignored.\<close>

fun insert_hosts ::
  "http_cache_host_url_t avl_node \<Rightarrow> http_cache_host_url_t list \<Rightarrow> http_cache_host_url_t avl_node option" where
  "insert_hosts tree [] = Some tree"
| "insert_hosts tree (h # hs) =
     (case avlInsert http_host_cmp tree h (host h) of
        None \<Rightarrow> None
      | Some (_, tree') \<Rightarrow> insert_hosts tree' hs)"

section \<open>The host tree\<close>

interpretation hosts: avl_order "\<lambda>a b. b < a" "\<lambda>e. c_str (host e)" c_str http_host_cmp
  by unfold_locales (auto simp: http_host_cmp_def c_strcmp_zero_iff c_strcmp_neg_iff)

lemma insert_hosts_ok:
  assumes "hosts.wf_tree t" "length (inorder t) + length hs < fib 45 - 1"
  shows "\<exists>t'. insert_hosts t hs = Some t' \<and> hosts.wf_tree t'
           \<and> tree_map (\<lambda>e. c_str (host e)) t' =
               map_of (map (\<lambda>e. (c_str (host e), e)) hs) ++ tree_map (\<lambda>e. c_str (host e)) t"
  using assms
proof (induction hs arbitrary: t)
  case (Cons e hs)
  let ?m = "tree_map (\<lambda>e. c_str (host e))"
  have "ht t \<le> AVL_MAX_HEIGHT"
    using Cons.prems avl_ht_room [of t] by (simp add: avl_wf_def)
  note ins = hosts.avlInsert_refines [OF Cons.prems(1) this, of "host e" e]
  show ?case
  proof (cases "?m t (c_str (host e))")
    case None
    with ins obtain t1 where t1: "avlInsert http_host_cmp t e (host e) = Some (OK, t1)"
      "hosts.wf_tree t1" "?m t1 = (?m t)(c_str (host e) \<mapsto> e)"
      "length (inorder t1) = Suc (length (inorder t))" by auto
    from Cons.IH [OF t1(2)] t1(4) Cons.prems(2) obtain t' where
      t': "insert_hosts t1 hs = Some t'" "hosts.wf_tree t'"
        "?m t' = map_of (map (\<lambda>e. (c_str (host e), e)) hs) ++ ?m t1" by auto
    have eq: "?m t' = map_of (map (\<lambda>e. (c_str (host e), e)) (e # hs)) ++ ?m t"
      using t'(3) t1(3) None by (auto simp: fun_eq_iff map_add_def split: option.splits)
    have "insert_hosts t (e # hs) = Some t'" using t1(1) t'(1) by simp
    with t'(2) eq show ?thesis by blast
  next
    case (Some y)
    with ins have "insert_hosts t (e # hs) = insert_hosts t hs" by auto
    moreover from Cons.IH [OF Cons.prems(1)] Cons.prems(2) obtain t' where
      t': "insert_hosts t hs = Some t'" "hosts.wf_tree t'"
        "?m t' = map_of (map (\<lambda>e. (c_str (host e), e)) hs) ++ ?m t" by auto
    moreover have "?m t' = map_of (map (\<lambda>e. (c_str (host e), e)) (e # hs)) ++ ?m t"
      using t'(3) Some by (auto simp: fun_eq_iff map_add_def split: option.splits)
    ultimately show ?thesis by metis
  qed
qed simp

definition http_cache_host_tree :: "http_cache_host_url_t avl_node" where
  "http_cache_host_tree = the (insert_hosts NULL http_cache_host_url)"

lemma http_cache_host_tree_ok:
  "insert_hosts NULL http_cache_host_url = Some http_cache_host_tree
   \<and> hosts.wf_tree http_cache_host_tree
   \<and> tree_map (\<lambda>e. c_str (host e)) http_cache_host_tree =
       map_of (map (\<lambda>e. (c_str (host e), e)) http_cache_host_url)"
proof -
  have "length http_cache_host_url = 27" by (simp add: http_cache_host_url_def)
  then have "length (inorder (NULL :: http_cache_host_url_t avl_node)) + length http_cache_host_url < fib 45 - 1"
    by (simp add: fib_45)
  moreover have "hosts.wf_tree NULL" by (simp add: avl_wf_def)
  ultimately obtain t' where "insert_hosts NULL http_cache_host_url = Some t'" "hosts.wf_tree t'"
    "tree_map (\<lambda>e. c_str (host e)) t' = map_of (map (\<lambda>e. (c_str (host e), e)) http_cache_host_url)"
    using insert_hosts_ok [of NULL http_cache_host_url] by (auto simp: tree_map_def)
  then show ?thesis by (simp add: http_cache_host_tree_def)
qed

lemma host_table_nul_free: "e \<in> set http_cache_host_url \<Longrightarrow> NUL \<notin> set (host e)"
  by (auto simp: http_cache_host_url_def host_rule_def)

lemma avlSearch_host_scan:
  assumes "NUL \<notin> set hst"
  shows "avlSearch http_host_cmp http_cache_host_tree hst = List.find (\<lambda>e. host e = hst) http_cache_host_url"
proof -
  have "avlSearch http_host_cmp http_cache_host_tree hst =
          List.find (\<lambda>e. c_str (host e) = hst) http_cache_host_url"
    using hosts.avlSearch_map [of http_cache_host_tree hst] http_cache_host_tree_ok assms
    by (simp add: map_of_find)
  also have "\<dots> = List.find (\<lambda>e. host e = hst) http_cache_host_url"
    by (rule find_cong_set) (simp add: host_table_nul_free)
  finally show ?thesis .
qed

section \<open>The parts of a URL\<close>

definition segs_inv :: "cstr \<Rightarrow> nat \<Rightarrow> url_segs \<Rightarrow> bool" where
  "segs_inv u i s \<longleftrightarrow>
     0 < i \<and> seg_head s = 0 \<and> seg_mid s \<le> seg_tail s \<and> seg_tail s < i \<and> seg_post s < i
   \<and> u ! seg_tail s = CHR ''/'' \<and> (\<forall>k. seg_tail s < k \<and> k < i \<longrightarrow> u ! k \<noteq> CHR ''/'')
   \<and> u ! seg_mid s = CHR ''/'' \<and> (\<forall>k. 0 < k \<and> k < seg_mid s \<longrightarrow> u ! k \<noteq> CHR ''/'')
   \<and> (seg_j s = 1 \<and> seg_tail s = 0 \<or> seg_j s = 2 \<and> 0 < seg_mid s)
   \<and> (\<forall>k. seg_post s < k \<and> k < i \<longrightarrow> u ! k \<noteq> CHR ''.'')
   \<and> (seg_post s = 0 \<or> u ! seg_post s = CHR ''.'')"

lemma scan_segs_inv:
  assumes "segs_inv u i s" "u = pre @ cs" "length pre = i" "CHR ''?'' \<notin> set pre"
    "seg_para s = length u" "seg_para_len s = 0"
  shows "\<exists>p \<le> length u. segs_inv u p (scan_segs (length u) i cs s)
           \<and> p = seg_para (scan_segs (length u) i cs s)
           \<and> seg_para_len (scan_segs (length u) i cs s) = length u - p
           \<and> CHR ''?'' \<notin> set (take p u) \<and> (p < length u \<longrightarrow> u ! p = CHR ''?'')"
  using assms
proof (induction cs arbitrary: i s pre)
  case (Cons c cs)
  have nth: "u ! i = c" and len: "i < length u" using Cons.prems(2,3) by auto
  note IH = Cons.IH [of "Suc i" _ "pre @ [c]"]
  consider (slash) "c = CHR ''/''" | (dot) "c = CHR ''.''" | (quest) "c = CHR ''?''"
    | (other) "c \<noteq> CHR ''/''" "c \<noteq> CHR ''.''" "c \<noteq> CHR ''?''" by blast
  then show ?case
  proof cases
    case slash
    let ?s = "if seg_j s = 0 then s\<lparr>seg_head := i, seg_mid := i, seg_tail := i, seg_j := 1\<rparr>
           else if seg_j s = 1 then s\<lparr>seg_mid := i, seg_tail := i, seg_j := 2\<rparr>
           else s\<lparr>seg_tail := i\<rparr>"
    have "segs_inv u (Suc i) ?s"
      using Cons.prems(1) nth slash unfolding segs_inv_def by (auto simp: less_Suc_eq)
    with IH [of ?s] Cons.prems slash show ?thesis by simp
  next
    case dot
    have "segs_inv u (Suc i) (s\<lparr>seg_post := i\<rparr>)"
      using Cons.prems(1) nth dot unfolding segs_inv_def by (auto simp: less_Suc_eq)
    with IH [of "s\<lparr>seg_post := i\<rparr>"] Cons.prems dot show ?thesis by simp
  next
    case quest
    with Cons.prems nth len show ?thesis
      by (intro exI [of _ i]) (auto simp: segs_inv_def)
  next
    case other
    have "segs_inv u (Suc i) s"
      using Cons.prems(1) nth other unfolding segs_inv_def by (auto simp: less_Suc_eq)
    with IH [of s] Cons.prems other show ?thesis by simp
  qed
qed auto

lemma scan_segs_spec:
  assumes "u = CHR ''/'' # v" "s = scan_segs (length u) 0 u (init_segs (length u) 0)"
  shows "segs_inv u (seg_para s) s" and "seg_para s = length (takeWhile (\<lambda>c. c \<noteq> CHR ''?'') u)"
    and "seg_para_len s = length u - seg_para s" and "seg_para s \<le> length u"
proof -
  let ?s1 = "(init_segs (length u) 0)\<lparr>seg_head := 0, seg_mid := 0, seg_tail := 0, seg_j := 1\<rparr>"
  have s: "s = scan_segs (length u) 1 v ?s1" using assms by (simp add: init_segs_def)
  have "segs_inv u 1 ?s1" using assms(1) by (auto simp: segs_inv_def init_segs_def)
  from scan_segs_inv [OF this, of "[CHR ''/'']" v] assms(1) obtain p where
    p: "p \<le> length u" "segs_inv u p s" "p = seg_para s" "seg_para_len s = length u - p"
      "CHR ''?'' \<notin> set (take p u)" "p < length u \<longrightarrow> u ! p = CHR ''?''"
    unfolding s by (auto simp: init_segs_def)
  have "takeWhile (\<lambda>c. c \<noteq> CHR ''?'') u = take p u"
    using p(1,5,6) by (intro takeWhile_eq_take_P_nth) (auto simp: in_set_conv_nth)
  then have tk: "length (takeWhile (\<lambda>c. c \<noteq> CHR ''?'') u) = p" using p(1) by simp
  show "segs_inv u (seg_para s) s" "seg_para s = length (takeWhile (\<lambda>c. c \<noteq> CHR ''?'') u)"
    "seg_para_len s = length u - seg_para s" "seg_para s \<le> length u"
    using p tk by auto
qed

text \<open>The middle part starts at the second slash in front of the parameters.\<close>

lemma segs_mid_eq:
  assumes inv: "segs_inv u i s" and u: "u = CHR ''/'' # v" and p: "p = takeWhile (\<lambda>c. c \<noteq> CHR ''?'') v" "i = Suc (length p)"
  shows "seg_mid s = (if CHR ''/'' \<in> set p then Suc (length (takeWhile (\<lambda>c. c \<noteq> CHR ''/'') p)) else 0)"
proof -
  have nth: "u ! Suc k = p ! k" if "k < length p" for k
    using that takeWhile_nth [of k "\<lambda>c. c \<noteq> CHR ''?''" v] by (simp add: u p(1))
  show ?thesis
  proof (cases "seg_mid s")
    case 0
    then have "seg_tail s = 0" using inv by (auto simp: segs_inv_def)
    then have "p ! k \<noteq> CHR ''/''" if "k < length p" for k
      using inv nth [OF that] that p(2) by (auto simp: segs_inv_def)
    then show ?thesis using 0 by (auto simp: in_set_conv_nth)
  next
    case (Suc m)
    have m: "m < length p" "p ! m = CHR ''/''" "\<And>k. k < m \<Longrightarrow> p ! k \<noteq> CHR ''/''"
      using inv nth [of m] Suc p(2) nth by (auto simp: segs_inv_def)
    have "takeWhile (\<lambda>c. c \<noteq> CHR ''/'') p = take m p"
      using m by (intro takeWhile_eq_take_P_nth) auto
    then have "length (takeWhile (\<lambda>c. c \<noteq> CHR ''/'') p) = m" using m(1) by simp
    moreover have "CHR ''/'' \<in> set p" using m(1,2) nth_mem by metis
    ultimately show ?thesis using Suc by simp
  qed
qed

text \<open>With offsets in order, the guarded comparisons are equalities of the parts.\<close>

lemma seg_ok_iff:
  assumes "a \<le> b" "b \<le> length u" "length u < 2 ^ 32" "NUL \<notin> set pat" "length pat < 2 ^ 32"
  shows "seg_ok flg F pat u a (of_nat b - of_nat a) \<longleftrightarrow>
           (flg AND F \<noteq> 0 \<longrightarrow> pat = take (b - a) (drop a u))"
proof -
  have "(of_nat b - of_nat a :: u32) = of_nat (b - a)" using assms(1) by simp
  moreover have "unat (of_nat (b - a) :: u32) = b - a" "unat (of_nat (length pat) :: u32) = length pat"
    using assms by (simp_all add: unat_of_nat del: of_nat_diff)
  ultimately have len: "(of_nat (length pat) = (of_nat b - of_nat a :: u32)) \<longleftrightarrow> length pat = b - a"
    by metis
  show ?thesis
  proof (cases "length pat = b - a")
    case True
    have "c_strncmp (length pat) pat (drop a u) = c_strncmp (length pat) pat (take (length pat) (drop a u))"
      by (rule c_strncmp_take)
    also have "\<dots> = 0 \<longleftrightarrow> pat = take (length pat) (drop a u)"
      using True assms by (intro c_strncmp_eq_iff) auto
    finally show ?thesis using True len by (simp add: seg_ok_def)
  next
    case False
    then have "pat \<noteq> take (b - a) (drop a u)" using assms(1,2) by (metis length_take length_drop min_absorb2 diff_le_mono)
    with False len show ?thesis by (simp add: seg_ok_def)
  qed
qed

definition rule_nul_free :: "http_cache_url \<Rightarrow> bool" where
  "rule_nul_free u \<longleftrightarrow>
     (\<forall>p \<in> {head_xiegan u, mid_xiegan u, tail_xiegan u, post_file u, para u}.
        NUL \<notin> set p \<and> length p < 2 ^ 32)"

text \<open>What a rule asks of the resource part of a URL: each flagged component equals the rule's string.\<close>

definition rule_spec :: "cstr \<Rightarrow> url_segs \<Rightarrow> http_cache_url \<Rightarrow> bool" where
  "rule_spec u s r \<longleftrightarrow>
     (cache_flg r AND HTTP_CACHE_URL_HEAD_XIEGAN \<noteq> 0 \<longrightarrow> head_xiegan r = take (seg_mid s) u)
   \<and> (cache_flg r AND HTTP_CACHE_URL_MID_XIEGAN \<noteq> 0 \<longrightarrow>
        mid_xiegan r = take (seg_tail s - seg_mid s) (drop (seg_mid s) u))
   \<and> (cache_flg r AND HTTP_CACHE_URL_TAIL_XIEGAN \<noteq> 0 \<longrightarrow>
        tail_xiegan r = take (seg_para s - seg_tail s) (drop (seg_tail s) u))
   \<and> (cache_flg r AND HTTP_CACHE_URL_POST_FILE \<noteq> 0 \<longrightarrow>
        post_file r = take (seg_para s - seg_post s) (drop (seg_post s) u))
   \<and> (cache_flg r AND HTTP_CACHE_URL_PARA \<noteq> 0 \<longrightarrow> para r = drop (seg_para s) u)"

lemma rule_matches_spec:
  assumes "u = CHR ''/'' # v" "s = scan_segs (length u) 0 u (init_segs (length u) 0)"
    "length u < 2 ^ 32" "rule_nul_free r"
  shows "rule_matches u s r \<longleftrightarrow> rule_spec u s r"
proof -
  note sp = scan_segs_spec [OF assms(1,2)]
  have ord: "seg_head s = 0" "seg_mid s \<le> seg_tail s" "seg_tail s \<le> seg_para s" "seg_post s \<le> seg_para s"
    using sp(1) by (auto simp: segs_inv_def)
  have para: "(of_nat (seg_para_len s) :: u32) = of_nat (length u) - of_nat (seg_para s)"
    using sp(3,4) by simp
  have "seg_ok (cache_flg r) HTTP_CACHE_URL_HEAD_XIEGAN (head_xiegan r) u 0 (of_nat (seg_mid s)) \<longleftrightarrow>
      (cache_flg r AND HTTP_CACHE_URL_HEAD_XIEGAN \<noteq> 0 \<longrightarrow> head_xiegan r = take (seg_mid s) u)"
    using seg_ok_iff [of 0 "seg_mid s" u "head_xiegan r"] assms(3,4) ord sp(4)
    by (simp add: rule_nul_free_def)
  then show ?thesis
    unfolding rule_matches_def rule_spec_def para ord(1)
    using assms(3,4) ord sp(4) by (simp add: seg_ok_iff rule_nul_free_def)
qed

lemma rule_tables_nul_free:
  "r \<in> set http_cache_file \<Longrightarrow> rule_nul_free r"
  "e \<in> set http_cache_host_url \<Longrightarrow> r \<in> set (url_cache e) \<Longrightarrow> rule_nul_free r"
  by (auto simp: rule_table_defs host_rule_def rule_def rule_nul_free_def)

lemma ngx_http_url_rule_get_split:
  assumes "hst \<noteq> []" "CHR ''/'' \<notin> set hst" "NUL \<notin> set hst" "res = CHR ''/'' # v"
  shows "ngx_http_url_rule_get http_cache_host_tree (hst @ res) =
           (let s = scan_segs (length res) 0 res (init_segs (length res) 0) in
            case List.find (\<lambda>e. host e = hst) http_cache_host_url of
              Some e \<Rightarrow> if host_flg e AND HTTP_CACHE_HOST_FORBIDEN \<noteq> 0 then Some http_forbiden_rule
                        else List.find (rule_matches res s) (url_cache e)
            | None \<Rightarrow> List.find (rule_matches res s) http_cache_file)"
proof -
  have "str_index (CHR ''/'') (hst @ res) = Some (length hst)"
    using assms(2,4) by (simp add: str_index_Some_iff)
  moreover have "res \<noteq> []" using assms(4) by simp
  ultimately show ?thesis using assms(1,3)
    by (simp add: ngx_http_url_rule_get_def avlSearch_host_scan http_cache_default_host_url_def
        host_rule_def Let_def split: option.split)
qed

section \<open>Properties\<close>

text \<open>C28. Searching the host tree that initialisation builds gives the same entry as the linear scan of
  the host table that it replaced, for every host name without an embedded NUL.\<close>

theorem host_tree_is_table_scan:
  assumes "NUL \<notin> set hst"
  shows "\<exists>tree. insert_hosts NULL http_cache_host_url = Some tree
           \<and> avlSearch http_host_cmp tree hst =
               List.find (\<lambda>e. length (host e) = length hst
                             \<and> c_strncmp (length (host e)) (host e) hst = 0) http_cache_host_url"
proof -
  have "List.find (\<lambda>e. length (host e) = length hst \<and> c_strncmp (length (host e)) (host e) hst = 0)
          http_cache_host_url = List.find (\<lambda>e. host e = hst) http_cache_host_url"
    by (rule find_cong_set) (use host_table_nul_free c_strncmp_eq_iff in auto)
  with http_cache_host_tree_ok avlSearch_host_scan [OF assms] show ?thesis by auto
qed

lemma host_tree_is_table_scan_witness:
  "\<exists>tree. insert_hosts NULL http_cache_host_url = Some tree
     \<and> map_option host (avlSearch http_host_cmp tree ''v.youku.com'') = Some ''v.youku.com''"
proof -
  have "NUL \<notin> set ''v.youku.com''" by simp
  from host_tree_is_table_scan [OF this] show ?thesis
    by (auto simp: http_cache_host_url_def host_rule_def)
qed

lemma ngx_http_url_rule_get_eq_spec:
  assumes "hst \<noteq> []" "CHR ''/'' \<notin> set hst" "NUL \<notin> set hst" "length path + 1 < 2 ^ 32"
  shows "ngx_http_url_rule_get http_cache_host_tree (hst @ CHR ''/'' # path) =
           (let res = CHR ''/'' # path;
                s = scan_segs (length res) 0 res (init_segs (length res) 0) in
            case List.find (\<lambda>e. host e = hst) http_cache_host_url of
              Some e \<Rightarrow> if host_flg e AND HTTP_CACHE_HOST_FORBIDEN \<noteq> 0 then Some http_forbiden_rule
                        else List.find (rule_spec res s) (url_cache e)
            | None \<Rightarrow> List.find (rule_spec res s) http_cache_file)"
proof -
  define res where "res = CHR ''/'' # path"
  define s where "s = scan_segs (length res) 0 res (init_segs (length res) 0)"
  have eq: "rule_nul_free r \<Longrightarrow> rule_matches res s r = rule_spec res s r" for r
    using rule_matches_spec [OF res_def s_def] assms(4) by (simp add: res_def)
  have d: "List.find (rule_matches res s) http_cache_file = List.find (rule_spec res s) http_cache_file"
    by (rule find_cong_set) (simp only: eq rule_tables_nul_free)
  have h: "e \<in> set http_cache_host_url \<Longrightarrow>
      List.find (rule_matches res s) (url_cache e) = List.find (rule_spec res s) (url_cache e)" for e
    by (rule find_cong_set) (simp only: eq rule_tables_nul_free)
  have "List.find (\<lambda>e. host e = hst) http_cache_host_url = Some e \<Longrightarrow> e \<in> set http_cache_host_url" for e
    by (auto simp: find_Some_iff)
  then show ?thesis
    using ngx_http_url_rule_get_split [OF assms(1-3) res_def] d h
    by (simp add: Let_def s_def [symmetric] res_def [symmetric] split: option.split)
qed

text \<open>C27. The rule chosen for \<open>host/path\<close> is the first rule of the host's list (of the default list for
  a host without one) whose flagged parts equal the parts of the URL; a host marked forbidden gets
  the forbidding rule whatever the path.\<close>

theorem ngx_http_url_rule_get_first_match:
  assumes "hst \<noteq> []" "CHR ''/'' \<notin> set hst" "NUL \<notin> set hst" "length path + 1 < 2 ^ 32"
  shows "ngx_http_url_rule_get http_cache_host_tree (hst @ CHR ''/'' # path) =
           (let res = CHR ''/'' # path;
                s = scan_segs (length res) 0 res (init_segs (length res) 0) in
            case List.find (\<lambda>e. host e = hst) http_cache_host_url of
              Some e \<Rightarrow> if host_flg e AND HTTP_CACHE_HOST_FORBIDEN \<noteq> 0 then Some http_forbiden_rule
                        else List.find (rule_spec res s) (url_cache e)
            | None \<Rightarrow> List.find (rule_spec res s) http_cache_file)"
  using assms by (rule ngx_http_url_rule_get_eq_spec)

lemma ngx_http_url_rule_get_first_match_witness:
  "ngx_http_url_rule_get http_cache_host_tree (''atm.youku.com'' @ CHR ''/'' # ''x?y'') =
     Some http_forbiden_rule"
proof -
  have h: "''atm.youku.com'' \<noteq> ''''" "CHR ''/'' \<notin> set ''atm.youku.com''" "NUL \<notin> set ''atm.youku.com''"
    "length ''x?y'' + 1 < 2 ^ 32" by simp_all
  have "List.find (\<lambda>e. host e = ''atm.youku.com'') http_cache_host_url =
      Some (host_rule HTTP_CACHE_HOST_FORBIDEN ''atm.youku.com'' [http_forbiden_rule])"
    by (simp add: http_cache_host_url_def host_rule_def)
  then show ?thesis
    unfolding ngx_http_url_rule_get_first_match [OF h]
    by (simp add: host_rule_def HTTP_CACHE_HOST_FORBIDEN_def Let_def)
qed

text \<open>The scan cuts the resource \<open>/path\<close> into the parts that the rules speak of. The parameters start at the
  first question mark. The head is what lies between the first slash and the second one in front of
  the parameters, the tail starts at the last slash, the middle is what lies between them; with one slash
  only, head and middle are empty. The post-fix starts at the last dot in front of the parameters, or at the
  beginning if there is none. Head, middle, tail and parameters together are the whole resource.\<close>

theorem scan_segs_partition:
  assumes "s = scan_segs (length res) 0 res (init_segs (length res) 0)" "res = CHR ''/'' # path"
    and "p = takeWhile (\<lambda>c. c \<noteq> CHR ''?'') path"
  shows "res = take (seg_mid s) res @ take (seg_tail s - seg_mid s) (drop (seg_mid s) res)
                @ take (seg_para s - seg_tail s) (drop (seg_tail s) res) @ drop (seg_para s) res
         \<and> seg_para s = Suc (length p) \<and> seg_para_len s = length res - seg_para s
         \<and> seg_head s = 0
         \<and> seg_mid s = (if CHR ''/'' \<in> set p then Suc (length (takeWhile (\<lambda>c. c \<noteq> CHR ''/'') p)) else 0)
         \<and> res ! seg_tail s = CHR ''/'' \<and> (\<forall>k. seg_tail s < k \<and> k < seg_para s \<longrightarrow> res ! k \<noteq> CHR ''/'')
         \<and> (seg_post s = 0 \<or> res ! seg_post s = CHR ''.'')
         \<and> (\<forall>k. seg_post s < k \<and> k < seg_para s \<longrightarrow> res ! k \<noteq> CHR ''.'')"
proof -
  note sp = scan_segs_spec [OF assms(2,1)]
  have ord: "seg_mid s \<le> seg_tail s" "seg_tail s \<le> seg_para s"
    using sp(1) by (auto simp: segs_inv_def)
  have split: "drop a xs = take (b - a) (drop a xs) @ drop b xs" if "a \<le> b" for a b :: nat and xs :: cstr
    using that append_take_drop_id [of "b - a" "drop a xs"] by simp
  have parts: "res = take (seg_mid s) res @ take (seg_tail s - seg_mid s) (drop (seg_mid s) res)
                @ take (seg_para s - seg_tail s) (drop (seg_tail s) res) @ drop (seg_para s) res"
    using split [OF ord(1), of res] split [OF ord(2), of res] by (metis append_take_drop_id)
  have para: "seg_para s = Suc (length p)" using sp(2) assms(2,3) by simp
  have mid: "seg_mid s = (if CHR ''/'' \<in> set p then Suc (length (takeWhile (\<lambda>c. c \<noteq> CHR ''/'') p)) else 0)"
    by (rule segs_mid_eq [OF sp(1) assms(2,3)]) (use para in simp)
  show ?thesis using sp(1,3) parts para mid unfolding segs_inv_def by blast
qed

lemma scan_segs_partition_witness:
  "seg_mid (scan_segs (length ''/a/b/c?d'') 0 ''/a/b/c?d'' (init_segs (length ''/a/b/c?d'') 0)) = 2"
  using scan_segs_partition [OF refl refl refl, of "''a/b/c?d''"] by simp

text \<open>C31. The rule for \<open>vv.video.qq.com\<close> can never be chosen: it asks for an empty post-fix, but the
  post-fix part of a URL always holds at least one byte.\<close>

theorem qq_rule_unreachable:
  assumes "length path + 1 < 2 ^ 32"
  shows "ngx_http_url_rule_get http_cache_host_tree (''vv.video.qq.com'' @ CHR ''/'' # path) = None"
proof -
  define res where "res = CHR ''/'' # path"
  define s where "s = scan_segs (length res) 0 res (init_segs (length res) 0)"
  have h: "''vv.video.qq.com'' \<noteq> ''''" "CHR ''/'' \<notin> set ''vv.video.qq.com''"
    "NUL \<notin> set ''vv.video.qq.com''" by simp_all
  have e: "List.find (\<lambda>e. host e = ''vv.video.qq.com'') http_cache_host_url =
      Some (host_rule 0 ''vv.video.qq.com'' http_cache_vv_video_qq_com_rule)"
    by (simp add: http_cache_host_url_def host_rule_def)
  note sp = scan_segs_spec [OF res_def s_def]
  then have "take (seg_para s - seg_post s) (drop (seg_post s) res) \<noteq> []"
    unfolding segs_inv_def by simp
  then have "List.find (rule_spec res s) http_cache_vv_video_qq_com_rule = None"
    by (simp add: http_cache_vv_video_qq_com_rule_def rule_spec_def rule_def flag_defs)
  then show ?thesis
    using ngx_http_url_rule_get_eq_spec [OF h assms] e unfolding res_def [symmetric]
    by (simp add: Let_def s_def host_rule_def)
qed

lemma qq_rule_unreachable_witness:
  "ngx_http_url_rule_get http_cache_host_tree (''vv.video.qq.com'' @ CHR ''/'' # ''getinfo?vid=1'') = None"
  by (rule qq_rule_unreachable) simp

end
