(* ===== verification/SnoopKeys.thy ===== *)
theory SnoopKeys
  imports SnoopRules
begin

text \<open>
  The cache keys and the local file names of \<^verbatim>\<open>http-snooping.c\<close>: the parsers that cut a parameter or
  a file name down to the part that identifies the resource, \<open>ngx_http_snooping_url2local_key\<close>, which
  rewrites a URL into its key inside its own buffer, and \<open>ngx_http_snooping_url2local_file\<close>. An
  \<open>ngx_str_t\<close> inside a buffer is an offset and a length; every read and write is checked, so the
  value \<^const>\<open>None\<close> is an access outside the buffer or an undefined shift. \<open>ngx_memcpy\<close> is \<open>memcpy\<close>
  (\<^verbatim>\<open>ngx_string.h:102\<close>): between regions that overlap it is not defined, and what it leaves in the destination is
  not specified here either.
\<close>

definition HTTP_SP_URL_LEN_MAX :: nat where
  "HTTP_SP_URL_LEN_MAX = 600"

definition HTTP_SP_LFILE_LEN_MAX :: nat where
  "HTTP_SP_LFILE_LEN_MAX = 256"

section \<open>Parameter and file parsers\<close>

text \<open>The chain of comparisons at one position, and the loop that looks for the first match.\<close>

fun match_at :: "cstr \<Rightarrow> buf \<Rightarrow> nat \<Rightarrow> bool option" where
  "match_at [] b pos = Some True"
| "match_at (c # cs) b pos =
     do { x \<leftarrow> rd b pos; if x = c then match_at cs b (Suc pos) else Some False }"

fun find_pat :: "cstr \<Rightarrow> buf \<Rightarrow> nat \<Rightarrow> nat \<Rightarrow> nat option option" where
  "find_pat pat b pos 0 = Some None"
| "find_pat pat b pos (Suc n) =
     do { m \<leftarrow> match_at pat b pos; if m then Some (Some pos) else find_pat pat b (Suc pos) n }"

text \<open>The loop that stops at the \<open>k\<close>-th ampersand; \<open>j\<close> counts those seen.\<close>

fun amp_scan :: "nat \<Rightarrow> nat \<Rightarrow> buf \<Rightarrow> nat \<Rightarrow> nat \<Rightarrow> nat \<Rightarrow> nat option" where
  "amp_scan k j b pos 0 i = Some i"
| "amp_scan k j b pos (Suc n) i =
     do {
       c \<leftarrow> rd b pos;
       let j' = (if c = CHR ''&'' then Suc j else j);
       if j' = k then Some i else amp_scan k j' b (Suc pos) n (Suc i)
     }"

definition para_key :: "cstr \<Rightarrow> nat \<Rightarrow> buf \<Rightarrow> nat \<Rightarrow> nat \<Rightarrow> (buf \<times> nat \<times> nat) option" where
  "para_key pat k b off len =
     do {
       r \<leftarrow> find_pat pat b off len;
       case r of
         None \<Rightarrow> Some (b, off, 0)
       | Some p \<Rightarrow>
           if p = 0 then None
           else do {
             b' \<leftarrow> wr b (p - 1) (CHR ''_'');
             n \<leftarrow> amp_scan k 0 b' (p - 1) (len - (p - off) + 1) 0;
             Some (b', p - 1, n)
           }
     }"

definition ngx_http_ark_letv_com_para_key :: "buf \<Rightarrow> nat \<Rightarrow> nat \<Rightarrow> (buf \<times> nat \<times> nat) option" where
  "ngx_http_ark_letv_com_para_key = para_key ''ark='' 1"

definition ngx_http_qq_com_para_key :: "buf \<Rightarrow> nat \<Rightarrow> nat \<Rightarrow> (buf \<times> nat \<times> nat) option" where
  "ngx_http_qq_com_para_key = para_key ''vid='' 1"

definition ngx_http_youku_andriod_para_key :: "buf \<Rightarrow> nat \<Rightarrow> nat \<Rightarrow> (buf \<times> nat \<times> nat) option" where
  "ngx_http_youku_andriod_para_key = para_key ''id='' 1"

definition ngx_http_pl_youku_para_key :: "buf \<Rightarrow> nat \<Rightarrow> nat \<Rightarrow> (buf \<times> nat \<times> nat) option" where
  "ngx_http_pl_youku_para_key = para_key ''vid='' 2"

fun m3u8_scan :: "buf \<Rightarrow> nat \<Rightarrow> nat \<Rightarrow> nat \<Rightarrow> nat \<Rightarrow> nat \<Rightarrow> (buf \<times> nat) option" where
  "m3u8_scan b off i 0 j k = Some (b, k)"
| "m3u8_scan b off i (Suc n) j k =
     do {
       c \<leftarrow> rd b (off + i);
       let j' = (if c = CHR ''_'' then Suc j else j);
       if j' \<noteq> 1
       then do { b' \<leftarrow> wr b (off + k) c; m3u8_scan b' off (Suc i) n j' (Suc k) }
       else m3u8_scan b off (Suc i) n j' k
     }"

definition ngx_http_sohu_m3u8_file_key :: "buf \<Rightarrow> nat \<Rightarrow> nat \<Rightarrow> (buf \<times> nat \<times> nat) option" where
  "ngx_http_sohu_m3u8_file_key b off len =
     do { (b', k) \<leftarrow> m3u8_scan b off 0 len 0 0; Some (b', off, k) }"

fun sohu_scan :: "nat \<Rightarrow> buf \<Rightarrow> nat \<Rightarrow> nat \<Rightarrow> nat \<Rightarrow> (buf \<times> nat) option" where
  "sohu_scan j b pos 0 i = Some (b, i)"
| "sohu_scan j b pos (Suc n) i =
     do {
       c \<leftarrow> rd b pos;
       let j' = (if c = CHR ''&'' then Suc j else j);
       b' \<leftarrow> (if c = CHR ''/'' then wr b pos (CHR ''_'') else Some b);
       if j' = 1 then Some (b', i) else sohu_scan j' b' (Suc pos) n (Suc i)
     }"

definition ngx_http_sohu_para_key :: "buf \<Rightarrow> nat \<Rightarrow> nat \<Rightarrow> (buf \<times> nat \<times> nat) option" where
  "ngx_http_sohu_para_key b off len =
     do {
       r \<leftarrow> find_pat ''file'' b off len;
       case r of
         None \<Rightarrow> Some (b, off, 0)
       | Some p \<Rightarrow>
           if p = 0 then None
           else do {
             b1 \<leftarrow> wr b (p - 1) (CHR ''_'');
             (b2, n) \<leftarrow> sohu_scan 0 b1 (p - 1) (len - (p - off) + 1) 0;
             b3 \<leftarrow> wr b2 (p - 1 + n) NUL;
             Some (b3, p - 1, n)
           }
     }"

fun key_fn_call :: "key_fn \<Rightarrow> buf \<Rightarrow> nat \<Rightarrow> nat \<Rightarrow> (buf \<times> nat \<times> nat) option" where
  "key_fn_call SohuPara = ngx_http_sohu_para_key"
| "key_fn_call SohuM3u8File = ngx_http_sohu_m3u8_file_key"
| "key_fn_call PlYoukuPara = ngx_http_pl_youku_para_key"
| "key_fn_call YoukuAndriodPara = ngx_http_youku_andriod_para_key"
| "key_fn_call QqComPara = ngx_http_qq_com_para_key"
| "key_fn_call ArkLetvComPara = ngx_http_ark_letv_com_para_key"

definition key_fn_opt :: "key_fn option \<Rightarrow> buf \<Rightarrow> nat \<Rightarrow> nat \<Rightarrow> (buf \<times> nat \<times> nat) option" where
  "key_fn_opt f b off len = (case f of None \<Rightarrow> Some (b, off, len) | Some g \<Rightarrow> key_fn_call g b off len)"

section \<open>From a URL to its key\<close>

text \<open>\<open>key_flg & (1 << xiegan_num)\<close>: the shift of an \<open>int\<close> is defined for counts 0 to 30 only.\<close>

definition key_bit :: "u32 \<Rightarrow> int \<Rightarrow> bool option" where
  "key_bit kf n = (if 0 \<le> n \<and> n < 31 then Some (kf AND push_bit (nat n) 1 \<noteq> 0) else None)"

text \<open>\<open>ngx_memcpy(&b[dst], &b[src], n)\<close> inside one buffer. Regions that do not overlap are copied. For regions that
  overlap \<open>memcpy\<close> promises nothing: \<open>memcpy_overlap\<close> stands for the bytes it leaves in the destination, of which
  nothing is known but that the same call on the same buffer leaves the same ones. A region outside the
  buffer is an error in both cases.\<close>

definition memcpy_overlap :: "buf \<Rightarrow> nat \<Rightarrow> nat \<Rightarrow> nat \<Rightarrow> nat \<Rightarrow> char" where
  "memcpy_overlap = undefined"

definition memcpy_in :: "buf \<Rightarrow> nat \<Rightarrow> nat \<Rightarrow> nat \<Rightarrow> buf option" where
  "memcpy_in b dst src n =
     (if n = 0 then Some b
      else do {
        s \<leftarrow> mem_read b src n;
        mem_write b dst (if dst + n \<le> src \<or> src + n \<le> dst then s else map (memcpy_overlap b dst src n) [0..<n])
      })"

text \<open>The scan of the URL: the result is the buffer with the kept bytes moved to its front, the position
  of the last slash, the number of kept bytes and the position of the question mark.\<close>

fun key_scan ::
  "u32 \<Rightarrow> buf \<Rightarrow> nat \<Rightarrow> nat \<Rightarrow> int \<Rightarrow> nat \<Rightarrow> nat \<Rightarrow> (buf \<times> nat \<times> nat \<times> nat option) option" where
  "key_scan kf b i 0 xiegan_num last_xiegan j = Some (b, last_xiegan, j, None)"
| "key_scan kf b i (Suc n) xiegan_num last_xiegan j =
     do {
       c \<leftarrow> rd b i;
       let (xn, la) = (if c = CHR ''/'' then (xiegan_num + 1, i) else (xiegan_num, last_xiegan));
       if c = CHR ''?'' then Some (b, la, j, Some i)
       else do {
         keep \<leftarrow> key_bit kf xn;
         if keep
         then do { b' \<leftarrow> wr b j c; key_scan kf b' (Suc i) n xn la (Suc j) }
         else key_scan kf b (Suc i) n xn la j
       }
     }"

text \<open>One appended part: parsed by its function and copied behind the \<open>len\<close> bytes of the key.\<close>

definition key_append ::
  "key_fn option \<Rightarrow> buf \<Rightarrow> nat \<Rightarrow> nat \<Rightarrow> nat \<Rightarrow> (buf \<times> nat) option" where
  "key_append f b len off n =
     do {
       (b1, off1, n1) \<leftarrow> key_fn_opt f b off n;
       b2 \<leftarrow> memcpy_in b1 len off1 n1;
       Some (b2, len + n1)
     }"

definition ngx_http_snooping_url2local_key ::
  "buf \<Rightarrow> nat \<Rightarrow> http_cache_url \<Rightarrow> (buf \<times> nat) option" where
  "ngx_http_snooping_url2local_key b len cache_rule =
     do {
       (b1, last_xiegan, j, q) \<leftarrow> key_scan (key_flg cache_rule) b 0 len (-1) 0 0;
       let file_len = (case q of Some i \<Rightarrow> i - last_xiegan | None \<Rightarrow> 0);
       let file_len = (if file_len = 0 then len - last_xiegan else file_len);
       (b2, len2) \<leftarrow>
         (if file_len \<noteq> 0 \<and> HTTP_CACHE_KEY_FILE AND key_flg cache_rule \<noteq> 0
          then key_append (url_file_key_parse cache_rule) b1 j last_xiegan file_len
          else Some (b1, j));
       (b3, len3) \<leftarrow>
         (case q of
            Some i \<Rightarrow>
              if len - i \<noteq> 0 \<and> HTTP_CACHE_KEY_PARA AND key_flg cache_rule \<noteq> 0
              then key_append (url_para_key_parse cache_rule) b2 len2 i (len - i)
              else Some (b2, len2)
          | None \<Rightarrow> Some (b2, len2));
       b4 \<leftarrow> wr b3 len3 NUL;
       Some (b4, len3)
     }"

section \<open>From a URL to its local file name\<close>

fun lfile_host :: "buf \<Rightarrow> buf \<Rightarrow> nat \<Rightarrow> nat \<Rightarrow> nat \<Rightarrow> (buf \<times> nat) option" where
  "lfile_host u d off i 0 = Some (d, i)"
| "lfile_host u d off i (Suc n) =
     do {
       c \<leftarrow> rd u i;
       if c = CHR ''/'' then Some (d, i)
       else do {
         d' \<leftarrow> wr d (off + i) (if c = CHR ''.'' then CHR ''_'' else c);
         lfile_host u d' off (Suc i) n
       }
     }"

fun lfile_path ::
  "buf \<Rightarrow> buf \<Rightarrow> nat \<Rightarrow> nat \<Rightarrow> nat \<Rightarrow> (buf \<times> nat \<times> nat option) option" where
  "lfile_path u d off i 0 = Some (d, i, None)"
| "lfile_path u d off i (Suc n) =
     do {
       c \<leftarrow> rd u i;
       if c = CHR ''?'' then Some (d, i, Some i)
       else do {
         d' \<leftarrow> wr d (off + i) (if c = CHR ''/'' then CHR ''_'' else c);
         lfile_path u d' off (Suc i) n
       }
     }"

text \<open>\<open>u\<close> holds the URL of \<open>len\<close> bytes, the file name is written into \<open>d\<close> from \<open>off\<close> on; \<open>url_para\<close> is
  the uninitialised stack buffer of that name. The comparison \<open>i == len - 1\<close> is on unsigned numbers and
  fails for \<open>len = 0\<close>.\<close>

definition ngx_http_snooping_url2local_file ::
  "buf \<Rightarrow> buf \<Rightarrow> nat \<Rightarrow> buf \<Rightarrow> nat \<Rightarrow> http_cache_url \<Rightarrow> (buf \<times> nat) option" where
  "ngx_http_snooping_url2local_file url_para u len d off pcache_rule =
     do {
       (d1, i) \<leftarrow> lfile_host u d off 0 len;
       (d2, local_len, q) \<leftarrow>
         (if Suc i = len then Some (d1, i, None)
          else do {
            c \<leftarrow> rd u i;
            d' \<leftarrow> wr d1 (off + i) c;
            lfile_path u d' off (Suc i) (len - Suc i)
          });
       (d3, len3) \<leftarrow>
         (case (q, url_para_key_parse pcache_rule) of
            (Some i, Some f) \<Rightarrow>
              if len - i \<noteq> 0 \<and> key_flg pcache_rule AND HTTP_CACHE_KEY_PARA \<noteq> 0
              then do {
                para \<leftarrow> mem_read u i (len - i);
                p1 \<leftarrow> mem_write url_para 0 para;
                p2 \<leftarrow> wr p1 (len - i) NUL;
                (p3, poff, n) \<leftarrow> key_fn_call f p2 0 (len - i);
                if n \<noteq> 0 \<and> local_len + n < HTTP_SP_LFILE_LEN_MAX
                then do {
                  para' \<leftarrow> mem_read p3 poff n;
                  d' \<leftarrow> mem_write d2 (off + local_len) para';
                  Some (d', local_len + n)
                }
                else Some (d2, local_len)
              }
              else Some (d2, local_len)
          | _ \<Rightarrow> Some (d2, local_len));
       d4 \<leftarrow> wr d3 (off + len3) NUL;
       Some (d4, len3)
     }"

section \<open>What the parsers compute\<close>

fun find_sub :: "cstr \<Rightarrow> cstr \<Rightarrow> nat option" where
  "find_sub pat [] = None"
| "find_sub pat (c # cs) =
     (if take (length pat) (c # cs) = pat then Some 0 else map_option Suc (find_sub pat cs))"

text \<open>The part of a string before its \<open>k\<close>-th ampersand.\<close>

fun before_amp :: "nat \<Rightarrow> cstr \<Rightarrow> cstr" where
  "before_amp k [] = []"
| "before_amp k (c # cs) =
     (if c = CHR ''&'' then (if k \<le> 1 then [] else c # before_amp (k - 1) cs) else c # before_amp k cs)"

definition para_spec :: "cstr \<Rightarrow> nat \<Rightarrow> cstr \<Rightarrow> cstr" where
  "para_spec pat k s =
     (case find_sub pat s of None \<Rightarrow> [] | Some p \<Rightarrow> CHR ''_'' # before_amp k (drop p s))"

definition no_slash :: "cstr \<Rightarrow> cstr" where
  "no_slash = map (\<lambda>c. if c = CHR ''/'' then CHR ''_'' else c)"

text \<open>A string without the part from its first underscore up to its second one.\<close>

definition m3u8_cut :: "cstr \<Rightarrow> cstr" where
  "m3u8_cut s = takeWhile (\<lambda>c. c \<noteq> CHR ''_'') s
     @ dropWhile (\<lambda>c. c \<noteq> CHR ''_'') (tl (dropWhile (\<lambda>c. c \<noteq> CHR ''_'') s))"

fun key_fn_spec :: "key_fn \<Rightarrow> cstr \<Rightarrow> cstr" where
  "key_fn_spec SohuPara s = no_slash (para_spec ''file'' 1 s)"
| "key_fn_spec SohuM3u8File s = m3u8_cut s"
| "key_fn_spec PlYoukuPara s = para_spec ''vid='' 2 s"
| "key_fn_spec YoukuAndriodPara s = para_spec ''id='' 1 s"
| "key_fn_spec QqComPara s = para_spec ''vid='' 1 s"
| "key_fn_spec ArkLetvComPara s = para_spec ''ark='' 1 s"

definition part_spec :: "key_fn option \<Rightarrow> cstr \<Rightarrow> cstr" where
  "part_spec f s = (case f of None \<Rightarrow> s | Some g \<Rightarrow> key_fn_spec g s)"

lemma match_at_spec:
  assumes "pos + n < length b" "b ! (pos + n) = NUL" "NUL \<notin> set pat"
  shows "match_at pat b pos = Some (take (length pat) (sl b pos n) = pat)"
  using assms
proof (induction pat arbitrary: pos n)
  case (Cons c cs)
  show ?case
  proof (cases n)
    case 0
    then show ?thesis using Cons.prems by (auto simp: rd_def)
  next
    case (Suc m)
    then show ?thesis using Cons.prems Cons.IH [of "Suc pos" m] by (auto simp: rd_def)
  qed
qed simp

lemma find_pat_spec:
  assumes "pos + n < length b" "b ! (pos + n) = NUL" "NUL \<notin> set pat"
  shows "find_pat pat b pos n = Some (map_option ((+) pos) (find_sub pat (sl b pos n)))"
  using assms
proof (induction n arbitrary: pos)
  case (Suc n)
  have "map_option ((+) (Suc pos)) r = map_option ((+) pos) (map_option Suc r)" for r
    by (cases r) auto
  moreover have "find_pat pat b (Suc pos) n = Some (map_option ((+) (Suc pos)) (find_sub pat (sl b (Suc pos) n)))"
    using Suc by simp
  moreover have "pos < length b" using Suc.prems by simp
  ultimately show ?case using match_at_spec [OF Suc.prems] by (simp del: map_option_eq_Some)
qed simp

lemma amp_scan_spec:
  assumes "j < k" "pos + n \<le> length b"
  shows "amp_scan k j b pos n i = Some (i + length (before_amp (k - j) (sl b pos n)))"
  using assms
proof (induction n arbitrary: pos i j)
  case (Suc n)
  have "j' < k \<Longrightarrow> amp_scan k j' b (Suc pos) n (Suc i)
      = Some (Suc i + length (before_amp (k - j') (sl b (Suc pos) n)))" for j'
    using Suc by auto
  from this [of j] this [of "Suc j"] show ?case using Suc.prems
    by (auto simp: rd_def Let_def not_le le_Suc_eq)
qed simp

lemma before_amp_prefix: "before_amp k s = take (length (before_amp k s)) s"
  by (induction k s rule: before_amp.induct) auto

lemma before_amp_length: "length (before_amp k s) \<le> length s"
  by (induction k s rule: before_amp.induct) auto

lemma find_sub_less: "find_sub pat s = Some p \<Longrightarrow> p < length s"
  by (induction s arbitrary: p) (auto split: if_splits)

lemma find_sub_pos:
  "find_sub pat s = Some p \<Longrightarrow> pat \<noteq> [] \<Longrightarrow> hd s \<noteq> hd pat \<Longrightarrow> 0 < p"
  by (cases s; cases pat) (auto split: if_splits)

text \<open>What a parser called on the \<open>len\<close> bytes at \<open>off\<close> may do: it leaves the bytes outside alone and
  returns a part of that region that holds \<open>s\<close>.\<close>

definition part_result :: "buf \<Rightarrow> nat \<Rightarrow> nat \<Rightarrow> cstr \<Rightarrow> (buf \<times> nat \<times> nat) \<Rightarrow> bool" where
  "part_result b off len s = (\<lambda>(b', off', n). length b' = length b \<and> off \<le> off' \<and> off' + n \<le> off + len
     \<and> sl b' off' n = s \<and> (\<forall>i. i < off \<or> off + len \<le> i \<longrightarrow> b' ! i = b ! i))"

lemma sl_underscore:
  assumes "off + len < length b" "p < len" "0 < p"
  shows "sl (b[off + p - 1 := c]) (off + p - 1) (len - p + 1) = c # drop p (sl b off len)"
proof -
  have "Suc (off + p - 1) = off + p" "off + p - 1 < length b" using assms by auto
  then show ?thesis using assms by (simp add: drop_sl)
qed

lemma para_key_ok:
  assumes b: "off + len < length b" "b ! (off + len) = NUL"
    and pat: "pat \<noteq> []" "NUL \<notin> set pat" "0 < k" and h: "0 < len \<Longrightarrow> b ! off \<noteq> hd pat"
  shows "\<exists>r. para_key pat k b off len = Some r
             \<and> part_result b off len (para_spec pat k (sl b off len)) r"
proof (cases "find_sub pat (sl b off len)")
  case None
  then show ?thesis
    using find_pat_spec [OF b pat(2)] by (simp add: para_key_def para_spec_def part_result_def)
next
  case (Some p)
  have p: "p < len" using find_sub_less [OF Some] b by (simp add: length_sl)
  moreover have "hd (sl b off len) = b ! off" using p b by (cases len) auto
  ultimately have p0: "0 < p" using find_sub_pos [OF Some pat(1)] h by simp
  define b' where "b' = b[off + p - 1 := CHR ''_'']"
  define n where "n = Suc (length (before_amp k (drop p (sl b off len))))"
  have s: "sl b' (off + p - 1) (len - p + 1) = CHR ''_'' # drop p (sl b off len)"
    unfolding b'_def using sl_underscore [OF b(1) p p0] .
  have n: "n \<le> len - p + 1"
    using before_amp_length [of k "drop p (sl b off len)"] b p by (simp add: n_def length_sl)
  have "amp_scan k 0 b' (off + p - 1) (len - p + 1) 0 = Some n"
    using amp_scan_spec [of 0 k "off + p - 1" "len - p + 1" b' 0] pat(3) s b p
    by (simp add: b'_def n_def)
  moreover have "wr b (off + p - 1) (CHR ''_'') = Some b'" using b p by (simp add: wr_def b'_def)
  ultimately have eq: "para_key pat k b off len = Some (b', off + p - 1, n)"
    using find_pat_spec [OF b pat(2)] Some p0 by (simp add: para_key_def del: amp_scan.simps)
  have "sl b' (off + p - 1) n = take n (CHR ''_'' # drop p (sl b off len))"
    using take_sl [OF n, of b' "off + p - 1"] s by simp
  also have "\<dots> = para_spec pat k (sl b off len)"
    using before_amp_prefix [of k "drop p (sl b off len)"] Some by (simp add: para_spec_def n_def)
  finally show ?thesis using eq n p p0
    by (auto simp: part_result_def b'_def nth_list_update)
qed

lemma m3u8_scan_spec:
  assumes "k \<le> i" "off + i + n \<le> length b"
  shows "\<exists>b' k'. m3u8_scan b off i n j k = Some (b', k') \<and> length b' = length b \<and> k' \<le> i + n
    \<and> sl b' off k' = sl b off k @
        (if j = 0 then m3u8_cut (sl b (off + i) n)
         else if j = 1 then dropWhile (\<lambda>c. c \<noteq> CHR ''_'') (sl b (off + i) n) else sl b (off + i) n)
    \<and> (\<forall>m. m < off \<or> off + i + n \<le> m \<longrightarrow> b' ! m = b ! m)"
  using assms
proof (induction n arbitrary: b i j k)
  case (Suc n)
  define c where "c = b ! (off + i)"
  define b1 where "b1 = b[off + k := c]"
  define j' where "j' = (if c = CHR ''_'' then Suc j else j)"
  have k: "sl b1 off (Suc k) = sl b off k @ [c]"
    using sl_split [of off k 1 b1] Suc.prems by (simp add: b1_def)
  have keep: "sl b1 (Suc (off + i)) n = sl b (Suc (off + i)) n"
    using Suc.prems by (simp add: b1_def)
  show ?case
  proof (cases "j' = 1")
    case True
    then show ?thesis using Suc.prems Suc.IH [of k "Suc i" b 1]
      by (auto simp: rd_def c_def j'_def m3u8_cut_def split: if_splits)
  next
    case False
    have "\<exists>b' k'. m3u8_scan b1 off (Suc i) n j' (Suc k) = Some (b', k') \<and> length b' = length b1
      \<and> k' \<le> Suc i + n \<and> sl b' off k' = sl b1 off (Suc k) @
        (if j' = 0 then m3u8_cut (sl b1 (off + Suc i) n)
         else if j' = 1 then dropWhile (\<lambda>c. c \<noteq> CHR ''_'') (sl b1 (off + Suc i) n)
         else sl b1 (off + Suc i) n)
      \<and> (\<forall>m. m < off \<or> off + Suc i + n \<le> m \<longrightarrow> b' ! m = b1 ! m)"
      by (rule Suc.IH) (use Suc.prems in \<open>auto simp: b1_def\<close>)
    moreover have "m3u8_scan b off i (Suc n) j k = m3u8_scan b1 off (Suc i) n j' (Suc k)"
      using Suc.prems False by (simp add: rd_def wr_def c_def [symmetric] b1_def j'_def)
    moreover have "sl b (off + i) (Suc n) = c # sl b (Suc (off + i)) n"
      using Suc.prems by (simp add: c_def)
    moreover have "m < off \<or> off + Suc i + n \<le> m \<Longrightarrow> b1 ! m = b ! m" for m
      using Suc.prems by (auto simp: b1_def nth_list_update)
    moreover have "length b1 = length b" by (simp add: b1_def)
    ultimately show ?thesis using False
      by (auto simp: k keep m3u8_cut_def j'_def split: if_splits)
  qed
qed (simp add: m3u8_cut_def)

lemma sohu_scan_spec:
  assumes "pos + n \<le> length b"
  shows "\<exists>b'. sohu_scan 0 b pos n i = Some (b', i + length (before_amp 1 (sl b pos n)))
    \<and> length b' = length b
    \<and> sl b' pos (length (before_amp 1 (sl b pos n))) = no_slash (before_amp 1 (sl b pos n))
    \<and> (\<forall>m. m < pos \<or> pos + n \<le> m \<longrightarrow> b' ! m = b ! m)"
  using assms
proof (induction n arbitrary: b pos i)
  case (Suc n)
  define c where "c = b ! pos"
  define b1 where "b1 = (if c = CHR ''/'' then b[pos := CHR ''_''] else b)"
  have s: "sl b pos (Suc n) = c # sl b (Suc pos) n" "rd b pos = Some c"
    using Suc.prems by (auto simp: c_def rd_def)
  show ?case
  proof (cases "c = CHR ''&''")
    case True
    then show ?thesis using s by (simp add: no_slash_def)
  next
    case False
    have len: "length b1 = length b" and b1: "sl b1 (Suc pos) n = sl b (Suc pos) n"
      by (simp_all add: b1_def)
    obtain b' where b': "sohu_scan 0 b1 (Suc pos) n (Suc i)
          = Some (b', Suc i + length (before_amp 1 (sl b (Suc pos) n)))"
      "length b' = length b"
      "sl b' (Suc pos) (length (before_amp 1 (sl b (Suc pos) n))) = no_slash (before_amp 1 (sl b (Suc pos) n))"
      "\<And>m. m < Suc pos \<or> Suc pos + n \<le> m \<Longrightarrow> b' ! m = b1 ! m"
      using Suc.IH [of "Suc pos" b1 "Suc i"] Suc.prems b1 len by auto
    have "sohu_scan 0 b pos (Suc n) i = sohu_scan 0 b1 (Suc pos) n (Suc i)"
      using False Suc.prems s by (simp add: b1_def wr_def del: sl_Suc)
    moreover have "b' ! pos = (if c = CHR ''/'' then CHR ''_'' else c)"
      using b'(4) [of pos] Suc.prems by (simp add: b1_def c_def)
    moreover have "m < pos \<or> pos + Suc n \<le> m \<Longrightarrow> b' ! m = b ! m" for m
      using b'(4) [of m] by (auto simp: b1_def)
    moreover have "sl b' pos (Suc (length (before_amp 1 (sl b (Suc pos) n))))
        = b' ! pos # no_slash (before_amp 1 (sl b (Suc pos) n))"
      using b'(2,3) Suc.prems by simp
    ultimately show ?thesis using b'(1,2) False
      unfolding s by (simp add: no_slash_def)
  qed
qed (simp add: no_slash_def)

lemma sohu_para_key_ok:
  assumes b: "off + len < length b" "b ! (off + len) = NUL" and h: "0 < len \<Longrightarrow> b ! off \<noteq> CHR ''f''"
  shows "\<exists>r. ngx_http_sohu_para_key b off len = Some r
             \<and> part_result b off len (no_slash (para_spec ''file'' 1 (sl b off len))) r"
proof (cases "find_sub ''file'' (sl b off len)")
  case None
  then show ?thesis
    using find_pat_spec [OF b, of "''file''"]
    by (simp add: ngx_http_sohu_para_key_def para_spec_def part_result_def no_slash_def)
next
  case (Some p)
  have p: "p < len" using find_sub_less [OF Some] b by (simp add: length_sl)
  moreover have "hd (sl b off len) = b ! off" using p b by (cases len) auto
  ultimately have p0: "0 < p" using find_sub_pos [OF Some] h by simp
  define b1 where "b1 = b[off + p - 1 := CHR ''_'']"
  define t where "t = before_amp 1 (CHR ''_'' # drop p (sl b off len))"
  have s: "sl b1 (off + p - 1) (len - p + 1) = CHR ''_'' # drop p (sl b off len)"
    unfolding b1_def using sl_underscore [OF b(1) p p0] .
  have n: "length t \<le> len - p + 1"
    using before_amp_length [of 1 "CHR ''_'' # drop p (sl b off len)"] b p by (simp add: t_def length_sl)
  have le: "off + p - 1 + (len - p + 1) \<le> length b1" using b p p0 by (simp add: b1_def)
  obtain b2 where b2: "sohu_scan 0 b1 (off + p - 1) (len - p + 1) 0 = Some (b2, length t)"
    "length b2 = length b1" "sl b2 (off + p - 1) (length t) = no_slash t"
    "\<And>m. m < off + p - 1 \<or> off + p - 1 + (len - p + 1) \<le> m \<Longrightarrow> b2 ! m = b1 ! m"
    using sohu_scan_spec [OF le, of 0, unfolded s, folded t_def] by (simp only: add_0) blast
  have "length b1 = length b" by (simp add: b1_def)
  note b2 = b2(1) b2(2) [unfolded this] b2(3,4)
  have w: "off + p - 1 + length t \<le> off + len" using n p p0 by auto
  have t: "t = para_spec ''file'' 1 (sl b off len)" by (simp add: t_def para_spec_def Some)
  have "wr b (off + p - 1) (CHR ''_'') = Some b1" using b p by (simp add: wr_def b1_def)
  moreover have "wr b2 (off + p - 1 + length t) NUL = Some (b2[off + p - 1 + length t := NUL])"
    using w b b2(2) by (simp add: wr_def)
  ultimately have eq: "ngx_http_sohu_para_key b off len =
      Some (b2[off + p - 1 + length t := NUL], off + p - 1, length t)"
    using find_pat_spec [OF b, of "''file''"] Some p0 b2(1)
    by (simp add: ngx_http_sohu_para_key_def del: sohu_scan.simps)
  define b3 where "b3 = b2[off + p - 1 + length t := NUL]"
  have "i < off \<or> off + len \<le> i \<Longrightarrow> b3 ! i = b ! i" for i
    using b2(4) [of i] b2(2) w b p p0 by (auto simp: nth_list_update b1_def b3_def)
  moreover have "off \<le> off + p - 1" using p0 by auto
  moreover have "sl b3 (off + p - 1) (length t) = no_slash t" using b2(3) by (simp add: b3_def)
  moreover have "length b3 = length b" using b2(2) by (simp add: b3_def)
  ultimately show ?thesis using eq w
    unfolding b3_def [symmetric] t [symmetric] part_result_def by blast
qed

lemma key_fn_ok:
  assumes "off + len < length b" "b ! (off + len) = NUL" "0 < len \<Longrightarrow> b ! off = CHR ''?''"
  shows "\<exists>r. key_fn_call f b off len = Some r \<and> part_result b off len (key_fn_spec f (sl b off len)) r"
proof (cases f)
  case SohuPara
  then show ?thesis using sohu_para_key_ok [OF assms(1,2)] assms(3) by simp
next
  case SohuM3u8File
  then show ?thesis using m3u8_scan_spec [of 0 0 off len b 0] assms
    by (fastforce simp: ngx_http_sohu_m3u8_file_key_def part_result_def)
next
  case PlYoukuPara
  then show ?thesis using para_key_ok [OF assms(1,2), of "''vid=''" 2] assms(3)
    by (simp add: ngx_http_pl_youku_para_key_def)
next
  case YoukuAndriodPara
  then show ?thesis using para_key_ok [OF assms(1,2), of "''id=''" 1] assms(3)
    by (simp add: ngx_http_youku_andriod_para_key_def)
next
  case QqComPara
  then show ?thesis using para_key_ok [OF assms(1,2), of "''vid=''" 1] assms(3)
    by (simp add: ngx_http_qq_com_para_key_def)
next
  case ArkLetvComPara
  then show ?thesis using para_key_ok [OF assms(1,2), of "''ark=''" 1] assms(3)
    by (simp add: ngx_http_ark_letv_com_para_key_def)
qed

lemma memcpy_in_spec:
  assumes "dst \<le> src" "src + n \<le> length b"
  shows "\<exists>b' s. memcpy_in b dst src n = Some b' \<and> length b' = length b \<and> sl b' dst n = s \<and> length s = n
    \<and> (dst + n \<le> src \<longrightarrow> s = sl b src n) \<and> (\<forall>m. m < dst \<or> dst + n \<le> m \<longrightarrow> b' ! m = b ! m)"
proof (cases "n = 0")
  case False
  define s where "s = (if dst + n \<le> src \<or> src + n \<le> dst then sl b src n else map (memcpy_overlap b dst src n) [0..<n])"
  define b' where "b' = take dst b @ s @ drop (dst + n) b"
  have s: "length s = n" using assms by (simp add: s_def length_sl)
  have "memcpy_in b dst src n = Some b'"
    using False assms by (simp add: memcpy_in_def mem_read_sl mem_write_def b'_def s_def length_sl)
  moreover have "length b' = length b" "sl b' dst n = s" using assms s by (simp_all add: b'_def sl_def)
  moreover have "m < dst \<or> dst + n \<le> m \<Longrightarrow> b' ! m = b ! m" for m
    using assms s by (auto simp: b'_def nth_append nth_drop)
  moreover have "dst + n \<le> src \<longrightarrow> s = sl b src n" by (simp add: s_def)
  ultimately show ?thesis using s by blast
qed (simp add: memcpy_in_def)

section \<open>What the key is\<close>

text \<open>The bytes of the segments whose bit is set; \<open>x\<close> is the number of slashes seen less one.\<close>

fun keep_segs :: "u32 \<Rightarrow> int \<Rightarrow> cstr \<Rightarrow> cstr" where
  "keep_segs kf x [] = []"
| "keep_segs kf x (c # cs) =
     (let x' = (if c = CHR ''/'' then x + 1 else x) in
      (if bit kf (nat x') then [c] else []) @ keep_segs kf x' cs)"

fun last_pos :: "nat \<Rightarrow> nat \<Rightarrow> cstr \<Rightarrow> nat" where
  "last_pos i l [] = l"
| "last_pos i l (c # cs) = last_pos (Suc i) (if c = CHR ''/'' then i else l) cs"

text \<open>The key of a URL \<open>d @ f @ q\<close>, where \<open>f\<close> starts at the last slash before the parameter \<open>q\<close>.\<close>

definition url_key :: "http_cache_url \<Rightarrow> cstr \<Rightarrow> cstr \<Rightarrow> cstr \<Rightarrow> cstr" where
  "url_key r d f q =
     keep_segs (key_flg r) (-1) (d @ f)
     @ (if HTTP_CACHE_KEY_FILE AND key_flg r \<noteq> 0 then part_spec (url_file_key_parse r) f else [])
     @ (if q \<noteq> [] \<and> HTTP_CACHE_KEY_PARA AND key_flg r \<noteq> 0 then part_spec (url_para_key_parse r) q else [])"

lemma key_bit_eq: "0 \<le> n \<Longrightarrow> n < 31 \<Longrightarrow> key_bit kf n = Some (bit kf (nat n))"
  by (simp add: key_bit_def bit_iff_and_push_bit_not_eq_0)

lemma keep_segs_append:
  "keep_segs kf x (p @ p') = keep_segs kf x p @ keep_segs kf (x + int (count_list p (CHR ''/''))) p'"
  by (induction p arbitrary: x) (auto simp: Let_def ac_simps)

lemma keep_segs_file:
  "CHR ''/'' \<notin> set fn \<Longrightarrow> \<not> bit kf (nat (x + 1)) \<Longrightarrow> keep_segs kf x (CHR ''/'' # fn) = []"
proof -
  assume "CHR ''/'' \<notin> set fn" "\<not> bit kf (nat (x + 1))"
  then have "keep_segs kf (x + 1) fn = []" by (induction fn) auto
  then show ?thesis using \<open>\<not> bit kf (nat (x + 1))\<close> by simp
qed

lemma keep_segs_length: "length (keep_segs kf x p) \<le> length p"
  by (induction p arbitrary: x) (auto simp: Let_def le_SucI)

lemma last_pos_file:
  "CHR ''/'' \<notin> set fn \<Longrightarrow> last_pos i l (d @ CHR ''/'' # fn) = i + length d"
proof (induction d arbitrary: i l)
  case Nil
  have "CHR ''/'' \<notin> set fn \<Longrightarrow> last_pos k l fn = l" for k l by (induction fn arbitrary: k) auto
  with Nil show ?case by simp
qed simp

lemma key_scan_spec:
  assumes "sl b i n = p @ q" "CHR ''?'' \<notin> set p" "q = [] \<or> hd q = CHR ''?''" "j \<le> i" "i + n \<le> length b"
    "-1 \<le> x" "x = -1 \<Longrightarrow> p = [] \<or> hd p = CHR ''/''" "x + int (count_list p (CHR ''/'')) < 31"
  shows "\<exists>b'. key_scan kf b i n x l j = Some (b', last_pos i l p, j + length (keep_segs kf x p),
                if q = [] then None else Some (i + length p))
    \<and> length b' = length b \<and> sl b' 0 (j + length (keep_segs kf x p)) = sl b 0 j @ keep_segs kf x p
    \<and> (\<forall>m. j + length (keep_segs kf x p) \<le> m \<longrightarrow> b' ! m = b ! m)"
  using assms
proof (induction n arbitrary: b i x l j p)
  case (Suc n)
  define c where "c = b ! i"
  have c: "rd b i = Some c" "c # sl b (Suc i) n = p @ q" using Suc.prems by (auto simp: c_def rd_def)
  show ?case
  proof (cases p)
    case Nil
    then have "c = CHR ''?''" using c Suc.prems(3) by (cases q) auto
    then show ?thesis using c Nil by auto
  next
    case (Cons c' p')
    then have p: "p = c # p'" and s: "sl b (Suc i) n = p' @ q" using c by auto
    define x' where "x' = (if c = CHR ''/'' then x + 1 else x)"
    have nq: "c \<noteq> CHR ''?''" using p Suc.prems(2) by auto
    have "x = -1 \<longrightarrow> c = CHR ''/''" using Suc.prems(7) p by simp
    then have x': "0 \<le> x'" "x' + int (count_list p' (CHR ''/'')) < 31"
      using Suc.prems(6,8) p by (auto simp: x'_def split: if_splits)
    have kb: "key_bit kf x' = Some (bit kf (nat x'))" using x' by (intro key_bit_eq) auto
    define b1 where "b1 = (if bit kf (nat x') then b[j := c] else b)"
    define j1 where "j1 = (if bit kf (nat x') then Suc j else j)"
    have b1: "length b1 = length b" "sl b1 (Suc i) n = p' @ q"
      using s Suc.prems(4) by (simp_all add: b1_def)
    have ks: "keep_segs kf x p = (if bit kf (nat x') then [c] else []) @ keep_segs kf x' p'"
      by (simp add: p x'_def Let_def)
    have jl: "j + length (keep_segs kf x p) = j1 + length (keep_segs kf x' p')"
      by (simp add: ks j1_def)
    have hd: "sl b1 0 j1 = sl b 0 j @ (if bit kf (nat x') then [c] else [])"
      using sl_snoc_update [of j b c] Suc.prems(4,5) by (simp add: b1_def j1_def)
    have step: "key_scan kf b i (Suc n) x l j = key_scan kf b1 (Suc i) n x' (if c = CHR ''/'' then i else l) j1"
      using c(1) nq kb Suc.prems(4,5) unfolding x'_def
      by (cases "c = CHR ''/''") (simp_all add: b1_def j1_def x'_def wr_def)
    have "\<exists>b'. key_scan kf b1 (Suc i) n x' (if c = CHR ''/'' then i else l) j1 =
        Some (b', last_pos (Suc i) (if c = CHR ''/'' then i else l) p', j1 + length (keep_segs kf x' p'),
          if q = [] then None else Some (Suc i + length p'))
      \<and> length b' = length b1 \<and> sl b' 0 (j1 + length (keep_segs kf x' p')) = sl b1 0 j1 @ keep_segs kf x' p'
      \<and> (\<forall>m. j1 + length (keep_segs kf x' p') \<le> m \<longrightarrow> b' ! m = b1 ! m)"
      by (rule Suc.IH) (use Suc.prems x' b1 p in \<open>auto simp: j1_def\<close>)
    then obtain b' where b': "key_scan kf b1 (Suc i) n x' (if c = CHR ''/'' then i else l) j1 =
        Some (b', last_pos (Suc i) (if c = CHR ''/'' then i else l) p', j1 + length (keep_segs kf x' p'),
          if q = [] then None else Some (Suc i + length p'))"
      "length b' = length b1" "sl b' 0 (j1 + length (keep_segs kf x' p')) = sl b1 0 j1 @ keep_segs kf x' p'"
      "\<And>m. j1 + length (keep_segs kf x' p') \<le> m \<Longrightarrow> b' ! m = b1 ! m" by blast
    have "j1 + length (keep_segs kf x' p') \<le> m \<Longrightarrow> b' ! m = b ! m" for m
      using b'(4) [of m] by (auto simp: b1_def j1_def nth_list_update)
    moreover have "sl b' 0 (j1 + length (keep_segs kf x' p')) = sl b 0 j @ keep_segs kf x p"
      using b'(3) hd ks by simp
    moreover have "last_pos i l p = last_pos (Suc i) (if c = CHR ''/'' then i else l) p'"
      "i + length p = Suc i + length p'" by (simp_all add: p)
    ultimately show ?thesis using b'(1,2) b1(1) unfolding step jl by simp
  qed
qed simp

section \<open>The in-place computation of the key\<close>

definition url_parts :: "cstr \<Rightarrow> cstr \<Rightarrow> cstr \<Rightarrow> bool" where
  "url_parts d f q \<longleftrightarrow> (d = [] \<or> hd d = CHR ''/'') \<and> f \<noteq> [] \<and> hd f = CHR ''/'' \<and> CHR ''/'' \<notin> set (tl f)
     \<and> CHR ''?'' \<notin> set (d @ f) \<and> (q = [] \<or> hd q = CHR ''?'')"

text \<open>The rules the key computation is written for: the last segment is not kept twice and only
  \<open>ngx_http_sohu_m3u8_file_key\<close> parses file names.\<close>

definition key_rule_ok :: "http_cache_url \<Rightarrow> nat \<Rightarrow> bool" where
  "key_rule_ok r x \<longleftrightarrow> x < 31 \<and> (HTTP_CACHE_KEY_FILE AND key_flg r \<noteq> 0 \<longrightarrow> \<not> bit (key_flg r) x)
     \<and> url_file_key_parse r \<in> {None, Some SohuM3u8File}"

lemma part_file_ok:
  assumes "off + n \<le> length b" "g \<in> {None, Some SohuM3u8File}"
  shows "\<exists>r. key_fn_opt g b off n = Some r \<and> part_result b off n (part_spec g (sl b off n)) r"
proof (cases g)
  case None
  then show ?thesis by (simp add: key_fn_opt_def part_result_def part_spec_def)
next
  case (Some h)
  then show ?thesis using assms m3u8_scan_spec [of 0 0 off n b 0]
    by (fastforce simp: key_fn_opt_def ngx_http_sohu_m3u8_file_key_def part_result_def part_spec_def)
qed

lemma part_para_ok:
  assumes "off + n < length b" "b ! (off + n) = NUL" "0 < n \<Longrightarrow> b ! off = CHR ''?''"
  shows "\<exists>r. key_fn_opt g b off n = Some r \<and> part_result b off n (part_spec g (sl b off n)) r"
proof (cases g)
  case None
  then show ?thesis by (simp add: key_fn_opt_def part_result_def part_spec_def)
next
  case (Some h)
  then show ?thesis using key_fn_ok [OF assms] by (simp add: key_fn_opt_def part_spec_def)
qed

text \<open>Appending a part: the key grows by the length of the part, and by the part itself if its copy does not
  reach the bytes it is copied from.\<close>

lemma key_append_ok:
  assumes r: "key_fn_opt g b off n = Some r" "part_result b off n s r"
    and le: "len \<le> off" "off + n \<le> length b"
  shows "\<exists>b' t. key_append g b len off n = Some (b', len + length t) \<and> length b' = length b
    \<and> length t = length s \<and> length s \<le> n \<and> (len + length s \<le> off \<longrightarrow> t = s)
    \<and> sl b' 0 (len + length t) = sl b 0 len @ t \<and> (\<forall>m. off + n \<le> m \<longrightarrow> b' ! m = b ! m)"
proof -
  obtain b1 off1 n1 where r1: "r = (b1, off1, n1)" by (cases r)
  then have b1: "length b1 = length b" "off \<le> off1" "off1 + n1 \<le> off + n" "sl b1 off1 n1 = s"
    "\<And>i. i < off \<or> off + n \<le> i \<Longrightarrow> b1 ! i = b ! i" using r(2) by (auto simp: part_result_def)
  have n1: "n1 = length s" using length_sl [of off1 n1 b1] b1 le by simp
  obtain b2 t where b2: "memcpy_in b1 len off1 n1 = Some b2" "length b2 = length b1"
    "sl b2 len n1 = t" "length t = n1" "len + n1 \<le> off1 \<longrightarrow> t = s"
    "\<And>m. m < len \<or> len + n1 \<le> m \<Longrightarrow> b2 ! m = b1 ! m"
  proof -
    have "len \<le> off1" "off1 + n1 \<le> length b1" using b1 le by auto
    from memcpy_in_spec [OF this] that show ?thesis unfolding b1(4) by blast
  qed
  have "sl b2 0 len = sl b 0 len" using b1(1,5) b2(2,6) le by (intro sl_cong) auto
  then have "sl b2 0 (len + n1) = sl b 0 len @ t"
    using sl_split [of 0 len n1 b2] b1 b2 le by simp
  moreover have "off + n \<le> m \<Longrightarrow> b2 ! m = b ! m" for m using b1 b2 le by auto
  moreover have "key_append g b len off n = Some (b2, len + n1)"
    using r(1) r1 b2(1) by (simp add: key_append_def)
  moreover have "len + length s \<le> off \<longrightarrow> t = s" using b1(2) b2(5) n1 by simp
  ultimately show ?thesis using n1 b1 b2(2,4) by (intro exI [of _ b2] exI [of _ t]) auto
qed

definition file_part :: "http_cache_url \<Rightarrow> cstr \<Rightarrow> cstr" where
  "file_part r f =
     (if HTTP_CACHE_KEY_FILE AND key_flg r \<noteq> 0 then part_spec (url_file_key_parse r) f else [])"

definition para_part :: "http_cache_url \<Rightarrow> cstr \<Rightarrow> cstr" where
  "para_part r q =
     (if q \<noteq> [] \<and> HTTP_CACHE_KEY_PARA AND key_flg r \<noteq> 0 then part_spec (url_para_key_parse r) q else [])"

lemma url2local_key_steps:
  assumes sc: "key_scan (key_flg r) b 0 len (-1) 0 0 =
      Some (b1, length d, j, if q = [] then None else Some (length d + length f))"
    and len: "len = length d + length f + length q" and f: "f \<noteq> []"
  shows "ngx_http_snooping_url2local_key b len r =
     do {
       (b2, len2) \<leftarrow>
         (if HTTP_CACHE_KEY_FILE AND key_flg r \<noteq> 0
          then key_append (url_file_key_parse r) b1 j (length d) (length f) else Some (b1, j));
       (b3, len3) \<leftarrow>
         (if q \<noteq> [] \<and> HTTP_CACHE_KEY_PARA AND key_flg r \<noteq> 0
          then key_append (url_para_key_parse r) b2 len2 (length d + length f) (length q)
          else Some (b2, len2));
       b4 \<leftarrow> wr b3 len3 NUL;
       Some (b4, len3)
     }"
  unfolding ngx_http_snooping_url2local_key_def sc using len f
  by (cases q) (simp_all add: Let_def)

lemma scan_phase:
  assumes len: "len \<le> length b" and s: "sl b 0 len = d @ f @ q"
    and parts: "url_parts d f q" and x: "count_list d (CHR ''/'') < 31"
    and K: "K = keep_segs (key_flg r) (-1) (d @ f)"
  obtains b1 where "key_scan (key_flg r) b 0 len (-1) 0 0 =
      Some (b1, length d, length K, if q = [] then None else Some (length d + length f))"
    "length b1 = length b" "sl b1 0 (length K) = K" "\<And>m. length K \<le> m \<Longrightarrow> b1 ! m = b ! m"
proof -
  obtain fn where f: "f = CHR ''/'' # fn" "CHR ''/'' \<notin> set fn"
    using parts by (cases f) (auto simp: url_parts_def)
  have "count_list (d @ f) (CHR ''/'') = Suc (count_list d (CHR ''/''))"
    using f by (simp add: count_list_0_iff)
  then have c: "-1 + int (count_list (d @ f) (CHR ''/'')) < 31" using x by simp
  have l: "last_pos 0 0 (d @ f) = length d" using last_pos_file [OF f(2), of 0 0 d] f by simp
  have p: "sl b 0 len = (d @ f) @ q" "CHR ''?'' \<notin> set (d @ f)" "q = [] \<or> hd q = CHR ''?''"
    "(-1::int) = -1 \<Longrightarrow> d @ f = [] \<or> hd (d @ f) = CHR ''/''"
    using s parts f by (auto simp: url_parts_def hd_append)
  have "0 + len \<le> length b" "(0::nat) \<le> 0" "-1 \<le> (-1::int)" using len by auto
  from key_scan_spec [OF p(1,2,3) this(2,1,3) p(4) c, of "key_flg r" 0, folded K]
  show ?thesis using that unfolding l by auto
qed

lemma keep_segs_dir:
  assumes "url_parts d f q" "\<not> bit kf (count_list d (CHR ''/''))"
  shows "length (keep_segs kf (-1) (d @ f)) \<le> length d"
proof -
  obtain fn where f: "f = CHR ''/'' # fn" "CHR ''/'' \<notin> set fn"
    using assms(1) by (cases f) (auto simp: url_parts_def)
  then have "keep_segs kf (-1) (d @ f) = keep_segs kf (-1) d"
    using assms(2) keep_segs_file [OF f(2), of kf "-1 + int (count_list d (CHR ''/''))"]
    by (simp add: keep_segs_append del: keep_segs.simps)
  then show ?thesis using keep_segs_length by metis
qed

lemma file_phase:
  assumes b1: "length b1 = length b" "sl b1 0 (length K) = K" "\<And>m. length K \<le> m \<Longrightarrow> b1 ! m = b ! m"
    and K: "length K \<le> length d + length f"
      "HTTP_CACHE_KEY_FILE AND key_flg r \<noteq> 0 \<Longrightarrow> length K \<le> length d"
    and g: "length d + length f \<le> length b" "url_file_key_parse r \<in> {None, Some SohuM3u8File}"
    and f: "sl b (length d) (length f) = f"
  obtains b2 t where "(if HTTP_CACHE_KEY_FILE AND key_flg r \<noteq> 0
        then key_append (url_file_key_parse r) b1 (length K) (length d) (length f) else Some (b1, length K))
        = Some (b2, length (K @ t))"
    "length b2 = length b" "length (K @ t) \<le> length d + length f" "sl b2 0 (length (K @ t)) = K @ t"
    "\<And>m. length d + length f \<le> m \<Longrightarrow> b2 ! m = b ! m"
    "length t = length (file_part r f)" "length (K @ file_part r f) \<le> length d \<or> t = [] \<Longrightarrow> t = file_part r f"
proof (cases "HTTP_CACHE_KEY_FILE AND key_flg r \<noteq> 0")
  case True
  have g': "length d + length f \<le> length b1" using g b1(1) by simp
  have "sl b1 (length d) (length f) = f"
    using f b1(1,3) K(2) [OF True] sl_cong [of b1 b "length d" "length f"] by simp
  then obtain x where x: "key_fn_opt (url_file_key_parse r) b1 (length d) (length f) = Some x"
    "part_result b1 (length d) (length f) (file_part r f) x"
    using part_file_ok [OF g' g(2)] True by (auto simp: file_part_def)
  obtain b2 t where "key_append (url_file_key_parse r) b1 (length K) (length d) (length f) = Some (b2, length (K @ t))"
    "length b2 = length b" "length t = length (file_part r f)" "length (file_part r f) \<le> length f"
    "length (K @ file_part r f) \<le> length d \<longrightarrow> t = file_part r f" "sl b2 0 (length (K @ t)) = K @ t"
    "\<forall>m. length d + length f \<le> m \<longrightarrow> b2 ! m = b1 ! m"
    using key_append_ok [OF x K(2) [OF True] g'] b1(1,2) unfolding length_append by metis
  then show ?thesis using True b1(3) K by (intro that [of b2 t]) auto
next
  case False
  then have "file_part r f = []" by (simp add: file_part_def)
  then show ?thesis using False b1 K(1) by (intro that [of b1 "[]"]) auto
qed

lemma para_phase:
  assumes b2: "length b2 = length b" "length K \<le> n" "sl b2 0 (length K) = K" "\<And>m. n \<le> m \<Longrightarrow> b2 ! m = b ! m"
    and q: "n + length q < length b" "b ! (n + length q) = NUL" "sl b n (length q) = q"
      "q = [] \<or> hd q = CHR ''?''"
  obtains b3 t where "(if q \<noteq> [] \<and> HTTP_CACHE_KEY_PARA AND key_flg r \<noteq> 0
        then key_append (url_para_key_parse r) b2 (length K) n (length q) else Some (b2, length K))
        = Some (b3, length (K @ t))"
    "length b3 = length b" "length (K @ t) \<le> n + length q" "sl b3 0 (length (K @ t)) = K @ t"
    "length t = length (para_part r q)" "length (K @ para_part r q) \<le> n \<Longrightarrow> t = para_part r q"
proof (cases "q \<noteq> [] \<and> HTTP_CACHE_KEY_PARA AND key_flg r \<noteq> 0")
  case True
  have g: "n + length q < length b2" "b2 ! (n + length q) = NUL" using q b2 by auto
  have s: "sl b2 n (length q) = q" using q(3) b2(1,4) sl_cong [of b2 b n "length q"] by simp
  have "b2 ! n = CHR ''?''"
    using nth_sl [of 0 "length q" n b2] g(1) s True q(4) by (simp add: hd_conv_nth)
  then obtain x where x: "key_fn_opt (url_para_key_parse r) b2 n (length q) = Some x"
    "part_result b2 n (length q) (para_part r q) x"
    using part_para_ok [OF g, of "url_para_key_parse r"] s True by (auto simp: para_part_def)
  have "n + length q \<le> length b2" using g by simp
  then obtain b3 t where "key_append (url_para_key_parse r) b2 (length K) n (length q) = Some (b3, length (K @ t))"
    "length b3 = length b" "length t = length (para_part r q)" "length (para_part r q) \<le> length q"
    "length (K @ para_part r q) \<le> n \<longrightarrow> t = para_part r q" "sl b3 0 (length (K @ t)) = K @ t"
    using key_append_ok [OF x b2(2)] b2(1,3) unfolding length_append by metis
  then show ?thesis using True b2(2) by (intro that [of b3 t]) auto
next
  case False
  then have "para_part r q = []" by (auto simp: para_part_def)
  then show ?thesis using False b2 by (intro that [of b2 "[]"]) auto
qed

text \<open>The two copies of the key computation do not reach the bytes they copy from.\<close>

definition key_copies_apart :: "http_cache_url \<Rightarrow> cstr \<Rightarrow> cstr \<Rightarrow> cstr \<Rightarrow> bool" where
  "key_copies_apart r d f q \<longleftrightarrow>
     (HTTP_CACHE_KEY_FILE AND key_flg r \<noteq> 0 \<longrightarrow> length (keep_segs (key_flg r) (-1) (d @ f) @ file_part r f) \<le> length d)
     \<and> (HTTP_CACHE_KEY_PARA AND key_flg r \<noteq> 0 \<longrightarrow> q = [] \<or> length (url_key r d f q) \<le> length d + length f)"

lemma url2local_key_refines:
  assumes len: "len < length b" "b ! len = NUL" and s: "sl b 0 len = d @ f @ q"
    and parts: "url_parts d f q" and r: "key_rule_ok r (count_list d (CHR ''/''))"
  shows "\<exists>b' k. ngx_http_snooping_url2local_key b len r = Some (b', length k)
    \<and> length b' = length b \<and> sl b' 0 (length k) = k \<and> b' ! length k = NUL
    \<and> length k = length (url_key r d f q) \<and> length k \<le> len
    \<and> (key_copies_apart r d f q \<longrightarrow> k = url_key r d f q)"
proof -
  define K where "K = keep_segs (key_flg r) (-1) (d @ f)"
  have l: "len = length d + length f + length q"
    using arg_cong [OF s, of length] len by (simp add: length_sl)
  have sf: "sl b (length d) (length f) = f" "sl b (length d + length f) (length q) = q"
    using s len l sl_split [of 0 "length d" "length f + length q" b]
      sl_split [of "length d" "length f" "length q" b] by (simp_all add: length_sl add.assoc)
  have x: "count_list d (CHR ''/'') < 31" "url_file_key_parse r \<in> {None, Some SohuM3u8File}"
    using r by (auto simp: key_rule_ok_def)
  have le: "len \<le> length b" "length d + length f \<le> length b"
    "length d + length f + length q < length b" "b ! (length d + length f + length q) = NUL"
    using len l by auto
  have Kl: "length K \<le> length d + length f"
    using keep_segs_length [of "key_flg r" "-1" "d @ f"] by (simp add: K_def)
  have Kd: "HTTP_CACHE_KEY_FILE AND key_flg r \<noteq> 0 \<Longrightarrow> length K \<le> length d"
    using r keep_segs_dir [OF parts] by (simp add: K_def key_rule_ok_def)
  have qq: "q = [] \<or> hd q = CHR ''?''" and f: "f \<noteq> []" using parts by (auto simp: url_parts_def)
  obtain b1 where b1: "key_scan (key_flg r) b 0 len (-1) 0 0 =
      Some (b1, length d, length K, if q = [] then None else Some (length d + length f))"
    "length b1 = length b" "sl b1 0 (length K) = K" "\<And>m. length K \<le> m \<Longrightarrow> b1 ! m = b ! m"
    by (rule scan_phase [OF le(1) s parts x(1) K_def]) blast
  obtain b2 t where b2: "(if HTTP_CACHE_KEY_FILE AND key_flg r \<noteq> 0
        then key_append (url_file_key_parse r) b1 (length K) (length d) (length f) else Some (b1, length K))
        = Some (b2, length (K @ t))"
    "length b2 = length b" "length (K @ t) \<le> length d + length f" "sl b2 0 (length (K @ t)) = K @ t"
    "\<And>m. length d + length f \<le> m \<Longrightarrow> b2 ! m = b ! m"
    and t: "length t = length (file_part r f)" "length (K @ file_part r f) \<le> length d \<or> t = [] \<Longrightarrow> t = file_part r f"
    by (rule file_phase [OF b1(2-4) Kl Kd le(2) x(2) sf(1)]) blast+
  obtain b3 t' where b3: "(if q \<noteq> [] \<and> HTTP_CACHE_KEY_PARA AND key_flg r \<noteq> 0
        then key_append (url_para_key_parse r) b2 (length (K @ t)) (length d + length f) (length q)
        else Some (b2, length (K @ t))) = Some (b3, length ((K @ t) @ t'))"
    "length b3 = length b" "length ((K @ t) @ t') \<le> length d + length f + length q"
    "sl b3 0 (length ((K @ t) @ t')) = (K @ t) @ t'"
    and t': "length t' = length (para_part r q)" "length ((K @ t) @ para_part r q) \<le> length d + length f \<Longrightarrow> t' = para_part r q"
    by (rule para_phase [OF b2(2-5) le(3,4) sf(2) qq, where r = r]) blast+
  define U where "U = (K @ t) @ t'"
  have U: "url_key r d f q = (K @ file_part r f) @ para_part r q" by (simp add: url_key_def K_def file_part_def para_part_def)
  have "ngx_http_snooping_url2local_key b len r = Some (b3[length U := NUL], length U)"
    unfolding url2local_key_steps [OF b1(1) l f] b2(1) U_def using b3(2,3) l len(1)
    by (simp only: bind.bind_lunit prod.case b3(1)) (simp add: wr_def)
  moreover have "length U = length (url_key r d f q)" using t(1) t'(1) by (simp add: U U_def)
  moreover have "U = url_key r d f q" if a: "key_copies_apart r d f q"
  proof -
    have ft: "t = file_part r f" using a t by (auto simp: key_copies_apart_def K_def file_part_def)
    have "t' = para_part r q"
      using a t' b2(3) unfolding ft U key_copies_apart_def by (auto simp: para_part_def)
    then show ?thesis by (simp add: U U_def ft)
  qed
  ultimately show ?thesis using b3 len l unfolding U_def [symmetric]
    by (intro exI [of _ "b3[length U := NUL]"] exI [of _ U]) auto
qed

section \<open>The rules of the tables\<close>

definition all_rules :: "http_cache_url list" where
  "all_rules = http_forbiden_rule # http_cache_file @ concat (map url_cache http_cache_host_url)"

lemma all_rules_file_fn: "\<forall>r \<in> set all_rules. url_file_key_parse r \<in> {None, Some SohuM3u8File}"
  by (simp add: all_rules_def rule_table_defs rule_def host_rule_def)

lemma all_rules_key_flg:
  "\<forall>r \<in> set all_rules. HTTP_CACHE_KEY_FILE AND key_flg r \<noteq> 0 \<longrightarrow>
     key_flg r AND 0x7fc = 0"
  by (simp add: all_rules_def rule_table_defs rule_def host_rule_def http_cache_flag_defs)

lemma all_rules_key_ok:
  assumes "r \<in> set all_rules" "2 \<le> x" "x \<le> 10"
  shows "key_rule_ok r x"
proof -
  have "\<not> bit (key_flg r) x" if "HTTP_CACHE_KEY_FILE AND key_flg r \<noteq> 0"
  proof
    assume "bit (key_flg r) x"
    moreover have "x \<in> {2..10}" using assms by simp
    then have "x \<in> set [2,3,4,5,6,7,8,9,10]" by auto
    then have "bit (0x7fc :: u32) x" by auto
    ultimately have "bit (key_flg r AND 0x7fc) x" by (simp add: bit_and_iff)
    then show False using all_rules_key_flg assms(1) that by simp
  qed
  then show ?thesis using all_rules_file_fn assms by (auto simp: key_rule_ok_def)
qed

section \<open>Too many slashes\<close>

lemma memcpy_in_overflow: "length b < dst + n \<Longrightarrow> 0 < n \<Longrightarrow> memcpy_in b dst src n = None"
  by (auto simp: memcpy_in_def mem_read_def mem_write_def)

lemma keep_segs_all:
  "CHR ''/'' \<notin> set fn \<Longrightarrow> bit kf (nat x) \<Longrightarrow> keep_segs kf x fn = fn"
  by (induction fn) auto

lemma url2local_key_twice:
  assumes "len < length b" "sl b 0 len = d @ f @ q" "url_parts d f q" "count_list d (CHR ''/'') = 12"
    and r: "HTTP_CACHE_KEY_FILE AND key_flg r \<noteq> 0" "url_file_key_parse r = None"
    and big: "length b < 2 * length f"
  shows "ngx_http_snooping_url2local_key b len r = None"
proof -
  define K where "K = keep_segs (key_flg r) (-1) (d @ f)"
  obtain fn where f: "f = CHR ''/'' # fn" "CHR ''/'' \<notin> set fn"
    using assms(3) by (cases f) (auto simp: url_parts_def)
  have l: "len = length d + length f + length q"
    using arg_cong [OF assms(2), of length] assms(1) by (simp add: length_sl)
  have "HTTP_CACHE_KEY_FILE = push_bit 12 1" by (simp add: HTTP_CACHE_KEY_FILE_def)
  then have "bit (key_flg r) 12" using r(1) by (simp add: bit_iff_and_push_bit_not_eq_0 and.commute)
  then have "keep_segs (key_flg r) 11 f = f"
    using keep_segs_all [OF f(2), of "key_flg r" 12] f by simp
  then have K: "length f \<le> length K" by (simp add: K_def keep_segs_append assms(4))
  have le: "len \<le> length b" "count_list d (CHR ''/'') < 31" using assms(1,4) by auto
  obtain b1 where b1: "key_scan (key_flg r) b 0 len (-1) 0 0 =
      Some (b1, length d, length K, if q = [] then None else Some (length d + length f))"
    "length b1 = length b"
    by (rule scan_phase [OF le(1) assms(2,3) le(2) K_def]) blast
  have "memcpy_in b1 (length K) (length d) (length f) = None"
    using K big b1(2) f by (intro memcpy_in_overflow) auto
  then have "key_append None b1 (length K) (length d) (length f) = None"
    by (simp add: key_append_def key_fn_opt_def)
  then show ?thesis
    using url2local_key_steps [OF b1(1) l] f r by simp
qed

section \<open>The local file name\<close>

definition no_dot :: "cstr \<Rightarrow> cstr" where
  "no_dot = map (\<lambda>c. if c = CHR ''.'' then CHR ''_'' else c)"

lemma lfile_host_spec:
  assumes "sl u i n = h @ t" "CHR ''/'' \<notin> set h" "t = [] \<or> hd t = CHR ''/''" "i + n \<le> length u"
    "off + i + length h \<le> length d"
  shows "\<exists>d'. lfile_host u d off i n = Some (d', i + length h) \<and> length d' = length d
    \<and> sl d' (off + i) (length h) = no_dot h
    \<and> (\<forall>m. m < off + i \<or> off + i + length h \<le> m \<longrightarrow> d' ! m = d ! m)"
  using assms
proof (induction n arbitrary: i d h)
  case (Suc n)
  define c where "c = u ! i"
  have c: "rd u i = Some c" "c # sl u (Suc i) n = h @ t" using Suc.prems by (auto simp: c_def rd_def)
  show ?case
  proof (cases h)
    case Nil
    then have "c = CHR ''/''" using c Suc.prems(3) by (cases t) auto
    then show ?thesis using c Nil by (auto simp: no_dot_def)
  next
    case (Cons c' h')
    then have h: "h = c # h'" and s: "sl u (Suc i) n = h' @ t" using c by auto
    define d1 where "d1 = d[off + i := (if c = CHR ''.'' then CHR ''_'' else c)]"
    obtain d' where d': "lfile_host u d1 off (Suc i) n = Some (d', Suc i + length h')" "length d' = length d"
      "sl d' (off + Suc i) (length h') = no_dot h'"
      "\<And>m. m < off + Suc i \<or> off + Suc i + length h' \<le> m \<Longrightarrow> d' ! m = d1 ! m"
    proof -
      have "CHR ''/'' \<notin> set h'" "Suc i + n \<le> length u" "off + Suc i + length h' \<le> length d1"
        using Suc.prems h by (auto simp: d1_def)
      from Suc.IH [OF s this(1) Suc.prems(3) this(2,3)] that show ?thesis
        unfolding d1_def length_list_update by blast
    qed
    have st: "lfile_host u d off i (Suc n) = lfile_host u d1 off (Suc i) n"
      using c(1) h Suc.prems(2,5) by (auto simp: d1_def wr_def)
    have "d' ! (off + i) = (if c = CHR ''.'' then CHR ''_'' else c)"
      using d'(4) [of "off + i"] Suc.prems(5) h by (simp add: d1_def)
    then have "sl d' (off + i) (length h) = no_dot h"
      using d'(2,3) h Suc.prems(5) by (simp add: no_dot_def)
    moreover have "m < off + i \<or> off + i + length h \<le> m \<Longrightarrow> d' ! m = d ! m" for m
      using d'(4) [of m] h by (auto simp: d1_def nth_list_update)
    ultimately show ?thesis using d'(1,2) h unfolding st by auto
  qed
qed (auto simp: no_dot_def)

lemma lfile_path_spec:
  assumes "sl u i n = p @ q" "CHR ''?'' \<notin> set p" "q = [] \<or> hd q = CHR ''?''" "i + n \<le> length u"
    "off + i + length p \<le> length d"
  shows "\<exists>d'. lfile_path u d off i n = Some (d', i + length p, if q = [] then None else Some (i + length p))
    \<and> length d' = length d \<and> sl d' (off + i) (length p) = no_slash p
    \<and> (\<forall>m. m < off + i \<or> off + i + length p \<le> m \<longrightarrow> d' ! m = d ! m)"
  using assms
proof (induction n arbitrary: i d p)
  case (Suc n)
  define c where "c = u ! i"
  have c: "rd u i = Some c" "c # sl u (Suc i) n = p @ q" using Suc.prems by (auto simp: c_def rd_def)
  show ?case
  proof (cases p)
    case Nil
    then have "c = CHR ''?''" using c Suc.prems(3) by (cases q) auto
    then show ?thesis using c Nil by (auto simp: no_slash_def)
  next
    case (Cons c' p')
    then have p: "p = c # p'" and s: "sl u (Suc i) n = p' @ q" using c by auto
    define d1 where "d1 = d[off + i := (if c = CHR ''/'' then CHR ''_'' else c)]"
    obtain d' where d': "lfile_path u d1 off (Suc i) n =
        Some (d', Suc i + length p', if q = [] then None else Some (Suc i + length p'))" "length d' = length d"
      "sl d' (off + Suc i) (length p') = no_slash p'"
      "\<And>m. m < off + Suc i \<or> off + Suc i + length p' \<le> m \<Longrightarrow> d' ! m = d1 ! m"
    proof -
      have "CHR ''?'' \<notin> set p'" "Suc i + n \<le> length u" "off + Suc i + length p' \<le> length d1"
        using Suc.prems p by (auto simp: d1_def)
      from Suc.IH [OF s this(1) Suc.prems(3) this(2,3)] that show ?thesis
        unfolding d1_def length_list_update by blast
    qed
    have st: "lfile_path u d off i (Suc n) = lfile_path u d1 off (Suc i) n"
      using c(1) p Suc.prems(2,5) by (auto simp: d1_def wr_def)
    have "d' ! (off + i) = (if c = CHR ''/'' then CHR ''_'' else c)"
      using d'(4) [of "off + i"] Suc.prems(5) p by (simp add: d1_def)
    then have "sl d' (off + i) (length p) = no_slash p"
      using d'(2,3) p Suc.prems(5) by (simp add: no_slash_def)
    moreover have "m < off + i \<or> off + i + length p \<le> m \<Longrightarrow> d' ! m = d ! m" for m
      using d'(4) [of m] p by (auto simp: d1_def nth_list_update)
    ultimately show ?thesis using d'(1,2) p unfolding st by auto
  qed
qed (auto simp: no_slash_def)

text \<open>The name of the file for the URL \<open>h @ ''/'' @ p @ q\<close>: dots of the host and slashes of the path become
  underscores, and the parsed parameter is added while the name stays below the limit.\<close>

definition lfile_base :: "cstr \<Rightarrow> cstr \<Rightarrow> cstr \<Rightarrow> cstr" where
  "lfile_base h p q = no_dot h @ (if p @ q = [] then [] else CHR ''/'' # no_slash p)"

definition lfile_para :: "http_cache_url \<Rightarrow> nat \<Rightarrow> cstr \<Rightarrow> cstr" where
  "lfile_para r n q =
     (case url_para_key_parse r of
        Some f \<Rightarrow>
          if q \<noteq> [] \<and> key_flg r AND HTTP_CACHE_KEY_PARA \<noteq> 0 \<and> n + length (key_fn_spec f q) < HTTP_SP_LFILE_LEN_MAX
          then key_fn_spec f q else []
      | None \<Rightarrow> [])"

lemma lfile_scan:
  assumes s: "sl u 0 len = h @ CHR ''/'' # p @ q" "len \<le> length u"
    and h: "CHR ''/'' \<notin> set h" "CHR ''?'' \<notin> set p" "q = [] \<or> hd q = CHR ''?''"
    and room: "off + length (lfile_base h p q) \<le> length d"
  obtains d1 d2 where "lfile_host u d off 0 len = Some (d1, length h)"
    "(if Suc (length h) = len then Some (d1, length h, None)
      else do {
        c \<leftarrow> rd u (length h);
        d' \<leftarrow> wr d1 (off + length h) c;
        lfile_path u d' off (Suc (length h)) (len - Suc (length h))
      }) = Some (d2, length (lfile_base h p q), if q = [] then None else Some (len - length q))"
    "length d2 = length d" "sl d2 off (length (lfile_base h p q)) = lfile_base h p q"
proof -
  have l: "len = length h + Suc (length p + length q)"
    using arg_cong [OF s(1), of length] s(2) by (simp add: length_sl)
  have rh: "off + 0 + length h \<le> length d" using room by (simp add: lfile_base_def no_dot_def)
  have le: "0 + len \<le> length u" using s(2) by simp
  have tl: "CHR ''/'' # p @ q = [] \<or> hd (CHR ''/'' # p @ q) = CHR ''/''" by simp
  obtain d1 where d1: "lfile_host u d off 0 len = Some (d1, length h)" "length d1 = length d"
    "sl d1 off (length h) = no_dot h"
    using lfile_host_spec [OF s(1) h(1) tl le rh] by auto
  show ?thesis
  proof (cases "p @ q = []")
    case True
    then show ?thesis using that [OF d1(1), of d1] d1(2,3) l by (simp add: lfile_base_def no_dot_def)
  next
    case False
    have room': "off + length h + Suc (length p) \<le> length d"
      using room False by (auto simp: lfile_base_def no_dot_def no_slash_def split: if_splits)
    have u: "rd u (length h) = Some (CHR ''/'')"
      using nth_sl [of "length h" len 0 u] s l by (simp add: rd_def nth_append)
    have su: "sl u (Suc (length h)) (len - Suc (length h)) = p @ q"
      using drop_sl [of "Suc (length h)" len u 0] s(1) l by simp
    define d' where "d' = d1[off + length h := CHR ''/'']"
    have w: "wr d1 (off + length h) (CHR ''/'') = Some d'"
      using room' d1(2) by (simp add: wr_def d'_def)
    have dl: "length d' = length d" using d1(2) by (simp add: d'_def)
    have le2: "Suc (length h) + (len - Suc (length h)) \<le> length u" "off + Suc (length h) + length p \<le> length d'"
      using s(2) l room' dl by auto
    obtain d2 where d2: "lfile_path u d' off (Suc (length h)) (len - Suc (length h)) =
        Some (d2, Suc (length h) + length p, if q = [] then None else Some (Suc (length h) + length p))"
      "length d2 = length d" "sl d2 (off + Suc (length h)) (length p) = no_slash p"
      "\<And>m. m < off + Suc (length h) \<Longrightarrow> d2 ! m = d' ! m"
      using lfile_path_spec [OF su h(2,3) le2] unfolding dl by blast
    have "sl d2 off (length h) = sl d1 off (length h)"
      using d2(2,4) d1(2) by (intro sl_cong) (auto simp: d'_def)
    moreover have "d2 ! (off + length h) = CHR ''/''"
      using d2(4) [of "off + length h"] room' d1(2) by (simp add: d'_def)
    moreover have "off + length h + Suc (length p) \<le> length d2" using room' d2(2) by simp
    ultimately have "sl d2 off (length h + Suc (length p)) = no_dot h @ CHR ''/'' # no_slash p"
      using sl_split [of off "length h" "Suc (length p)" d2] d2(3) d1(3) by simp
    moreover have "Suc (length h) \<noteq> len" using l False by auto
    ultimately show ?thesis using that [OF d1(1), of d2] d2(1,2) u w l False
      by (auto simp: lfile_base_def no_dot_def no_slash_def)
  qed
qed

lemma lfile_para_step:
  assumes q: "q \<noteq> []" "hd q = CHR ''?''" "length q < length url_para"
  obtains p1 p2 p3 poff where "mem_write url_para 0 q = Some p1" "wr p1 (length q) NUL = Some p2"
    "key_fn_call f p2 0 (length q) = Some (p3, poff, length (key_fn_spec f q))"
    "mem_read p3 poff (length (key_fn_spec f q)) = Some (key_fn_spec f q)"
proof -
  define p1 where "p1 = q @ drop (length q) url_para"
  define p2 where "p2 = p1[length q := NUL]"
  have p2: "0 + length q < length p2" "p2 ! (0 + length q) = NUL" "p2 ! 0 = CHR ''?''"
    "sl p2 0 (length q) = q"
    using q by (auto simp: p2_def p1_def nth_append hd_conv_nth nth_list_update sl_def)
  obtain p3 poff n where r: "key_fn_call f p2 0 (length q) = Some (p3, poff, n)"
    "part_result p2 0 (length q) (key_fn_spec f q) (p3, poff, n)"
    using key_fn_ok [OF p2(1,2), of f] p2(3,4) by auto
  then have "sl p3 poff n = key_fn_spec f q" "poff + n \<le> length p3" using p2(1) by (auto simp: part_result_def)
  then have "n = length (key_fn_spec f q)" "mem_read p3 poff n = Some (key_fn_spec f q)"
    using length_sl [of poff n p3] by (simp_all add: mem_read_sl)
  then show ?thesis using that [of p1 p2 p3 poff] r(1) q(3)
    by (simp add: mem_write_def p1_def p2_def wr_def)
qed

lemma sl_mem_write:
  assumes "off + n \<le> length d" "off + n + length s \<le> length d"
  shows "\<exists>d'. mem_write d (off + n) s = Some d' \<and> length d' = length d
           \<and> sl d' off (n + length s) = sl d off n @ s"
proof -
  define d' where "d' = take (off + n) d @ s @ drop (off + n + length s) d"
  have "mem_write d (off + n) s = Some d'" "length d' = length d"
    using assms by (simp_all add: mem_write_def d'_def)
  moreover have "sl d' off (n + length s) = sl d off n @ s"
    using assms by (simp add: sl_def d'_def take_drop add.commute)
  ultimately show ?thesis by blast
qed

lemma url2local_file_refines:
  assumes s: "sl u 0 len = h @ CHR ''/'' # p @ q" "len \<le> length u"
    and h: "CHR ''/'' \<notin> set h" "CHR ''?'' \<notin> set p" "q = [] \<or> hd q = CHR ''?''"
    and q: "length q < length url_para"
    and n: "name = lfile_base h p q @ lfile_para r (length (lfile_base h p q)) q"
    and room: "off + length name < length d"
  shows "\<exists>d'. ngx_http_snooping_url2local_file url_para u len d off r = Some (d', length name)
           \<and> length d' = length d \<and> sl d' off (length name) = name \<and> d' ! (off + length name) = NUL"
proof -
  define n0 where "n0 = length (lfile_base h p q)"
  have r0: "off + length (lfile_base h p q) \<le> length d" using room n by simp
  obtain d1 d2 where d: "lfile_host u d off 0 len = Some (d1, length h)"
    "(if Suc (length h) = len then Some (d1, length h, None)
      else do {
        c \<leftarrow> rd u (length h);
        d' \<leftarrow> wr d1 (off + length h) c;
        lfile_path u d' off (Suc (length h)) (len - Suc (length h))
      }) = Some (d2, n0, if q = [] then None else Some (len - length q))"
    "length d2 = length d" "sl d2 off n0 = lfile_base h p q"
    unfolding n0_def by (rule lfile_scan [OF s h r0])
  have l: "len = length h + Suc (length p + length q)"
    using arg_cong [OF s(1), of length] s(2) by (simp add: length_sl)
  have su: "mem_read u (len - length q) (length q) = Some q"
    using drop_sl [of "len - length q" len u 0] s l by (simp add: mem_read_sl)
  define k where "k = (\<lambda>(d3 :: buf, len3 :: nat). wr d3 (off + len3) NUL \<bind> (\<lambda>d4. Some (d4, len3)))"
  have fin: "k (d3, length name) = Some (d3[off + length name := NUL], length name)"
    if "length d3 = length d" for d3
    using that room by (simp add: k_def wr_def)
  have goal: ?thesis
    if "ngx_http_snooping_url2local_file url_para u len d off r = k (d3, length name)"
      "length d3 = length d" "sl d3 off (length name) = name" for d3
    using that room fin by simp
  show ?thesis
  proof (cases "lfile_para r n0 q = []")
    case True
    have nm: "length name = n0" using True n by (simp add: n0_def)
    have nb: "name = lfile_base h p q" using True n by (simp add: n0_def)
    have "ngx_http_snooping_url2local_file url_para u len d off r = k (d2, length name)"
    proof (cases "q \<noteq> [] \<and> key_flg r AND HTTP_CACHE_KEY_PARA \<noteq> 0 \<and> url_para_key_parse r \<noteq> None")
      case True
      then obtain f where f: "url_para_key_parse r = Some f" by auto
      have qq: "q \<noteq> []" "hd q = CHR ''?''" using True h(3) by auto
      obtain p1 p2 p3 poff where ps: "mem_write url_para 0 q = Some p1" "wr p1 (length q) NUL = Some p2"
        "key_fn_call f p2 0 (length q) = Some (p3, poff, length (key_fn_spec f q))"
        by (rule lfile_para_step [OF qq q])
      have "\<not> (length (key_fn_spec f q) \<noteq> 0 \<and> n0 + length (key_fn_spec f q) < HTTP_SP_LFILE_LEN_MAX)"
        using \<open>lfile_para r n0 q = []\<close> f True by (auto simp: lfile_para_def split: if_splits)
      then show ?thesis using d(1,2) f True su ps l nm
        by (auto simp: ngx_http_snooping_url2local_file_def k_def)
    qed (use d(1,2) nm in \<open>auto simp: ngx_http_snooping_url2local_file_def k_def split: option.split\<close>)
    then show ?thesis using goal d(3,4) nm nb by simp
  next
    case False
    then obtain f where f: "url_para_key_parse r = Some f" "q \<noteq> []" "key_flg r AND HTTP_CACHE_KEY_PARA \<noteq> 0"
      "n0 + length (key_fn_spec f q) < HTTP_SP_LFILE_LEN_MAX" "lfile_para r n0 q = key_fn_spec f q"
      by (auto simp: lfile_para_def split: if_splits option.splits)
    have qq: "q \<noteq> []" "hd q = CHR ''?''" using f h(3) by auto
    obtain p1 p2 p3 poff where ps: "mem_write url_para 0 q = Some p1" "wr p1 (length q) NUL = Some p2"
      "key_fn_call f p2 0 (length q) = Some (p3, poff, length (key_fn_spec f q))"
      "mem_read p3 poff (length (key_fn_spec f q)) = Some (key_fn_spec f q)"
      by (rule lfile_para_step [OF qq q])
    have nm: "name = lfile_base h p q @ key_fn_spec f q" "length name = n0 + length (key_fn_spec f q)"
      using n f(5) by (simp_all add: n0_def)
    obtain d3 where d3: "mem_write d2 (off + n0) (key_fn_spec f q) = Some d3" "length d3 = length d2"
      "sl d3 off (n0 + length (key_fn_spec f q)) = sl d2 off n0 @ key_fn_spec f q"
      using sl_mem_write [of off n0 d2 "key_fn_spec f q"] room nm d(3) by auto
    have "ngx_http_snooping_url2local_file url_para u len d off r = k (d3, length name)"
      using d(1,2) f False su ps d3(1) l nm(2)
      by (auto simp: ngx_http_snooping_url2local_file_def k_def)
    then show ?thesis using goal d3 d nm by simp
  qed
qed

section \<open>Properties\<close>

text \<open>C7. The computation of the key of a URL \<open>d @ f @ q\<close> inside its buffer: for a rule that does not keep the
  last segment twice, \<open>ngx_http_snooping_url2local_key\<close> makes no access outside the buffer and leaves in
  its front a key, terminated with a NUL, that has the length of the kept segments, the parsed file part and the
  parsed parameter together and is never longer than the URL. The key consists of exactly these three parts if neither of the
  two copies reaches the bytes it copies from. Where they overlap, \<open>memcpy\<close> leaves the bytes undefined, and
  nothing is said about them.\<close>

theorem url2local_key_computes_key:
  assumes "len < length b" "b ! len = NUL" "sl b 0 len = d @ f @ q"
    and "url_parts d f q" "key_rule_ok r (count_list d (CHR ''/''))"
  shows "\<exists>b' k. ngx_http_snooping_url2local_key b len r = Some (b', length k)
    \<and> length b' = length b \<and> sl b' 0 (length k) = k \<and> b' ! length k = NUL
    \<and> length k = length (url_key r d f q) \<and> length k \<le> len
    \<and> (key_copies_apart r d f q \<longrightarrow> k = url_key r d f q)"
  using url2local_key_refines [OF assms] .

definition sohu_url :: cstr where
  "sohu_url = ''/220.181.61.213/ipad?x=1&file=/8/a.mp4&y=2''"

lemma sohu_url_key:
  "url_key (http_cache_file ! 2) ''/220.181.61.213'' ''/ipad'' ''?x=1&file=/8/a.mp4&y=2'' = ''/ipad_file=_8_a.mp4''"
  by code_simp

lemma sohu_url_parts:
  "sl (sohu_url @ [NUL]) 0 (length sohu_url) = ''/220.181.61.213'' @ ''/ipad'' @ ''?x=1&file=/8/a.mp4&y=2''"
  "url_parts ''/220.181.61.213'' ''/ipad'' ''?x=1&file=/8/a.mp4&y=2''"
  "key_rule_ok (http_cache_file ! 2) (count_list ''/220.181.61.213'' (CHR ''/''))"
  by (simp_all add: sl_def sohu_url_def url_parts_def key_rule_ok_def http_cache_file_def rule_def
      http_cache_flag_defs)

lemma sohu_url_apart:
  "key_copies_apart (http_cache_file ! 2) ''/220.181.61.213'' ''/ipad'' ''?x=1&file=/8/a.mp4&y=2''"
  by code_simp

lemma url2local_key_computes_key_witness:
  "\<exists>b'. ngx_http_snooping_url2local_key (sohu_url @ [NUL]) (length sohu_url) (http_cache_file ! 2)
      = Some (b', 19) \<and> sl b' 0 19 = ''/ipad_file=_8_a.mp4''"
proof -
  have "length sohu_url < length (sohu_url @ [NUL])" "(sohu_url @ [NUL]) ! length sohu_url = NUL" by simp_all
  note * = url2local_key_computes_key [OF this sohu_url_parts]
  have "length ''/ipad_file=_8_a.mp4'' = 19" by simp
  with * sohu_url_apart show ?thesis unfolding sohu_url_key by metis
qed

text \<open>In a URL of the shape the first rule of the table is written for, with a file name longer than what is dropped in
  front of it, the copy of the file name overlaps, and the bytes behind the kept segment are those of
  \<open>memcpy_overlap\<close>.\<close>

lemma memcpy_in_overlap:
  assumes "0 < n" "dst < src" "src < dst + n" "src + n \<le> length b"
  shows "memcpy_in b dst src n = Some (take dst b @ map (memcpy_overlap b dst src n) [0..<n] @ drop (dst + n) b)"
  using assms by (simp add: memcpy_in_def mem_read_def mem_write_def)

lemma youku_url_overlap:
  "\<not> key_copies_apart (http_cache_file ! 0) ''/1.2.3.4/youku'' ''/0300200100.flv'' []"
  by code_simp

text \<open>C24. For every rule of the tables and every URL with three to eleven slashes in its path, the key
  computation is memory safe in any buffer that holds the URL and its terminator.\<close>

theorem table_rules_key_safe:
  assumes "r \<in> set all_rules" "len < length b" "b ! len = NUL" "sl b 0 len = d @ f @ q"
    and "url_parts d f q" "2 \<le> count_list d (CHR ''/'')" "count_list d (CHR ''/'') \<le> 10"
  shows "\<exists>b' n. ngx_http_snooping_url2local_key b len r = Some (b', n) \<and> n \<le> len \<and> b' ! n = NUL
           \<and> length b' = length b"
  using url2local_key_refines [OF assms(2-5) all_rules_key_ok [OF assms(1,6,7)]] by metis

lemma table_rules_key_safe_witness:
  "\<exists>b' n. ngx_http_snooping_url2local_key (''/a.com/youku/b.flv'' @ [NUL]) 18 (http_cache_file ! 0) = Some (b', n)"
proof -
  have "http_cache_file ! 0 \<in> set all_rules" by (simp add: all_rules_def http_cache_file_def)
  moreover have "18 < length (''/a.com/youku/b.flv'' @ [NUL])" "(''/a.com/youku/b.flv'' @ [NUL]) ! 18 = NUL"
    "sl (''/a.com/youku/b.flv'' @ [NUL]) 0 18 = ''/a.com/youku'' @ ''/b.flv'' @ []"
    "url_parts ''/a.com/youku'' ''/b.flv'' []" "2 \<le> count_list ''/a.com/youku'' (CHR ''/'')"
    "count_list ''/a.com/youku'' (CHR ''/'') \<le> 10"
    by (simp_all add: sl_def url_parts_def)
  ultimately show ?thesis using table_rules_key_safe by meson
qed

text \<open>C25. A path with thirteen slashes breaks the key computation: the shift count of the last segment is
  the bit of \<open>HTTP_CACHE_KEY_FILE\<close>, so the file name is kept and then appended again, and a file name
  longer than half of the buffer is copied past its end.\<close>

theorem url2local_key_overflow:
  assumes "len < length b" "sl b 0 len = d @ f @ q" "url_parts d f q" "count_list d (CHR ''/'') = 12"
    and "HTTP_CACHE_KEY_FILE AND key_flg r \<noteq> 0" "url_file_key_parse r = None" "length b < 2 * length f"
  shows "ngx_http_snooping_url2local_key b len r = None"
  using url2local_key_twice [OF assms] .

definition long_dir :: cstr where
  "long_dir = ''/a.com/youku/1/2/3/4/5/6/7/8/9/0''"

definition long_file :: cstr where
  "long_file = CHR ''/'' # replicate 300 (CHR ''v'') @ ''.flv''"

lemma url2local_key_overflow_witness:
  "\<exists>b len. length b = HTTP_SP_URL_LEN_MAX \<and> len < 400 \<and> b ! len = NUL
     \<and> ngx_http_snooping_url2local_key b len (http_cache_file ! 0) = None"
proof -
  define b where "b = long_dir @ long_file @ replicate (600 - length (long_dir @ long_file)) NUL"
  define len where "len = length (long_dir @ long_file)"
  have l: "length long_dir = 32" "length long_file = 305" by (simp_all add: long_dir_def long_file_def)
  have b: "length b = 600" "len < length b" "len < 400" "sl b 0 len = long_dir @ long_file @ []"
    by (simp_all add: b_def len_def l sl_def)
  have n: "b ! len = NUL" by (simp add: b_def len_def nth_append l)
  have p: "url_parts long_dir long_file []" "count_list long_dir (CHR ''/'') = 12"
    by (simp_all add: url_parts_def long_dir_def long_file_def)
  have r: "HTTP_CACHE_KEY_FILE AND key_flg (http_cache_file ! 0) \<noteq> 0"
    "url_file_key_parse (http_cache_file ! 0) = None"
    by (simp_all add: http_cache_file_def rule_def http_cache_flag_defs)
  have "length b < 2 * length long_file" by (simp add: b(1) l)
  from url2local_key_overflow [OF b(2,4) p r this] b n show ?thesis
    unfolding HTTP_SP_URL_LEN_MAX_def by blast
qed

text \<open>C17. The local file of the URL \<open>h/p?q\<close> is named as the cache expects, without any access outside the
  buffers: the host with its dots replaced, one slash, the path with its slashes replaced, and the parsed
  parameter of a rule that asks for it as long as the name stays below 256 bytes; the name is terminated.
  A URL that ends in the slash behind its host is named by the host alone.\<close>

theorem url2local_file_name:
  assumes "sl u 0 len = h @ CHR ''/'' # p @ q" "len \<le> length u"
    and "CHR ''/'' \<notin> set h" "CHR ''?'' \<notin> set p" "q = [] \<or> hd q = CHR ''?''"
    and "length q < length url_para"
    and "name = lfile_base h p q @ lfile_para r (length (lfile_base h p q)) q"
    and "off + length name < length d"
  shows "\<exists>d'. ngx_http_snooping_url2local_file url_para u len d off r = Some (d', length name)
           \<and> length d' = length d \<and> sl d' off (length name) = name \<and> d' ! (off + length name) = NUL"
  using url2local_file_refines [OF assms] .

lemma lfile_example:
  "lfile_base ''pl.youku.com'' ''m3u8/x'' ''?a&vid=7&t=1&ts=9'' @
     lfile_para (hd http_pl_youku_flvpath_url_str)
       (length (lfile_base ''pl.youku.com'' ''m3u8/x'' ''?a&vid=7&t=1&ts=9'')) ''?a&vid=7&t=1&ts=9''
   = ''pl_youku_com/m3u8_x_vid=7&t=1''"
  by code_simp

lemma url2local_file_name_witness:
  "\<exists>d'. ngx_http_snooping_url2local_file (replicate 600 NUL) ''pl.youku.com/m3u8/x?a&vid=7&t=1&ts=9''
          36 (replicate 600 NUL) 0 (hd http_pl_youku_flvpath_url_str) = Some (d', 29)
      \<and> sl d' 0 29 = ''pl_youku_com/m3u8_x_vid=7&t=1''"
proof -
  have "sl ''pl.youku.com/m3u8/x?a&vid=7&t=1&ts=9'' 0 36 =
      ''pl.youku.com'' @ CHR ''/'' # ''m3u8/x'' @ ''?a&vid=7&t=1&ts=9''"
    "(36 :: nat) \<le> length ''pl.youku.com/m3u8/x?a&vid=7&t=1&ts=9''"
    "CHR ''/'' \<notin> set ''pl.youku.com''" "CHR ''?'' \<notin> set ''m3u8/x''"
    "''?a&vid=7&t=1&ts=9'' = [] \<or> hd ''?a&vid=7&t=1&ts=9'' = CHR ''?''"
    "length ''?a&vid=7&t=1&ts=9'' < length (replicate 600 NUL)"
    by (simp_all add: sl_def)
  note * = url2local_file_name [OF this lfile_example [symmetric]]
  have l: "length ''pl_youku_com/m3u8_x_vid=7&t=1'' = 29" by simp
  then have "0 + length ''pl_youku_com/m3u8_x_vid=7&t=1'' < length (replicate 600 NUL)" by simp
  from * [OF this] show ?thesis unfolding l by blast
qed

end
