(* ===== verification/SnoopMime.thy ===== *)
theory SnoopMime
  imports SnoopRules
begin

text \<open>
  The MIME table of \<^verbatim>\<open>http-snooping.c\<close>, the tree that initialisation builds from it and the lookup of
  a content type. The comparison function of the tree passes the \<open>ngx_str_t\<close> structures themselves, not
  the strings they point to, to \<open>strcmp\<close>; the model therefore compares the bytes of the structures as
  they lie in memory on the big-endian target: four bytes of length, four bytes of address. The
  addresses of the strings are a parameter \<open>addr\<close>.
\<close>

record http_mime_type_t =
  mime_type :: cstr
  postfix :: cstr

definition http_mime_type :: "http_mime_type_t list" where
  "http_mime_type = map (\<lambda>(m, p). \<lparr>mime_type = m, postfix = p\<rparr>)
    [(''text/html'', ''.html''),
     (''text/html'', ''.htm''),
     (''text/html'', ''.shtml''),
     (''text/css'', ''.css''),
     (''text/xml'', ''.xml''),
     (''image/gif'', ''.gif''),
     (''image/jpeg'', ''.jpeg''),
     (''image/jpeg'', ''.jpg''),
     (''application/javascript'', ''.js''),
     (''application/atom+xml'', ''.atom''),
     (''application/rss+xml'', ''.rss''),
     (''text/mathml'', ''.mml''),
     (''text/plain'', ''.txt''),
     (''text/vnd.sun.j2me.app-descriptor'', ''.jad''),
     (''text/vnd.wap.wml'', ''.wml''),
     (''text/x-component'', ''.htc''),
     (''image/png'', ''.png''),
     (''image/tiff'', ''.tif''),
     (''image/tiff'', ''.tiff''),
     (''image/vnd.wap.wbmp'', ''.wbmp''),
     (''image/x-icon'', ''.ico''),
     (''image/x-jng'', ''.jng''),
     (''image/x-ms-bmp'', ''.bmp''),
     (''image/svg+xml'', ''.svg''),
     (''image/svg+xml'', ''.svgz''),
     (''image/webp'', ''.webp''),
     (''application/font-woff'', ''.woff''),
     (''application/java-archive'', ''.jar''),
     (''application/java-archive'', ''.war''),
     (''application/java-archive'', ''.ear''),
     (''application/json'', ''.json''),
     (''application/mac-binhex40'', ''.hqx''),
     (''application/msword'', ''.doc''),
     (''application/pdf'', ''.pdf''),
     (''application/postscript'', ''.ps''),
     (''application/postscript'', ''.eps''),
     (''application/postscript'', ''.ai''),
     (''application/rtf'', ''.rtf''),
     (''application/vnd.ms-excel'', ''.xls''),
     (''application/vnd.ms-fontobject'', ''.eot''),
     (''application/vnd.ms-powerpoint'', ''.ppt''),
     (''application/vnd.wap.wmlc'', ''.wmlc''),
     (''application/vnd.google-earth.kml+xml'', ''.kml''),
     (''application/vnd.google-earth.kmz'', ''.kmz''),
     (''application/x-7z-compressed'', ''.7z''),
     (''application/x-cocoa'', ''.cco''),
     (''application/x-java-archive-diff'', ''.jardiff''),
     (''application/x-java-jnlp-file'', ''.jnlp''),
     (''application/x-makeself'', ''.run''),
     (''application/x-perl'', ''.pl''),
     (''application/x-perl'', ''.pm''),
     (''application/x-pilot'', ''.prc''),
     (''application/x-pilot'', ''.pdb''),
     (''application/x-rar-compressed'', ''.rar''),
     (''application/x-redhat-package-manager'', ''.rpm''),
     (''application/x-sea'', ''.sea''),
     (''application/x-shockwave-flash'', ''.swf''),
     (''application/x-stuffit'', ''.sit''),
     (''application/x-tcl'', ''.tcl''),
     (''application/x-tcl'', ''.tk''),
     (''application/x-x509-ca-cert'', ''.der''),
     (''application/x-x509-ca-cert'', ''.pem''),
     (''application/x-x509-ca-cert'', ''.crt''),
     (''application/x-xpinstall'', ''.xpi''),
     (''application/xhtml+xml'', ''.xhtml''),
     (''application/zip'', ''.zip''),
     (''application/octet-stream'', ''.bin''),
     (''application/octet-stream'', ''.dll''),
     (''application/octet-stream'', ''.exe''),
     (''application/octet-stream'', ''.deb''),
     (''application/octet-stream'', ''.dmg''),
     (''application/octet-stream'', ''.iso''),
     (''application/octet-stream'', ''.img''),
     (''application/octet-stream'', ''.msi''),
     (''application/octet-stream'', ''.msp''),
     (''application/octet-stream'', ''.msm''),
     (''application/vnd.openxmlformats-officedocument.wordprocessingml.document'', ''.docx''),
     (''application/vnd.openxmlformats-officedocument.spreadsheetml.sheet'', ''.xlsx''),
     (''application/vnd.openxmlformats-officedocument.presentationml.presentation'', ''.pptx''),
     (''audio/midi'', ''.mid''),
     (''audio/midi'', ''.midi''),
     (''audio/midi'', ''.kar''),
     (''audio/mpeg'', ''.mp3''),
     (''audio/ogg'', ''.ogg''),
     (''audio/x-m4a'', ''m4a''),
     (''audio/x-realaudio'', ''.ra''),
     (''video/3gpp'', ''.3gpp''),
     (''video/3gpp'', ''.3gp''),
     (''video/mp2t'', ''.mp2''),
     (''video/mpeg'', ''.mp2''),
     (''video/mpeg'', ''.mp3''),
     (''video/mp4'', ''.mp4''),
     (''video/mpeg'', ''.mpeg''),
     (''video/mpeg'', ''.mpg''),
     (''video/quicktime'', ''.mov''),
     (''video/webm'', ''.webm''),
     (''video/x-flv'', ''.flv''),
     (''video/x-m4v'', ''.m4v''),
     (''video/x-mng'', ''.mng''),
     (''video/x-ms-asf'', ''.asx''),
     (''video/x-ms-asf'', ''.asf''),
     (''video/x-ms-wmv'', ''.wmv''),
     (''video/x-msvideo'', ''.avi'')]"

definition http_mime_null :: http_mime_type_t where
  "http_mime_null = \<lparr>mime_type = [], postfix = []\<rparr>"

definition ngx_str_bytes :: "(cstr \<Rightarrow> u32) \<Rightarrow> cstr \<Rightarrow> buf" where
  "ngx_str_bytes addr s = be32 (of_nat (length s)) @ be32 (addr s)"

definition http_snooping_mime_cmp :: "(cstr \<Rightarrow> u32) \<Rightarrow> http_mime_type_t \<Rightarrow> cstr \<Rightarrow> int" where
  "http_snooping_mime_cmp addr node key =
     c_strcmp (ngx_str_bytes addr (mime_type node)) (ngx_str_bytes addr key)"

text \<open>The loop of \<open>ngx_http_snooping_init\<close> that fills the tree.\<close>

fun insert_mimes ::
  "(cstr \<Rightarrow> u32) \<Rightarrow> http_mime_type_t avl_node \<Rightarrow> http_mime_type_t list
     \<Rightarrow> http_mime_type_t avl_node option" where
  "insert_mimes addr tree [] = Some tree"
| "insert_mimes addr tree (p # ps) =
     (case avlInsert (http_snooping_mime_cmp addr) tree p (mime_type p) of
        None \<Rightarrow> None
      | Some (_, tree') \<Rightarrow> insert_mimes addr tree' ps)"

definition ngx_http_url_mime_type ::
  "(cstr \<Rightarrow> u32) \<Rightarrow> http_mime_type_t avl_node \<Rightarrow> cstr \<Rightarrow> http_mime_type_t" where
  "ngx_http_url_mime_type addr http_mime_tree content_type =
     (case avlSearch (http_snooping_mime_cmp addr) http_mime_tree content_type of
        None \<Rightarrow> http_mime_null
      | Some pmime \<Rightarrow> pmime)"

section \<open>The comparison only sees the first byte of the lengths\<close>

lemma ngx_str_bytes_hd:
  assumes "length s < 2 ^ 24"
  shows "\<exists>bs. ngx_str_bytes addr s = NUL # bs"
proof -
  have "unat (of_nat (length s) :: u32) = length s"
    using assms by (simp add: unat_of_nat)
  with be32_hd [of "of_nat (length s)"] assms show ?thesis
    by (auto simp: ngx_str_bytes_def be32_def)
qed

lemma mime_cmp_zero:
  assumes "length (mime_type node) < 2 ^ 24" "length key < 2 ^ 24"
  shows "http_snooping_mime_cmp addr node key = 0"
  using ngx_str_bytes_hd [OF assms(1), of addr] ngx_str_bytes_hd [OF assms(2), of addr]
  by (auto simp: http_snooping_mime_cmp_def)

lemma insert_mimes_single:
  assumes "length (mime_type m) < 2 ^ 24" "\<And>p. p \<in> set ps \<Longrightarrow> length (mime_type p) < 2 ^ 24"
  shows "insert_mimes addr (AVL_NODE NULL 1 m NULL) ps = Some (AVL_NODE NULL 1 m NULL)"
  using assms(2)
proof (induction ps)
  case (Cons p ps)
  then show ?case
    using mime_cmp_zero [OF assms(1), of "mime_type p" addr]
    by (simp add: avlInsert_def AVL_MAX_HEIGHT_def)
qed simp

lemma http_mime_type_lengths: "\<forall>p \<in> set http_mime_type. length (mime_type p) < 100"
  by (simp add: http_mime_type_def)

lemma http_mime_tree_eq:
  "insert_mimes addr NULL http_mime_type = Some (AVL_NODE NULL 1 (hd http_mime_type) NULL)"
proof -
  obtain m ps where m: "http_mime_type = m # ps" by (simp add: http_mime_type_def)
  have "\<forall>p \<in> set (m # ps). length (mime_type p) < 2 ^ 24"
    using http_mime_type_lengths unfolding m by fastforce
  then have "insert_mimes addr (AVL_NODE NULL 1 m NULL) ps = Some (AVL_NODE NULL 1 m NULL)"
    by (intro insert_mimes_single) auto
  then show ?thesis unfolding m by (simp add: avlInsert_def)
qed

text \<open>C26. Every content type of a response is given the first entry of the MIME table, so every cached
  resource whose type decides its post-fix is stored as \<open>.html\<close>: the comparison function compares the
  length fields, whose first byte on the big-endian target is zero for every string shorter than 16 MB,
  and the tree built from the table holds one node only.\<close>

theorem mime_lookup_always_first:
  assumes "length content_type < 2 ^ 24"
  shows "\<exists>tree. insert_mimes addr NULL http_mime_type = Some tree
           \<and> inorder tree = [hd http_mime_type]
           \<and> ngx_http_url_mime_type addr tree content_type = hd http_mime_type
           \<and> postfix (ngx_http_url_mime_type addr tree content_type) = ''.html''"
proof -
  have "length (mime_type (hd http_mime_type)) < 2 ^ 24" by (simp add: http_mime_type_def)
  from mime_cmp_zero [OF this assms] show ?thesis
    by (simp add: http_mime_tree_eq ngx_http_url_mime_type_def) (simp add: http_mime_type_def)
qed

lemma mime_lookup_always_first_witness:
  "\<exists>tree. insert_mimes (\<lambda>_. 0x80001000) NULL http_mime_type = Some tree
     \<and> postfix (ngx_http_url_mime_type (\<lambda>_. 0x80001000) tree ''image/png'') = ''.html''"
proof -
  have "length ''image/png'' < (2 :: nat) ^ 24" by simp
  from mime_lookup_always_first [OF this, of "\<lambda>_. 0x80001000"] show ?thesis by blast
qed

end
