(* ===== verification/SnoopUrls.thy ===== *)
theory SnoopUrls
  imports SnoopKeys SnoopMime "HOL-Library.Signed_Division" "HOL-Library.Multiset"
begin

text \<open>
  The URL table of \<^verbatim>\<open>http-snooping.c\<close>: a pool of 32768 nodes that is split into a free list and a use
  list, a hash table over the keys of the used nodes, and the wheel of twenty lists from which the write
  task takes nodes. A node is named by its index in \<open>url_base\<close>, a kernel list is the list of the indices
  linked into it; \<open>list_add\<close> puts an index in front, \<open>list_add_tail\<close> at the end. The global variables
  \<open>ngx_write_tick\<close>, \<open>ngx_server_addr\<close> and \<open>jiffies\<close> are fields of the context. The spin locks protect
  each operation as a whole; the operations are therefore single steps here and the locks have no state.
\<close>

section \<open>Constants, nodes and the context\<close>

definition HTTP_SP_URL_MAX :: nat where
  "HTTP_SP_URL_MAX = 32 * 1024"

definition HTTP_CACHE_TIME_OUT :: nat where
  "HTTP_CACHE_TIME_OUT = 20"

definition HTTP_SNOOPING_FLG_RES :: u32 where
  "HTTP_SNOOPING_FLG_RES = push_bit 0 1"

definition HTTP_SNOOPING_FLG_CACHE_LIST :: u32 where
  "HTTP_SNOOPING_FLG_CACHE_LIST = push_bit 2 1"

definition HTTP_SNOOPING_FLG_URL_HASH :: u32 where
  "HTTP_SNOOPING_FLG_URL_HASH = push_bit 3 1"

definition HTTP_SNOOPING_FLG_RES_LFB :: u32 where
  "HTTP_SNOOPING_FLG_RES_LFB = push_bit 7 1"

definition HTTP_SNOOPING_FLG_RES_LFOK :: u32 where
  "HTTP_SNOOPING_FLG_RES_LFOK = push_bit 8 1"

definition HTTP_SNOOPING_FLG_RES_LFN :: u32 where
  "HTTP_SNOOPING_FLG_RES_LFN = push_bit 9 1"

definition HTTP_SNOOPING_FLG_RES_LFP :: u32 where
  "HTTP_SNOOPING_FLG_RES_LFP = push_bit 10 1"

definition HTTP_SNOOPING_FLG_CACHE_BUF_ALLOC :: u32 where
  "HTTP_SNOOPING_FLG_CACHE_BUF_ALLOC = push_bit 11 1"

definition HTTP_SNOOPING_FLG_RES_CACHE :: u32 where
  "HTTP_SNOOPING_FLG_RES_CACHE = push_bit 12 1"

definition HTTP_SNOOPING_FLG_RES_WRITE :: u32 where
  "HTTP_SNOOPING_FLG_RES_WRITE = push_bit 13 1"

definition HTTP_SNOOPING_FLG_NGX_DOWN :: u32 where
  "HTTP_SNOOPING_FLG_NGX_DOWN = push_bit 14 1"

definition HTTP_SNOOPING_FLG_NGX_PARSE_OK :: u32 where
  "HTTP_SNOOPING_FLG_NGX_PARSE_OK = push_bit 15 1"

definition HTTP_SNOOPING_FLG_NGX_WAIT_RESPNOSE :: u32 where
  "HTTP_SNOOPING_FLG_NGX_WAIT_RESPNOSE = push_bit 16 1"

lemmas snoop_flag_defs =
  HTTP_SNOOPING_FLG_RES_def HTTP_SNOOPING_FLG_CACHE_LIST_def HTTP_SNOOPING_FLG_URL_HASH_def
  HTTP_SNOOPING_FLG_RES_LFB_def HTTP_SNOOPING_FLG_RES_LFOK_def HTTP_SNOOPING_FLG_RES_LFN_def
  HTTP_SNOOPING_FLG_RES_LFP_def HTTP_SNOOPING_FLG_CACHE_BUF_ALLOC_def HTTP_SNOOPING_FLG_RES_CACHE_def
  HTTP_SNOOPING_FLG_RES_WRITE_def HTTP_SNOOPING_FLG_NGX_DOWN_def HTTP_SNOOPING_FLG_NGX_PARSE_OK_def
  HTTP_SNOOPING_FLG_NGX_WAIT_RESPNOSE_def

definition HTTP_LOCAL_DOWN_STATE_INIT :: u8 where
  "HTTP_LOCAL_DOWN_STATE_INIT = 0"

definition HTTP_LOCAL_DOWN_STATE_OK :: u8 where
  "HTTP_LOCAL_DOWN_STATE_OK = 1"

definition HTTP_LOCAL_DOWN_STATE_ERROR :: u8 where
  "HTTP_LOCAL_DOWN_STATE_ERROR = 2"

definition HTTP_ECODING_TYPE_NONE :: u8 where
  "HTTP_ECODING_TYPE_NONE = 0"

definition HTTP_C2SP_ACTION_GET :: u8 where
  "HTTP_C2SP_ACTION_GET = 1"

definition HTTP_C2SP_ACTION_ADD :: u8 where
  "HTTP_C2SP_ACTION_ADD = 3"

definition HTTP_C2SP_ACTION_DELETE :: u8 where
  "HTTP_C2SP_ACTION_DELETE = 4"

text \<open>A node: \<open>url_buf\<close> is the text in the buffer of that name, of which the server name is the first
  \<open>server_name_len\<close> bytes and the resource the \<open>res_url_len\<close> bytes behind them; \<open>file_key_name\<close> is the
  key in \<open>key_buf\<close>; \<open>data_buf_list\<close> lists the data buffers of the node.\<close>

record http_snooping_url =
  url_flags :: u32
  url_buf :: cstr
  server_name_len :: nat
  res_url_len :: nat
  file_key_name :: cstr
  redirect_addr :: u32
  url_res_len :: int
  url_data_len :: int
  url_encoding :: u8
  data_start :: u8
  url_access_num :: u16
  write_error_num :: u16
  local_down_state :: u8
  url_action :: u8
  pkt_send_tick :: u32
  node_mime :: http_mime_type_t
  pcache_rule :: "http_cache_url option"
  data_buf_list :: "nat list"
  url_data_current :: "nat option"

record http_snooping_buf =
  buf_len :: nat
  buf_data :: buf

record http_snooping_ctx =
  url_base :: "nat \<Rightarrow> http_snooping_url"
  url_free :: int
  url_free_list :: "nat list"
  url_use_list :: "nat list"
  url_hash :: "nat \<Rightarrow> nat list"
  url_cache_list :: "nat \<Rightarrow> nat list"
  cache_num :: u16
  buf_num :: u16
  data_buf_free_list :: "nat list"
  data_buf :: "nat \<Rightarrow> http_snooping_buf"
  ngx_write_tick :: u32
  ngx_server_addr :: u32
  jiffies :: u32

definition upd_url :: "http_snooping_ctx \<Rightarrow> nat \<Rightarrow> (http_snooping_url \<Rightarrow> http_snooping_url) \<Rightarrow> http_snooping_ctx" where
  "upd_url ctx n f = ctx\<lparr>url_base := (url_base ctx)(n := f (url_base ctx n))\<rparr>"

definition set_flg :: "u32 \<Rightarrow> http_snooping_url \<Rightarrow> http_snooping_url" where
  "set_flg f v = v\<lparr>url_flags := url_flags v OR f\<rparr>"

definition clear_flg :: "u32 \<Rightarrow> http_snooping_url \<Rightarrow> http_snooping_url" where
  "clear_flg f v = v\<lparr>url_flags := url_flags v AND NOT f\<rparr>"

definition has_flg :: "u32 \<Rightarrow> http_snooping_url \<Rightarrow> bool" where
  "has_flg f v \<longleftrightarrow> url_flags v AND f \<noteq> 0"

section \<open>The hash table\<close>

definition ngx_hash_key :: "cstr \<Rightarrow> u32" where
  "ngx_hash_key s = foldl (\<lambda>key c. key * 31 + of_char c) 0 s"

definition url_bucket :: "cstr \<Rightarrow> nat" where
  "url_bucket k = unat (ngx_hash_key k) mod HTTP_SP_URL_MAX"

definition ngx_http_snooping_url_hash_find :: "http_snooping_ctx \<Rightarrow> cstr \<Rightarrow> nat option" where
  "ngx_http_snooping_url_hash_find ctx url_name =
     List.find (\<lambda>n. length url_name = length (file_key_name (url_base ctx n))
                 \<and> c_strncmp (length url_name) (file_key_name (url_base ctx n)) url_name = 0)
       (url_hash ctx (url_bucket url_name))"

definition ngx_http_snooping_url_hash_add :: "http_snooping_ctx \<Rightarrow> nat \<Rightarrow> http_snooping_ctx" where
  "ngx_http_snooping_url_hash_add ctx n =
     (let h = url_bucket (file_key_name (url_base ctx n)) in
      upd_url (ctx\<lparr>url_hash := (url_hash ctx)(h := url_hash ctx h @ [n])\<rparr>) n
        (set_flg HTTP_SNOOPING_FLG_URL_HASH))"

definition ngx_http_snooping_url_hash_del :: "http_snooping_ctx \<Rightarrow> nat \<Rightarrow> http_snooping_ctx" where
  "ngx_http_snooping_url_hash_del ctx n =
     (let h = url_bucket (file_key_name (url_base ctx n)) in
      upd_url (ctx\<lparr>url_hash := (url_hash ctx)(h := remove1 n (url_hash ctx h))\<rparr>) n
        (clear_flg HTTP_SNOOPING_FLG_URL_HASH))"

section \<open>The wheel of nodes to write\<close>

definition http_url_cache_add :: "http_snooping_ctx \<Rightarrow> nat \<Rightarrow> u32 \<Rightarrow> http_snooping_ctx" where
  "http_url_cache_add ctx n tick =
     (if \<not> has_flg HTTP_SNOOPING_FLG_CACHE_LIST (url_base ctx n)
      then let s = unat (ngx_write_tick ctx + tick) mod HTTP_CACHE_TIME_OUT in
        upd_url (ctx\<lparr>url_cache_list := (url_cache_list ctx)(s := url_cache_list ctx s @ [n]),
                     cache_num := cache_num ctx + 1\<rparr>) n
          (set_flg HTTP_SNOOPING_FLG_CACHE_LIST)
      else ctx)"

definition http_url_cache_data_add :: "http_snooping_ctx \<Rightarrow> nat \<Rightarrow> u32 \<Rightarrow> http_snooping_ctx" where
  "http_url_cache_data_add ctx n tick =
     (if \<not> has_flg HTTP_SNOOPING_FLG_CACHE_LIST (url_base ctx n)
      then let s = unat (ngx_write_tick ctx + tick) mod HTTP_CACHE_TIME_OUT in
        upd_url (ctx\<lparr>url_cache_list := (url_cache_list ctx)(s := url_cache_list ctx s @ [n]),
                     cache_num := cache_num ctx + 1\<rparr>) n
          (set_flg HTTP_SNOOPING_FLG_CACHE_LIST)
      else ctx)"

text \<open>The slot is the remainder of a signed number: a negative one is an index outside the array.\<close>

definition http_url_cache_get :: "http_snooping_ctx \<Rightarrow> (nat option \<times> http_snooping_ctx) option" where
  "http_url_cache_get ctx =
     (let r = sint (ngx_write_tick ctx) smod int HTTP_CACHE_TIME_OUT; s = nat r in
      if r < 0 then None
      else case url_cache_list ctx s of
        [] \<Rightarrow> Some (None, ctx)
      | n # ns \<Rightarrow>
          Some (Some n, upd_url (ctx\<lparr>url_cache_list := (url_cache_list ctx)(s := ns),
                                     cache_num := cache_num ctx - 1\<rparr>) n
                          (clear_flg HTTP_SNOOPING_FLG_CACHE_LIST)))"

section \<open>Looking a URL up, adding and deleting it\<close>

text \<open>The key of a URL, computed in a stack buffer of \<open>sz\<close> bytes that holds a slash, the URL and a
  terminator.\<close>

definition url_tmp_key :: "nat \<Rightarrow> cstr \<Rightarrow> http_cache_url \<Rightarrow> cstr option" where
  "url_tmp_key sz url r =
     (if sz \<le> length url + 1 then None
      else do {
        (b, n) \<leftarrow> ngx_http_snooping_url2local_key
                   (CHR ''/'' # url @ replicate (sz - 1 - length url) NUL) (length url + 1) r;
        mem_read b 0 n
      })"

type_synonym host_tree = "http_cache_host_url_t avl_node"

definition ngx_http_sp_urlid_get :: "host_tree \<Rightarrow> http_snooping_ctx \<Rightarrow> cstr option \<Rightarrow> int option" where
  "ngx_http_sp_urlid_get tree ctx url_name =
     (case url_name of
        None \<Rightarrow> Some (-1)
      | Some url \<Rightarrow>
          if length url > HTTP_SP_URL_LEN_MAX - 1 then Some (-1)
          else case ngx_http_url_rule_get tree url of
            None \<Rightarrow> Some (-1)
          | Some r \<Rightarrow> do {
              k \<leftarrow> url_tmp_key HTTP_SP_URL_LEN_MAX url r;
              if length k \<ge> HTTP_SP_LFILE_LEN_MAX then Some (-1)
              else case ngx_http_snooping_url_hash_find ctx k of
                None \<Rightarrow> Some (-1)
              | Some n \<Rightarrow> Some (int n)
            })"

definition NGX_HTTP_URLID_VALID :: "int \<Rightarrow> bool" where
  "NGX_HTTP_URLID_VALID url_id \<longleftrightarrow> 0 \<le> url_id \<and> url_id < int HTTP_SP_URL_MAX"

definition ngx_http_sp_url_state_setby_id :: "http_snooping_ctx \<Rightarrow> int \<Rightarrow> u8 \<Rightarrow> http_snooping_ctx" where
  "ngx_http_sp_url_state_setby_id ctx url_id state =
     (if \<not> NGX_HTTP_URLID_VALID url_id then ctx
      else let n = nat url_id in
        if \<not> has_flg HTTP_SNOOPING_FLG_RES (url_base ctx n) then ctx
        else if state = HTTP_LOCAL_DOWN_STATE_OK
        then http_url_cache_add
               (upd_url ctx n (\<lambda>v. set_flg HTTP_SNOOPING_FLG_NGX_DOWN v
                  \<lparr>local_down_state := HTTP_LOCAL_DOWN_STATE_OK, url_action := HTTP_C2SP_ACTION_ADD\<rparr>)) n 0
        else if state = HTTP_LOCAL_DOWN_STATE_ERROR
        then http_url_cache_add
               (upd_url ctx n (\<lambda>v. v\<lparr>local_down_state := HTTP_LOCAL_DOWN_STATE_INIT\<rparr>)) n 11
        else upd_url ctx n (\<lambda>v. v\<lparr>local_down_state := HTTP_LOCAL_DOWN_STATE_INIT\<rparr>))"

definition ngx_http_sp_url_state_setby_name ::
  "host_tree \<Rightarrow> http_snooping_ctx \<Rightarrow> cstr option \<Rightarrow> u8 \<Rightarrow> http_snooping_ctx option" where
  "ngx_http_sp_url_state_setby_name tree ctx url_name state =
     do {
       url_id \<leftarrow> ngx_http_sp_urlid_get tree ctx url_name;
       Some (if NGX_HTTP_URLID_VALID url_id then ngx_http_sp_url_state_setby_id ctx url_id state else ctx)
     }"

text \<open>The result is the error step and, where it is 0, the file name in the caller's buffer.\<close>

definition ngx_http_sp_id2fpath ::
  "buf \<Rightarrow> http_snooping_ctx \<Rightarrow> int \<Rightarrow> buf option \<Rightarrow> (nat \<times> (buf \<times> nat) option) option" where
  "ngx_http_sp_id2fpath url_para ctx url_id pFileBuf =
     (if \<not> NGX_HTTP_URLID_VALID url_id then Some (1, None)
      else let v = url_base ctx (nat url_id) in
        if \<not> has_flg HTTP_SNOOPING_FLG_RES v then Some (2, None)
        else case pFileBuf of
          None \<Rightarrow> Some (3, None)
        | Some d \<Rightarrow>
            if length d < HTTP_SP_URL_LEN_MAX then Some (3, None)
            else do {
              r \<leftarrow> pcache_rule v;
              f \<leftarrow> ngx_http_snooping_url2local_file url_para (url_buf v @ [NUL]) (length (c_str (url_buf v))) d 0 r;
              Some (0, Some f)
            })"

text \<open>Taking a node: the head of the free list is moved to the front of the use list. With \<open>url_free\<close>
  positive and an empty free list the code would take the list head itself for a node.\<close>

definition url_take :: "http_snooping_ctx \<Rightarrow> (nat \<times> http_snooping_ctx) option" where
  "url_take ctx =
     (case url_free_list ctx of
        [] \<Rightarrow> None
      | n # fs \<Rightarrow>
          Some (n, ctx\<lparr>url_free_list := fs, url_use_list := n # url_use_list ctx,
                       url_free := url_free ctx - 1\<rparr>))"

text \<open>The part of a URL before its first slash.\<close>

definition url_server_len :: "cstr \<Rightarrow> nat" where
  "url_server_len url = length (takeWhile (\<lambda>c. c \<noteq> CHR ''/'') url)"

text \<open>The branch of \<open>HTTP_C2SP_ACTION_ADD\<close> for a URL that is not known, and the two actions.\<close>

definition url_handle_new ::
  "http_snooping_ctx \<Rightarrow> cstr \<Rightarrow> http_cache_url \<Rightarrow> cstr \<Rightarrow> (int \<times> http_snooping_ctx) option" where
  "url_handle_new ctx url r k =
     (if url_free ctx > 0 then do {
        (n, ctx1) \<leftarrow> url_take ctx;
        let ctx2 = upd_url ctx1 n (\<lambda>v. v\<lparr>url_flags := 0, file_key_name := k,
                     pcache_rule := Some r, redirect_addr := ngx_server_addr ctx1,
                     url_encoding := HTTP_ECODING_TYPE_NONE\<rparr>);
        let ctx3 = ngx_http_snooping_url_hash_add ctx2 n;
        let ctx4 = upd_url ctx3 n (\<lambda>v. set_flg HTTP_SNOOPING_FLG_RES v
                     \<lparr>write_error_num := 0, node_mime := http_mime_null\<rparr>);
        let ctx5 = upd_url ctx4 n (\<lambda>v. set_flg HTTP_SNOOPING_FLG_RES_LFB v
                     \<lparr>pkt_send_tick := jiffies ctx4, data_buf_list := [], url_buf := url,
                       server_name_len := url_server_len url,
                       res_url_len := length url - url_server_len url,
                       url_access_num := 1\<rparr>);
        Some (int n, ctx5)
      }
      else Some (-1, ctx))"

definition url_handle_action ::
  "http_snooping_ctx \<Rightarrow> cstr \<Rightarrow> http_cache_url \<Rightarrow> cstr \<Rightarrow> u8 \<Rightarrow> (int \<times> http_snooping_ctx) option" where
  "url_handle_action ctx url r k action =
     (let found = ngx_http_snooping_url_hash_find ctx k in
      if action = HTTP_C2SP_ACTION_ADD then
        (case found of
           None \<Rightarrow> url_handle_new ctx url r k
         | Some n \<Rightarrow> Some (int n, upd_url ctx n (\<lambda>v. v\<lparr>url_access_num := url_access_num v + 1\<rparr>)))
      else if action = HTTP_C2SP_ACTION_DELETE then
        (case found of
           None \<Rightarrow> Some (-1, ctx)
         | Some n \<Rightarrow>
             Some (int n, http_url_cache_add
               (upd_url ctx n (\<lambda>v. v\<lparr>url_action := HTTP_C2SP_ACTION_DELETE\<rparr>)) n 0))
      else Some (-1, ctx))"

definition ngx_http_sp_url_handle ::
  "host_tree \<Rightarrow> http_snooping_ctx \<Rightarrow> cstr \<Rightarrow> u8 \<Rightarrow> (int \<times> http_snooping_ctx) option" where
  "ngx_http_sp_url_handle tree ctx url action =
     (if length url > HTTP_SP_URL_LEN_MAX - 1 then Some (-1, ctx)
      else case ngx_http_url_rule_get tree url of
        None \<Rightarrow> Some (-1, ctx)
      | Some r \<Rightarrow>
          if cache_flg r AND HTTP_CACHE_URL_ACTION_CACHE_UPSTREAM = 0 then Some (-1, ctx)
          else do {
            k \<leftarrow> url_tmp_key HTTP_SP_URL_LEN_MAX url r;
            if length k \<ge> HTTP_SP_LFILE_LEN_MAX then Some (-1, ctx)
            else url_handle_action ctx url r k action
          })"

text \<open>A key of 256 bytes passes the check of the next two operations and its terminator is written behind
  \<open>key_buf\<close>.\<close>

definition key_buf_store :: "cstr \<Rightarrow> cstr option" where
  "key_buf_store k = (if length k < HTTP_SP_LFILE_LEN_MAX then Some k else None)"

definition youku_url_new ::
  "http_snooping_ctx \<Rightarrow> http_cache_url \<Rightarrow> cstr \<Rightarrow> (nat option \<times> http_snooping_ctx) option" where
  "youku_url_new ctx r k =
     (if url_free ctx > 0 then do {
        (n, ctx1) \<leftarrow> url_take ctx;
        key \<leftarrow> key_buf_store k;
        let ctx2 = upd_url ctx1 n (\<lambda>v. v\<lparr>file_key_name := key, pcache_rule := Some r,
                     url_encoding := HTTP_ECODING_TYPE_NONE, url_flags := HTTP_SNOOPING_FLG_RES\<rparr>);
        let ctx3 = ngx_http_snooping_url_hash_add ctx2 n;
        Some (Some n, upd_url ctx3 n (\<lambda>v. v\<lparr>write_error_num := 0, node_mime := http_mime_null\<rparr>))
      }
      else Some (None, ctx))"

definition youku_url_find ::
  "http_snooping_ctx \<Rightarrow> http_cache_url \<Rightarrow> cstr \<Rightarrow> (nat option \<times> http_snooping_ctx) option" where
  "youku_url_find ctx r k =
     (case ngx_http_snooping_url_hash_find ctx k of
        Some n \<Rightarrow> Some (Some n, ctx)
      | None \<Rightarrow> youku_url_new ctx r k)"

definition youku_url_touch :: "http_snooping_ctx \<Rightarrow> cstr \<Rightarrow> nat \<Rightarrow> http_snooping_ctx" where
  "youku_url_touch ctx url n =
     http_url_cache_add
       (upd_url ctx n (\<lambda>v. set_flg (HTTP_SNOOPING_FLG_NGX_DOWN OR HTTP_SNOOPING_FLG_RES_LFB) v
          \<lparr>pkt_send_tick := jiffies ctx, data_buf_list := [], url_buf := url,
            server_name_len := url_server_len url, res_url_len := length url - url_server_len url,
            url_access_num := url_access_num v + 1\<rparr>)) n 1"

definition ngx_http_youku_url_add ::
  "host_tree \<Rightarrow> http_snooping_ctx \<Rightarrow> cstr \<Rightarrow> http_snooping_ctx option" where
  "ngx_http_youku_url_add tree ctx url =
     (if length url + 1 > HTTP_SP_URL_LEN_MAX - 1 then Some ctx
      else case ngx_http_url_rule_get tree url of
        None \<Rightarrow> Some ctx
      | Some r \<Rightarrow> do {
          k \<leftarrow> url_tmp_key (HTTP_SP_URL_LEN_MAX + 64) url r;
          if length k > HTTP_SP_LFILE_LEN_MAX then Some ctx
          else do {
            (sp_url, ctx1) \<leftarrow> youku_url_find ctx r k;
            Some (case sp_url of None \<Rightarrow> ctx1 | Some n \<Rightarrow> youku_url_touch ctx1 url n)
          }
        })"

text \<open>Recording the URL of a request with host \<open>sname\<close> and resource \<open>res\<close>. The result is \<open>con_url\<close>, the
  new value of the connection's \<open>post_fix\<close> and the context.\<close>

definition url_record_new ::
  "http_snooping_ctx \<Rightarrow> cstr \<Rightarrow> cstr \<Rightarrow> u8 \<Rightarrow> http_cache_url \<Rightarrow> cstr
     \<Rightarrow> (nat option \<times> u8 \<times> http_snooping_ctx) option" where
  "url_record_new ctx sname res post_fix r k =
     (if cache_flg r AND HTTP_CACHE_URL_ACTION_CACHE_SP \<noteq> 0 \<and> url_free ctx > 0 then do {
        (n, ctx1) \<leftarrow> url_take ctx;
        key \<leftarrow> key_buf_store k;
        let ctx2 = upd_url ctx1 n (\<lambda>v. v\<lparr>file_key_name := key, redirect_addr := 0,
                     write_error_num := 0, url_flags := HTTP_SNOOPING_FLG_RES\<rparr>);
        let ctx3 = ngx_http_snooping_url_hash_add ctx2 n;
        let ctx4 = upd_url ctx3 n (\<lambda>v. v\<lparr>pcache_rule := Some r, pkt_send_tick := jiffies ctx3,
                     data_buf_list := [], url_buf := sname @ res,
                     server_name_len := length sname, res_url_len := length res,
                     url_access_num := 0, url_encoding := HTTP_ECODING_TYPE_NONE,
                     url_action := HTTP_C2SP_ACTION_ADD\<rparr>);
        let ctx5 = http_url_cache_data_add ctx4 n 0;
        Some (Some n, if length (tail_xiegan r) = 1 then 1 else 0,
              upd_url ctx5 n (\<lambda>v. v\<lparr>node_mime := http_mime_null\<rparr>))
      }
      else Some (None, post_fix, ctx))"

definition url_record_find ::
  "http_snooping_ctx \<Rightarrow> cstr \<Rightarrow> cstr \<Rightarrow> u8 \<Rightarrow> http_cache_url \<Rightarrow> cstr
     \<Rightarrow> (nat option \<times> u8 \<times> http_snooping_ctx) option" where
  "url_record_find ctx sname res post_fix r k =
     (case ngx_http_snooping_url_hash_find ctx k of
        Some n \<Rightarrow> Some (Some n, post_fix, ctx)
      | None \<Rightarrow> url_record_new ctx sname res post_fix r k)"

definition ngx_http_snooping_url_record ::
  "host_tree \<Rightarrow> http_snooping_ctx \<Rightarrow> cstr \<Rightarrow> cstr \<Rightarrow> u8 \<Rightarrow> (nat option \<times> u8 \<times> http_snooping_ctx) option" where
  "ngx_http_snooping_url_record tree ctx sname res post_fix =
     (if length sname + length res + 1 > HTTP_SP_URL_LEN_MAX - 1 then Some (None, post_fix, ctx)
      else case ngx_http_url_rule_get tree (sname @ res) of
        None \<Rightarrow> Some (None, post_fix, ctx)
      | Some r \<Rightarrow> do {
          k \<leftarrow> url_tmp_key HTTP_SP_URL_LEN_MAX (sname @ res) r;
          if length k > HTTP_SP_LFILE_LEN_MAX then Some (None, post_fix, ctx)
          else do {
            (sp_url, pf, ctx1) \<leftarrow> url_record_find ctx sname res post_fix r k;
            Some (sp_url, pf,
                  case sp_url of
                    None \<Rightarrow> ctx1
                  | Some n \<Rightarrow> upd_url ctx1 n (\<lambda>v. v\<lparr>url_access_num := url_access_num v + 1\<rparr>))
          }
        })"

text \<open>The end of \<open>ngx_http_snooping_write_process\<close> for a node to delete: it leaves the hash table and goes
  back to the front of the free list.\<close>

definition url_release :: "http_snooping_ctx \<Rightarrow> nat \<Rightarrow> http_snooping_ctx" where
  "url_release ctx n =
     (let ctx1 = (if has_flg HTTP_SNOOPING_FLG_URL_HASH (url_base ctx n)
                  then ngx_http_snooping_url_hash_del ctx n else ctx) in
      upd_url (ctx1\<lparr>url_use_list := remove1 n (url_use_list ctx1), url_free_list := n # url_free_list ctx1,
                    url_free := url_free ctx1 + 1\<rparr>) n (\<lambda>v. v\<lparr>url_flags := 0\<rparr>))"

section \<open>Messages of the cache server\<close>

record http_sp2c_res_pkt =
  sp2c_session_id :: u32
  sp2c_status :: u8

definition ngx_http_sp2c_rec_process ::
  "http_snooping_ctx \<Rightarrow> http_sp2c_res_pkt option \<Rightarrow> http_snooping_ctx" where
  "ngx_http_sp2c_rec_process ctx pkt =
     (case pkt of
        None \<Rightarrow> ctx
      | Some p \<Rightarrow>
          if sp2c_status p \<noteq> 0 then ctx
          else if unat (sp2c_session_id p) \<ge> HTTP_SP_URL_MAX then ctx
          else let n = unat (sp2c_session_id p) in
            if \<not> has_flg HTTP_SNOOPING_FLG_NGX_WAIT_RESPNOSE (url_base ctx n) then ctx
            else upd_url ctx n (\<lambda>v. set_flg HTTP_SNOOPING_FLG_NGX_PARSE_OK
                   (clear_flg HTTP_SNOOPING_FLG_NGX_WAIT_RESPNOSE v)))"

record http_c2sp_req_pkt =
  c2sp_session_id :: u32
  c2sp_action :: u8
  c2sp_url_len :: u16
  usr_data :: buf

record http_c2sp_res_pkt =
  c2sp_res_session :: u32
  c2sp_res_status :: u8

text \<open>The URL of a request is the first \<open>url_len\<close> bytes at \<open>usr_data\<close>; a length beyond the 600 bytes of
  that field reads outside the packet, unless the length is refused before the bytes are used.\<close>

definition ngx_http_c2sp_rec_process ::
  "host_tree \<Rightarrow> http_snooping_ctx \<Rightarrow> http_c2sp_req_pkt option
     \<Rightarrow> (http_snooping_ctx \<times> http_c2sp_res_pkt option) option" where
  "ngx_http_c2sp_rec_process tree ctx pkt =
     (case pkt of
        None \<Rightarrow> Some (ctx, None)
      | Some p \<Rightarrow>
          if c2sp_action p < HTTP_C2SP_ACTION_GET \<or> c2sp_action p > HTTP_C2SP_ACTION_DELETE
          then Some (ctx, None)
          else do {
            (url_id, ctx1) \<leftarrow>
              (if unat (c2sp_url_len p) > HTTP_SP_URL_LEN_MAX - 1 then Some (-1, ctx)
               else do {
                 url \<leftarrow> mem_read (usr_data p) 0 (unat (c2sp_url_len p));
                 ngx_http_sp_url_handle tree ctx url (c2sp_action p)
               });
            let ctx2 = (if c2sp_action p = HTTP_C2SP_ACTION_ADD
                        then ngx_http_sp_url_state_setby_id ctx1 url_id HTTP_LOCAL_DOWN_STATE_OK else ctx1);
            Some (ctx2, Some \<lparr>c2sp_res_session = c2sp_session_id p, c2sp_res_status = 0\<rparr>)
          })"

section \<open>Initialisation\<close>

definition url_node0 :: http_snooping_url where
  "url_node0 = \<lparr>url_flags = 0, url_buf = [], server_name_len = 0, res_url_len = 0, file_key_name = [],
     redirect_addr = 0, url_res_len = 0, url_data_len = 0, url_encoding = 0, data_start = 0,
     url_access_num = 0, write_error_num = 0, local_down_state = 0, url_action = 0, pkt_send_tick = 0,
     node_mime = http_mime_null, pcache_rule = None, data_buf_list = [], url_data_current = None\<rparr>"

definition HTTP_SP_BUF_NUM_MAX :: nat where
  "HTTP_SP_BUF_NUM_MAX = 4 * 1024"

definition HTTP_SP_BUF_LEN_MAX :: nat where
  "HTTP_SP_BUF_LEN_MAX = 8 * 1024 - 8 - 4"

text \<open>The context after \<open>ngx_http_snooping_init\<close> with its three allocations successful: the pool and the
  buffers are cleared, every node is put in front of the free list in turn.\<close>

definition ngx_http_snooping_ctx_init :: "u32 \<Rightarrow> u32 \<Rightarrow> http_snooping_ctx" where
  "ngx_http_snooping_ctx_init server ticks =
     \<lparr>url_base = (\<lambda>_. url_node0), url_free = int HTTP_SP_URL_MAX,
      url_free_list = fold (#) [0..<HTTP_SP_URL_MAX] [], url_use_list = [],
      url_hash = (\<lambda>_. []), url_cache_list = (\<lambda>_. []), cache_num = 0,
      buf_num = of_nat HTTP_SP_BUF_NUM_MAX, data_buf_free_list = fold (#) [0..<HTTP_SP_BUF_NUM_MAX] [],
      data_buf = (\<lambda>_. \<lparr>buf_len = 0, buf_data = replicate HTTP_SP_BUF_LEN_MAX NUL\<rparr>),
      ngx_write_tick = 0, ngx_server_addr = server, jiffies = ticks\<rparr>"

section \<open>The invariant of the URL table\<close>

lemma bit_flag: "k < 32 \<Longrightarrow> bit (push_bit k 1 :: u32) m \<longleftrightarrow> m = k"
  by (auto simp: bit_exp_iff)

lemma snoop_flag_bit [simp]:
  "bit HTTP_SNOOPING_FLG_RES m \<longleftrightarrow> m = 0"
  "bit HTTP_SNOOPING_FLG_CACHE_LIST m \<longleftrightarrow> m = 2"
  "bit HTTP_SNOOPING_FLG_URL_HASH m \<longleftrightarrow> m = 3"
  "bit HTTP_SNOOPING_FLG_RES_LFB m \<longleftrightarrow> m = 7"
  "bit HTTP_SNOOPING_FLG_RES_LFOK m \<longleftrightarrow> m = 8"
  "bit HTTP_SNOOPING_FLG_RES_LFN m \<longleftrightarrow> m = 9"
  "bit HTTP_SNOOPING_FLG_RES_LFP m \<longleftrightarrow> m = 10"
  "bit HTTP_SNOOPING_FLG_CACHE_BUF_ALLOC m \<longleftrightarrow> m = 11"
  "bit HTTP_SNOOPING_FLG_RES_CACHE m \<longleftrightarrow> m = 12"
  "bit HTTP_SNOOPING_FLG_RES_WRITE m \<longleftrightarrow> m = 13"
  "bit HTTP_SNOOPING_FLG_NGX_DOWN m \<longleftrightarrow> m = 14"
  "bit HTTP_SNOOPING_FLG_NGX_PARSE_OK m \<longleftrightarrow> m = 15"
  "bit HTTP_SNOOPING_FLG_NGX_WAIT_RESPNOSE m \<longleftrightarrow> m = 16"
  unfolding snoop_flag_defs by (subst bit_flag; simp)+

lemma has_flg_bit: "has_flg (push_bit k 1) v \<longleftrightarrow> bit (url_flags v) k"
  by (simp add: has_flg_def bit_iff_and_push_bit_not_eq_0)

lemma has_flg_simps [c_simps]:
  "has_flg HTTP_SNOOPING_FLG_RES v \<longleftrightarrow> bit (url_flags v) 0"
  "has_flg HTTP_SNOOPING_FLG_CACHE_LIST v \<longleftrightarrow> bit (url_flags v) 2"
  "has_flg HTTP_SNOOPING_FLG_URL_HASH v \<longleftrightarrow> bit (url_flags v) 3"
  "has_flg HTTP_SNOOPING_FLG_RES_LFB v \<longleftrightarrow> bit (url_flags v) 7"
  "has_flg HTTP_SNOOPING_FLG_RES_LFOK v \<longleftrightarrow> bit (url_flags v) 8"
  "has_flg HTTP_SNOOPING_FLG_RES_LFN v \<longleftrightarrow> bit (url_flags v) 9"
  "has_flg HTTP_SNOOPING_FLG_RES_LFP v \<longleftrightarrow> bit (url_flags v) 10"
  "has_flg HTTP_SNOOPING_FLG_CACHE_BUF_ALLOC v \<longleftrightarrow> bit (url_flags v) 11"
  "has_flg HTTP_SNOOPING_FLG_RES_CACHE v \<longleftrightarrow> bit (url_flags v) 12"
  "has_flg HTTP_SNOOPING_FLG_RES_WRITE v \<longleftrightarrow> bit (url_flags v) 13"
  "has_flg HTTP_SNOOPING_FLG_NGX_DOWN v \<longleftrightarrow> bit (url_flags v) 14"
  "has_flg HTTP_SNOOPING_FLG_NGX_PARSE_OK v \<longleftrightarrow> bit (url_flags v) 15"
  "has_flg HTTP_SNOOPING_FLG_NGX_WAIT_RESPNOSE v \<longleftrightarrow> bit (url_flags v) 16"
  unfolding snoop_flag_defs by (rule has_flg_bit)+

definition key_of :: "http_snooping_ctx \<Rightarrow> nat \<Rightarrow> cstr" where
  "key_of ctx n = file_key_name (url_base ctx n)"

definition wheel :: "http_snooping_ctx \<Rightarrow> nat list" where
  "wheel ctx = concat (map (url_cache_list ctx) [0..<HTTP_CACHE_TIME_OUT])"

text \<open>The pool is partitioned into the free and the used nodes, the counter counts the free ones.\<close>

definition pool_inv :: "http_snooping_ctx \<Rightarrow> bool" where
  "pool_inv ctx \<longleftrightarrow> url_free ctx = int (length (url_free_list ctx))
     \<and> distinct (url_free_list ctx @ url_use_list ctx)
     \<and> set (url_free_list ctx @ url_use_list ctx) = {..<HTTP_SP_URL_MAX}
     \<and> (\<forall>n < HTTP_SP_URL_MAX. has_flg HTTP_SNOOPING_FLG_RES (url_base ctx n) \<longleftrightarrow> n \<in> set (url_use_list ctx))
     \<and> (\<forall>n \<in> set (url_use_list ctx). pcache_rule (url_base ctx n) \<noteq> None)"

text \<open>A used node is in the bucket of its key and nowhere else, and no key is stored twice.\<close>

definition hash_inv :: "http_snooping_ctx \<Rightarrow> bool" where
  "hash_inv ctx \<longleftrightarrow>
     (\<forall>h. distinct (url_hash ctx h)
        \<and> set (url_hash ctx h) = {n \<in> set (url_use_list ctx). url_bucket (key_of ctx n) = h})
     \<and> inj_on (key_of ctx) (set (url_use_list ctx))
     \<and> (\<forall>n < HTTP_SP_URL_MAX. has_flg HTTP_SNOOPING_FLG_URL_HASH (url_base ctx n) \<longleftrightarrow> n \<in> set (url_use_list ctx))"

text \<open>A node is in at most one list of the wheel, exactly when its flag says so, and only used nodes are.\<close>

definition wheel_inv :: "http_snooping_ctx \<Rightarrow> bool" where
  "wheel_inv ctx \<longleftrightarrow> distinct (wheel ctx) \<and> set (wheel ctx) \<subseteq> set (url_use_list ctx)
     \<and> cache_num ctx = of_nat (length (wheel ctx))
     \<and> (\<forall>n < HTTP_SP_URL_MAX. has_flg HTTP_SNOOPING_FLG_CACHE_LIST (url_base ctx n) \<longleftrightarrow> n \<in> set (wheel ctx))"

definition url_inv :: "http_snooping_ctx \<Rightarrow> bool" where
  "url_inv ctx \<longleftrightarrow> pool_inv ctx \<and> hash_inv ctx \<and> wheel_inv ctx"

text \<open>The part of the invariant that does not speak of the keys being different.\<close>

definition hash_struct :: "http_snooping_ctx \<Rightarrow> bool" where
  "hash_struct ctx \<longleftrightarrow>
     (\<forall>h. distinct (url_hash ctx h)
        \<and> set (url_hash ctx h) = {n \<in> set (url_use_list ctx). url_bucket (key_of ctx n) = h})
     \<and> (\<forall>n < HTTP_SP_URL_MAX. has_flg HTTP_SNOOPING_FLG_URL_HASH (url_base ctx n) \<longleftrightarrow> n \<in> set (url_use_list ctx))"

definition url_struct :: "http_snooping_ctx \<Rightarrow> bool" where
  "url_struct ctx \<longleftrightarrow> pool_inv ctx \<and> hash_struct ctx \<and> wheel_inv ctx"

lemma url_inv_struct: "url_inv ctx \<longleftrightarrow> url_struct ctx \<and> inj_on (key_of ctx) (set (url_use_list ctx))"
  by (auto simp: url_inv_def url_struct_def hash_inv_def hash_struct_def)

lemma upd_url_simps [simp]:
  "url_free (upd_url ctx n f) = url_free ctx" "url_free_list (upd_url ctx n f) = url_free_list ctx"
  "url_use_list (upd_url ctx n f) = url_use_list ctx" "url_hash (upd_url ctx n f) = url_hash ctx"
  "url_cache_list (upd_url ctx n f) = url_cache_list ctx" "cache_num (upd_url ctx n f) = cache_num ctx"
  "url_base (upd_url ctx n f) = (url_base ctx)(n := f (url_base ctx n))"
  "ngx_write_tick (upd_url ctx n f) = ngx_write_tick ctx"
  "jiffies (upd_url ctx n f) = jiffies ctx" "ngx_server_addr (upd_url ctx n f) = ngx_server_addr ctx"
  "wheel (upd_url ctx n f) = wheel ctx"
  by (simp_all add: upd_url_def wheel_def)

lemma set_flg_simps [simp]:
  "url_flags (set_flg f v) = url_flags v OR f" "file_key_name (set_flg f v) = file_key_name v"
  "pcache_rule (set_flg f v) = pcache_rule v" "url_action (set_flg f v) = url_action v"
  "url_flags (clear_flg f v) = url_flags v AND NOT f" "file_key_name (clear_flg f v) = file_key_name v"
  "pcache_rule (clear_flg f v) = pcache_rule v" "url_action (clear_flg f v) = url_action v"
  by (simp_all add: set_flg_def clear_flg_def)

lemma struct_use_less: "url_struct ctx \<Longrightarrow> n \<in> set (url_use_list ctx) \<Longrightarrow> n < HTTP_SP_URL_MAX"
  by (auto simp: url_struct_def pool_inv_def)

lemma inv_use_less: "url_inv ctx \<Longrightarrow> n \<in> set (url_use_list ctx) \<Longrightarrow> n < HTTP_SP_URL_MAX"
  unfolding url_inv_struct by (blast dest: struct_use_less)

lemma fold_Cons: "fold (#) xs ys = rev xs @ ys"
  by (induction xs arbitrary: ys) auto

lemma concat_nils: "concat (map (\<lambda>_. []) xs) = []"
  by (induction xs) auto

lemma url_inv_init: "url_inv (ngx_http_snooping_ctx_init server ticks)"
  by (auto simp: url_inv_def pool_inv_def hash_inv_def wheel_inv_def ngx_http_snooping_ctx_init_def
      fold_Cons wheel_def concat_nils url_node0_def has_flg_def)

text \<open>An update that keeps the key, the rule and the three list flags of a node keeps the invariant.\<close>

definition keeps :: "(http_snooping_url \<Rightarrow> http_snooping_url) \<Rightarrow> http_snooping_url \<Rightarrow> bool" where
  "keeps f v \<longleftrightarrow> file_key_name (f v) = file_key_name v \<and> (pcache_rule v \<noteq> None \<longrightarrow> pcache_rule (f v) \<noteq> None)
     \<and> (\<forall>k \<in> {0, 2, 3}. bit (url_flags (f v)) k = bit (url_flags v) k)"

lemma keeps_key_of: "keeps f (url_base ctx n) \<Longrightarrow> key_of (upd_url ctx n f) = key_of ctx"
  by (auto simp: key_of_def keeps_def)

lemma url_struct_upd:
  assumes "url_struct ctx" "keeps f (url_base ctx n)"
  shows "url_struct (upd_url ctx n f)"
proof -
  have "has_flg g (url_base (upd_url ctx n f) m) = has_flg g (url_base ctx m)"
    if "g \<in> {HTTP_SNOOPING_FLG_RES, HTTP_SNOOPING_FLG_CACHE_LIST, HTTP_SNOOPING_FLG_URL_HASH}" for g m
    using assms(2) that unfolding keeps_def by (auto simp: c_simps)
  with assms keeps_key_of [OF assms(2)] show ?thesis
    by (auto simp: url_struct_def pool_inv_def hash_struct_def wheel_inv_def keeps_def)
qed

lemma url_inv_upd [wf_intros]:
  "url_inv ctx \<Longrightarrow> keeps f (url_base ctx n) \<Longrightarrow> url_inv (upd_url ctx n f)"
  by (simp add: url_inv_struct url_struct_upd keeps_key_of)

lemma keeps_set_flg:
  "(\<And>k. k \<in> {0, 2, 3} \<Longrightarrow> \<not> bit f k) \<Longrightarrow> keeps (set_flg f) v"
  by (simp add: keeps_def bit_or_iff)

subsection \<open>The wheel\<close>

lemma wheel_update:
  assumes "s < HTTP_CACHE_TIME_OUT"
  shows "mset (wheel (ctx\<lparr>url_cache_list := (url_cache_list ctx)(s := xs)\<rparr>)) + mset (url_cache_list ctx s)
           = mset (wheel ctx) + mset xs"
proof -
  define L where "L = [0..<HTTP_CACHE_TIME_OUT]"
  have L: "distinct L" "s \<in> set L" using assms by (simp_all add: L_def)
  have "mset (concat (map ((url_cache_list ctx)(s := xs)) L)) + mset (url_cache_list ctx s)
      = mset (concat (map (url_cache_list ctx) L)) + mset xs"
    using L
  proof (induction L)
    case (Cons a L)
    show ?case
    proof (cases "a = s")
      case True
      then have "map ((url_cache_list ctx)(s := xs)) L = map (url_cache_list ctx) L"
        using Cons.prems by auto
      then show ?thesis using True by (simp del: map_eq_conv fun_upd_apply) simp
    next
      case False
      then show ?thesis using Cons by simp
    qed
  qed simp
  then show ?thesis by (simp add: wheel_def L_def)
qed

lemma wheel_add:
  assumes "s < HTTP_CACHE_TIME_OUT"
  shows "mset (wheel (ctx\<lparr>url_cache_list := (url_cache_list ctx)(s := url_cache_list ctx s @ [n])\<rparr>))
           = add_mset n (mset (wheel ctx))"
  using wheel_update [OF assms, of ctx "url_cache_list ctx s @ [n]"] by simp

lemma wheel_pop:
  assumes "s < HTTP_CACHE_TIME_OUT" "url_cache_list ctx s = n # ns"
  shows "mset (wheel ctx) = add_mset n (mset (wheel (ctx\<lparr>url_cache_list := (url_cache_list ctx)(s := ns)\<rparr>)))"
  using wheel_update [OF assms(1), of ctx ns] assms(2) by simp

lemma mset_add_facts:
  assumes "mset ys = add_mset n (mset xs)"
  shows "set ys = insert n (set xs)" "distinct ys \<longleftrightarrow> n \<notin> set xs \<and> distinct xs" "length ys = Suc (length xs)"
proof -
  have eq: "mset ys = mset (n # xs)" using assms by simp
  show "set ys = insert n (set xs)" using mset_eq_setD [OF eq] by simp
  show "distinct ys \<longleftrightarrow> n \<notin> set xs \<and> distinct xs"
    using mset_eq_imp_distinct_iff [OF eq] by simp
  show "length ys = Suc (length xs)" using mset_eq_length [OF eq] by simp
qed

lemma wheel_cong [simp]: "wheel (ctx\<lparr>cache_num := c\<rparr>) = wheel ctx" "wheel (ctx\<lparr>url_base := b\<rparr>) = wheel ctx"
  "wheel (ctx\<lparr>url_hash := h\<rparr>) = wheel ctx" "wheel (ctx\<lparr>url_free_list := fl\<rparr>) = wheel ctx"
  "wheel (ctx\<lparr>url_use_list := ul\<rparr>) = wheel ctx" "wheel (ctx\<lparr>url_free := fr\<rparr>) = wheel ctx"
  by (simp_all add: wheel_def)

lemma cache_add_struct:
  assumes inv: "url_struct ctx" and n: "n \<in> set (url_use_list ctx)"
  shows "url_struct (http_url_cache_add ctx n tick)"
proof (cases "has_flg HTTP_SNOOPING_FLG_CACHE_LIST (url_base ctx n)")
  case False
  define s where "s = unat (ngx_write_tick ctx + tick) mod HTTP_CACHE_TIME_OUT"
  define ctx1 where "ctx1 = ctx\<lparr>url_cache_list := (url_cache_list ctx)(s := url_cache_list ctx s @ [n])\<rparr>"
  define ctx2 where "ctx2 = http_url_cache_add ctx n tick"
  have s: "s < HTTP_CACHE_TIME_OUT" by (simp add: s_def HTTP_CACHE_TIME_OUT_def)
  have ctx2: "ctx2 = upd_url (ctx1\<lparr>cache_num := cache_num ctx + 1\<rparr>) n (set_flg HTTP_SNOOPING_FLG_CACHE_LIST)"
    using False by (simp add: ctx2_def http_url_cache_add_def ctx1_def s_def Let_def)
  have less: "n < HTTP_SP_URL_MAX" using struct_use_less inv n by blast
  then have nw: "n \<notin> set (wheel ctx)" using inv False by (auto simp: url_struct_def wheel_inv_def)
  note w = mset_add_facts [OF wheel_add [OF s, of ctx n], folded ctx1_def]
  have "key_of ctx2 = key_of ctx" by (auto simp: key_of_def ctx2 ctx1_def)
  moreover have "wheel ctx2 = wheel ctx1" by (simp add: ctx2)
  ultimately have "url_struct ctx2"
    using inv n w nw less unfolding url_struct_def pool_inv_def hash_struct_def wheel_inv_def
    by (simp add: ctx2 ctx1_def c_simps bit_or_iff)
  then show ?thesis by (simp add: ctx2_def)
qed (simp add: http_url_cache_add_def inv)

lemma http_url_cache_data_add_eq: "http_url_cache_data_add = http_url_cache_add"
  by (intro ext) (simp add: http_url_cache_data_add_def http_url_cache_add_def)

lemma http_url_cache_add_simps [simp]:
  "url_use_list (http_url_cache_add ctx n t) = url_use_list ctx"
  "url_free_list (http_url_cache_add ctx n t) = url_free_list ctx"
  "url_hash (http_url_cache_add ctx n t) = url_hash ctx"
  "file_key_name (url_base (http_url_cache_add ctx n t) m) = file_key_name (url_base ctx m)"
  by (simp_all add: http_url_cache_add_def Let_def)

lemma http_url_cache_add_inv [wf_intros]:
  "url_inv ctx \<Longrightarrow> n \<in> set (url_use_list ctx) \<Longrightarrow> url_inv (http_url_cache_add ctx n tick)"
  by (simp add: url_inv_struct cache_add_struct key_of_def inj_on_def)

lemma cache_add_wheel:
  "set (wheel (http_url_cache_add ctx n t)) =
     (if has_flg HTTP_SNOOPING_FLG_CACHE_LIST (url_base ctx n) then set (wheel ctx) else insert n (set (wheel ctx)))"
proof (cases "has_flg HTTP_SNOOPING_FLG_CACHE_LIST (url_base ctx n)")
  case False
  define s where "s = unat (ngx_write_tick ctx + t) mod HTTP_CACHE_TIME_OUT"
  have s: "s < HTTP_CACHE_TIME_OUT" by (simp add: s_def HTTP_CACHE_TIME_OUT_def)
  have "set (wheel (ctx\<lparr>url_cache_list := (url_cache_list ctx)(s := url_cache_list ctx s @ [n]), cache_num := x\<rparr>))
      = insert n (set (wheel ctx))" for x
    using s by (auto simp: wheel_def)
  then show ?thesis using False by (simp add: http_url_cache_add_def Let_def s_def)
qed (simp add: http_url_cache_add_def)

lemma cache_get_struct:
  assumes inv: "url_struct ctx" and r: "http_url_cache_get ctx = Some (Some n, ctx')"
  shows "url_struct ctx' \<and> key_of ctx' = key_of ctx \<and> n \<in> set (url_use_list ctx) \<and> url_use_list ctx' = url_use_list ctx
           \<and> \<not> has_flg HTTP_SNOOPING_FLG_CACHE_LIST (url_base ctx' n)"
proof -
  define s where "s = nat (sint (ngx_write_tick ctx) smod int HTTP_CACHE_TIME_OUT)"
  obtain ns where ns: "url_cache_list ctx s = n # ns" and pos: "0 \<le> sint (ngx_write_tick ctx) smod int HTTP_CACHE_TIME_OUT"
    and ctx': "ctx' = upd_url (ctx\<lparr>url_cache_list := (url_cache_list ctx)(s := ns),
                                   cache_num := cache_num ctx - 1\<rparr>) n (clear_flg HTTP_SNOOPING_FLG_CACHE_LIST)"
    using r by (auto simp: http_url_cache_get_def Let_def s_def split: if_splits list.splits)
  define ctx1 where "ctx1 = ctx\<lparr>url_cache_list := (url_cache_list ctx)(s := ns)\<rparr>"
  have "sint (ngx_write_tick ctx) smod int HTTP_CACHE_TIME_OUT < int HTTP_CACHE_TIME_OUT"
    using smod_int_range [of "int HTTP_CACHE_TIME_OUT" "sint (ngx_write_tick ctx)"]
    by (simp add: HTTP_CACHE_TIME_OUT_def)
  then have s: "s < HTTP_CACHE_TIME_OUT" using pos by (simp add: s_def)
  note w = mset_add_facts [OF wheel_pop [OF s ns], folded ctx1_def]
  have nu: "n \<in> set (url_use_list ctx)" "n \<notin> set (wheel ctx1)" "distinct (wheel ctx1)"
    "set (wheel ctx1) \<subseteq> set (url_use_list ctx)"
    using w inv by (auto simp: url_struct_def wheel_inv_def)
  have key: "key_of ctx' = key_of ctx" by (auto simp: key_of_def ctx')
  moreover have wc: "wheel ctx' = wheel ctx1" by (simp add: ctx' ctx1_def wheel_def)
  moreover have "cache_num ctx' = of_nat (length (wheel ctx1))"
    using inv w(3) by (simp add: ctx' url_struct_def wheel_inv_def)
  moreover have "has_flg HTTP_SNOOPING_FLG_CACHE_LIST (url_base ctx' m) \<longleftrightarrow> m \<in> set (wheel ctx1)"
    if "m < HTTP_SP_URL_MAX" for m
    using that inv w(1) nu by (auto simp: ctx' url_struct_def wheel_inv_def c_simps bit_and_iff bit_not_iff)
  ultimately have "url_struct ctx'"
    using inv nu unfolding url_struct_def pool_inv_def hash_struct_def wheel_inv_def
    by (simp add: ctx' c_simps bit_and_iff bit_not_iff)
  then show ?thesis using nu key by (simp add: ctx' c_simps bit_and_iff bit_not_iff)
qed

lemma http_url_cache_get_inv:
  assumes "url_inv ctx" "http_url_cache_get ctx = Some (Some n, ctx')"
  shows "url_inv ctx' \<and> n \<in> set (url_use_list ctx) \<and> url_use_list ctx' = url_use_list ctx
           \<and> \<not> has_flg HTTP_SNOOPING_FLG_CACHE_LIST (url_base ctx' n)"
  using cache_get_struct [OF _ assms(2)] assms(1) by (auto simp: url_inv_struct)

subsection \<open>New and released nodes\<close>

lemma c_strncmp_refl: "c_strncmp n s s = 0"
proof (induction n arbitrary: s)
  case (Suc n)
  then show ?case by (cases s) auto
qed simp

lemma hash_find_None:
  assumes "url_inv ctx" "ngx_http_snooping_url_hash_find ctx k = None" "m \<in> set (url_use_list ctx)"
  shows "key_of ctx m \<noteq> k"
proof
  assume k: "key_of ctx m = k"
  then have "m \<in> set (url_hash ctx (url_bucket k))" using assms(1,3) by (auto simp: url_inv_def hash_inv_def)
  then show False using assms(2) k
    by (auto simp: ngx_http_snooping_url_hash_find_def find_None_iff key_of_def c_strncmp_refl)
qed

lemma hash_find_use:
  assumes "url_struct ctx" "ngx_http_snooping_url_hash_find ctx k = Some n"
  shows "n \<in> set (url_use_list ctx)"
proof -
  have "n \<in> set (url_hash ctx (url_bucket k))"
    using assms(2) by (auto simp: ngx_http_snooping_url_hash_find_def find_Some_iff)
  then show ?thesis using assms(1) by (auto simp: url_struct_def hash_struct_def)
qed

lemma hash_find_Some:
  "url_inv ctx \<Longrightarrow> ngx_http_snooping_url_hash_find ctx k = Some n \<Longrightarrow> n \<in> set (url_use_list ctx)"
  by (simp add: url_inv_struct hash_find_use)

lemma url_take_inv:
  assumes "url_take ctx = Some (n, ctx1)"
  obtains fs where "url_free_list ctx = n # fs"
    "ctx1 = ctx\<lparr>url_free_list := fs, url_use_list := n # url_use_list ctx, url_free := url_free ctx - 1\<rparr>"
  using assms by (auto simp: url_take_def split: list.splits)

lemma url_take_ok:
  "url_inv ctx \<Longrightarrow> 0 < url_free ctx \<Longrightarrow> \<exists>n ctx1. url_take ctx = Some (n, ctx1)"
  by (auto simp: url_take_def url_inv_def pool_inv_def split: list.split)

lemma url_new_struct:
  assumes inv: "url_struct ctx" and tk: "url_take ctx = Some (n, ctx1)"
    and fk: "file_key_name (f (url_base ctx n)) = k"
    and w: "w = g (set_flg HTTP_SNOOPING_FLG_URL_HASH (f (url_base ctx n)))" "file_key_name w = k"
      "pcache_rule w \<noteq> None" "bit (url_flags w) 0" "\<not> bit (url_flags w) 2" "bit (url_flags w) 3"
    and C0: "C = upd_url (ngx_http_snooping_url_hash_add (upd_url ctx1 n f) n) n g"
  shows "url_struct C \<and> key_of C = (key_of ctx)(n := k) \<and> url_use_list C = n # url_use_list ctx
    \<and> n \<notin> set (url_use_list ctx)"
proof -
  obtain fs where fs: "url_free_list ctx = n # fs"
    and ctx1: "ctx1 = ctx\<lparr>url_free_list := fs, url_use_list := n # url_use_list ctx, url_free := url_free ctx - 1\<rparr>"
    using url_take_inv [OF tk] .
  have C: "url_free C = url_free ctx - 1" "url_free_list C = fs" "url_use_list C = n # url_use_list ctx"
    "url_hash C = (url_hash ctx)(url_bucket k := url_hash ctx (url_bucket k) @ [n])"
    "cache_num C = cache_num ctx" "url_base C = (url_base ctx)(n := w)"
    "wheel C = wheel ctx"
    using fk w(1) by (simp_all add: C0 ctx1 ngx_http_snooping_url_hash_add_def Let_def wheel_def)
  have key: "key_of C = (key_of ctx)(n := k)" using w(2) by (auto simp: key_of_def C)
  have n: "n < HTTP_SP_URL_MAX" "n \<notin> set (url_use_list ctx)" "n \<notin> set fs"
    using inv fs by (auto simp: url_struct_def pool_inv_def)
  have nh: "n \<notin> set (url_hash ctx h)" for h using inv n(2) by (auto simp: url_struct_def hash_struct_def)
  have "pool_inv C"
    using inv fs w n unfolding url_struct_def pool_inv_def by (auto simp: C c_simps)
  moreover have "hash_struct C"
    using inv w(2-6) n nh unfolding url_struct_def hash_struct_def by (auto simp: C key c_simps)
  moreover have "wheel_inv C"
    using inv w n unfolding url_struct_def wheel_inv_def by (auto simp: C c_simps)
  ultimately show ?thesis using key C(3) n(2) by (simp add: url_struct_def)
qed

lemma url_new_inv:
  assumes inv: "url_inv ctx" and tk: "url_take ctx = Some (n, ctx1)"
    and new: "\<And>m. m \<in> set (url_use_list ctx) \<Longrightarrow> key_of ctx m \<noteq> k"
    and fk: "file_key_name (f (url_base ctx n)) = k"
    and w: "w = g (set_flg HTTP_SNOOPING_FLG_URL_HASH (f (url_base ctx n)))" "file_key_name w = k"
      "pcache_rule w \<noteq> None" "bit (url_flags w) 0" "\<not> bit (url_flags w) 2" "bit (url_flags w) 3"
  shows "url_inv (upd_url (ngx_http_snooping_url_hash_add (upd_url ctx1 n f) n) n g)"
proof -
  have "url_struct ctx" using inv by (simp add: url_inv_struct)
  from url_new_struct [where f = f and g = g, OF this tk fk w refl] inv new show ?thesis
    by (auto simp: url_inv_struct inj_on_def)
qed

lemma url_release_inv:
  assumes inv: "url_inv ctx" and n: "n \<in> set (url_use_list ctx)"
    and c: "\<not> has_flg HTTP_SNOOPING_FLG_CACHE_LIST (url_base ctx n)"
  shows "url_inv (url_release ctx n)"
proof -
  have less: "n < HTTP_SP_URL_MAX" using inv_use_less [OF inv n] .
  have h: "has_flg HTTP_SNOOPING_FLG_URL_HASH (url_base ctx n)"
    using inv n less by (auto simp: url_inv_def hash_inv_def)
  define C where "C = url_release ctx n"
  define k where "k = key_of ctx n"
  have C: "url_free C = url_free ctx + 1" "url_free_list C = n # url_free_list ctx"
    "url_use_list C = remove1 n (url_use_list ctx)"
    "url_hash C = (url_hash ctx)(url_bucket k := remove1 n (url_hash ctx (url_bucket k)))"
    "cache_num C = cache_num ctx" "wheel C = wheel ctx"
    using h by (simp_all add: C_def k_def key_of_def url_release_def ngx_http_snooping_url_hash_del_def Let_def
        wheel_def)
  have b: "m \<noteq> n \<Longrightarrow> url_base C m = url_base ctx m" "url_flags (url_base C n) = 0"
    "file_key_name (url_base C m) = file_key_name (url_base ctx m)" for m
    using h by (auto simp: C_def url_release_def ngx_http_snooping_url_hash_del_def Let_def)
  have key: "key_of C = key_of ctx" by (auto simp: key_of_def b)
  have d: "distinct (url_use_list ctx)" "n \<notin> set (url_free_list ctx)" "n \<notin> set (wheel ctx)"
    using inv n c less by (auto simp: url_inv_def pool_inv_def wheel_inv_def)
  have use: "set (url_use_list C) = set (url_use_list ctx) - {n}" using d by (simp add: C set_remove1_eq)
  have flg: "bit (url_flags (url_base C m)) i \<longleftrightarrow> m \<noteq> n \<and> bit (url_flags (url_base ctx m)) i" for m i
    using b(1) [of m] b(2) by (cases "m = n") auto
  have rule: "m \<noteq> n \<Longrightarrow> pcache_rule (url_base C m) = pcache_rule (url_base ctx m)" for m by (simp add: b)
  have "pool_inv C"
    using inv n d less unfolding url_inv_def pool_inv_def set_append use
    by (auto simp: C flg rule c_simps)
  moreover have "hash_inv C"
    unfolding hash_inv_def
  proof (intro conjI allI impI)
    fix h
    have hh: "distinct (url_hash ctx h)"
      "set (url_hash ctx h) = {m \<in> set (url_use_list ctx). url_bucket (key_of ctx m) = h}"
      using inv by (auto simp: url_inv_def hash_inv_def)
    then show "distinct (url_hash C h)" by (auto simp: C)
    show "set (url_hash C h) = {m \<in> set (url_use_list C). url_bucket (key_of C m) = h}"
    proof (cases "h = url_bucket k")
      case True
      then have "set (url_hash C h) = set (url_hash ctx h) - {n}" using hh(1) by (simp add: C(4) set_remove1_eq)
      then show ?thesis unfolding hh(2) use key by blast
    next
      case False
      then have "set (url_hash C h) = set (url_hash ctx h)" by (simp add: C(4))
      then show ?thesis using False unfolding hh(2) use key k_def by auto
    qed
    show "inj_on (key_of C) (set (url_use_list C))"
      using inv by (auto simp: url_inv_def hash_inv_def key use intro: inj_on_subset)
    fix m assume "m < HTTP_SP_URL_MAX"
    then show "has_flg HTTP_SNOOPING_FLG_URL_HASH (url_base C m) \<longleftrightarrow> m \<in> set (url_use_list C)"
      using inv by (auto simp: url_inv_def hash_inv_def c_simps flg use)
  qed
  moreover have "wheel_inv C"
    using inv d unfolding url_inv_def wheel_inv_def use by (auto simp: C c_simps flg)
  ultimately show ?thesis by (simp add: url_inv_def C_def)
qed

subsection \<open>The operations keep the invariant\<close>

lemma keeps_simps: "keeps f v \<longleftrightarrow> file_key_name (f v) = file_key_name v
    \<and> (pcache_rule v \<noteq> None \<longrightarrow> pcache_rule (f v) \<noteq> None)
    \<and> (bit (url_flags (f v)) 0 = bit (url_flags v) 0) \<and> (bit (url_flags (f v)) 2 = bit (url_flags v) 2)
    \<and> (bit (url_flags (f v)) 3 = bit (url_flags v) 3)"
  by (auto simp: keeps_def)

lemma hash_add_use [simp]: "url_use_list (ngx_http_snooping_url_hash_add ctx n) = url_use_list ctx"
  by (simp add: ngx_http_snooping_url_hash_add_def Let_def)

lemma setby_id_inv [wf_intros]:
  assumes inv: "url_inv ctx"
  shows "url_inv (ngx_http_sp_url_state_setby_id ctx url_id state)"
proof (cases "NGX_HTTP_URLID_VALID url_id \<and> has_flg HTTP_SNOOPING_FLG_RES (url_base ctx (nat url_id))")
  case True
  then have "nat url_id < HTTP_SP_URL_MAX" by (auto simp: NGX_HTTP_URLID_VALID_def)
  then have n: "nat url_id \<in> set (url_use_list ctx)" using inv True by (auto simp: url_inv_def pool_inv_def)
  have k: "keeps (\<lambda>v. set_flg HTTP_SNOOPING_FLG_NGX_DOWN v
      \<lparr>local_down_state := HTTP_LOCAL_DOWN_STATE_OK, url_action := HTTP_C2SP_ACTION_ADD\<rparr>) v"
    "keeps (\<lambda>v. v\<lparr>local_down_state := HTTP_LOCAL_DOWN_STATE_INIT\<rparr>) v" for v
    by (simp_all add: keeps_simps bit_or_iff)
  have u: "url_inv (upd_url ctx (nat url_id) (\<lambda>v. set_flg HTTP_SNOOPING_FLG_NGX_DOWN v
      \<lparr>local_down_state := HTTP_LOCAL_DOWN_STATE_OK, url_action := HTTP_C2SP_ACTION_ADD\<rparr>))"
    "url_inv (upd_url ctx (nat url_id) (\<lambda>v. v\<lparr>local_down_state := HTTP_LOCAL_DOWN_STATE_INIT\<rparr>))"
    using inv k by (intro url_inv_upd; blast)+
  with n True show ?thesis
    by (simp add: ngx_http_sp_url_state_setby_id_def Let_def http_url_cache_add_inv)
qed (auto simp: ngx_http_sp_url_state_setby_id_def Let_def inv)

text \<open>The context after adding a URL that was not known, in \<open>ngx_http_sp_url_handle\<close>.\<close>

lemma url_handle_new_inv:
  assumes inv: "url_inv ctx" and tk: "url_take ctx = Some (n, ctx1)"
    and new: "ngx_http_snooping_url_hash_find ctx k = None"
    and ctx4: "ctx4 = upd_url (ngx_http_snooping_url_hash_add (upd_url ctx1 n (\<lambda>v. v\<lparr>url_flags := 0,
        file_key_name := k, pcache_rule := Some r, redirect_addr := ra, url_encoding := e\<rparr>)) n) n
        (\<lambda>v. set_flg HTTP_SNOOPING_FLG_RES v\<lparr>write_error_num := 0, node_mime := http_mime_null\<rparr>)"
    and ctx5: "ctx5 = upd_url ctx4 n (\<lambda>v. set_flg HTTP_SNOOPING_FLG_RES_LFB v
        \<lparr>pkt_send_tick := t, data_buf_list := [], url_buf := url, server_name_len := l1,
          res_url_len := l2, url_access_num := 1\<rparr>)"
  shows "url_inv ctx5 \<and> n \<in> set (url_use_list ctx5)"
proof -
  have "url_inv ctx4" unfolding ctx4
    by (rule url_new_inv [OF inv tk _ _ refl])
      (use hash_find_None [OF inv new] in \<open>auto simp: bit_or_iff\<close>)
  moreover have "n \<in> set (url_use_list ctx4)" unfolding ctx4 by (rule url_take_inv [OF tk]) simp
  ultimately show ?thesis unfolding ctx5 by (auto intro!: url_inv_upd simp: keeps_simps bit_or_iff)
qed

lemma url_handle_elim:
  assumes "ngx_http_sp_url_handle tree ctx url action = Some (url_id, ctx')"
  obtains (same) "url_id = -1" "ctx' = ctx"
  | (act) r k where "\<not> length url > HTTP_SP_URL_LEN_MAX - 1" "ngx_http_url_rule_get tree url = Some r"
    "url_tmp_key HTTP_SP_URL_LEN_MAX url r = Some k" "\<not> length k \<ge> HTTP_SP_LFILE_LEN_MAX"
    "url_handle_action ctx url r k action = Some (url_id, ctx')"
  using assms unfolding ngx_http_sp_url_handle_def
  by (auto simp: bind_eq_Some_conv split: if_splits option.splits(2))

lemma url_handle_inv [wf_intros]:
  assumes inv: "url_inv ctx" and r: "ngx_http_sp_url_handle tree ctx url action = Some (url_id, ctx')"
  shows "url_inv ctx' \<and> (url_id = -1 \<or> (\<exists>n \<in> set (url_use_list ctx'). url_id = int n))"
proof -
  have new: "url_inv c \<and> (i = -1 \<or> (\<exists>n \<in> set (url_use_list c). i = int n))"
    if "url_handle_new ctx url r k = Some (i, c)" "ngx_http_snooping_url_hash_find ctx k = None" for r k i c
  proof (cases "url_free ctx > 0")
    case True
    then obtain n ctx1 where tk: "url_take ctx = Some (n, ctx1)" using url_take_ok [OF inv] by auto
    show ?thesis using that(1) True url_handle_new_inv [OF inv tk that(2) refl refl]
      by (auto simp: url_handle_new_def tk Let_def)
  qed (use that inv in \<open>auto simp: url_handle_new_def\<close>)
  have act: "url_inv c \<and> (i = -1 \<or> (\<exists>n \<in> set (url_use_list c). i = int n))"
    if "url_handle_action ctx url r k action = Some (i, c)" for r k i c
  proof (cases "ngx_http_snooping_url_hash_find ctx k")
    case None
    then show ?thesis using that inv new by (auto simp: url_handle_action_def Let_def split: if_splits)
  next
    case (Some n)
    have n: "n \<in> set (url_use_list ctx)" using hash_find_Some [OF inv Some] .
    have "url_inv (upd_url ctx n (\<lambda>v. v\<lparr>url_access_num := url_access_num v + 1\<rparr>))"
      "url_inv (upd_url ctx n (\<lambda>v. v\<lparr>url_action := HTTP_C2SP_ACTION_DELETE\<rparr>))"
      using inv by (intro url_inv_upd; simp add: keeps_simps)+
    then show ?thesis using that inv n Some http_url_cache_add_inv
      by (auto simp: url_handle_action_def Let_def split: if_splits)
  qed
  from r show ?thesis by (cases rule: url_handle_elim) (use inv act in auto)
qed

lemma youku_url_add_inv [wf_intros]:
  assumes inv: "url_inv ctx" and r: "ngx_http_youku_url_add tree ctx url = Some ctx'"
  shows "url_inv ctx'"
proof -
  have touch: "url_inv (youku_url_touch c url n)" if "url_inv c" "n \<in> set (url_use_list c)" for c n
    unfolding youku_url_touch_def using that
    by (auto intro!: url_inv_upd http_url_cache_add_inv simp: keeps_simps bit_or_iff)
  have new: "url_inv c \<and> (\<forall>n. sp = Some n \<longrightarrow> n \<in> set (url_use_list c))"
    if "youku_url_new ctx r k = Some (sp, c)" "ngx_http_snooping_url_hash_find ctx k = None" for r k sp c
  proof (cases "url_free ctx > 0")
    case True
    then obtain n ctx1 where tk: "url_take ctx = Some (n, ctx1)" using url_take_ok [OF inv] by auto
    have c: "c = upd_url (ngx_http_snooping_url_hash_add (upd_url ctx1 n (\<lambda>v. v\<lparr>file_key_name := k,
        pcache_rule := Some r, url_encoding := HTTP_ECODING_TYPE_NONE, url_flags := HTTP_SNOOPING_FLG_RES\<rparr>)) n) n
        (\<lambda>v. v\<lparr>write_error_num := 0, node_mime := http_mime_null\<rparr>)" and "sp = Some n"
      using that(1) True by (auto simp: youku_url_new_def tk Let_def key_buf_store_def split: if_splits)
    moreover have "url_inv c" unfolding c
      by (rule url_new_inv [OF inv tk _ _ refl])
        (use hash_find_None [OF inv that(2)] in \<open>auto simp: bit_or_iff\<close>)
    moreover have "n \<in> set (url_use_list c)" unfolding c by (rule url_take_inv [OF tk]) simp
    ultimately show ?thesis by simp
  qed (use that inv in \<open>auto simp: youku_url_new_def\<close>)
  show ?thesis
  proof (cases "ctx' = ctx")
    case False
    then obtain k rl sp c where "youku_url_find ctx rl k = Some (sp, c)"
      and ctx': "ctx' = (case sp of None \<Rightarrow> c | Some n \<Rightarrow> youku_url_touch c url n)"
      using r unfolding ngx_http_youku_url_add_def
      by (fastforce simp: bind_eq_Some_conv split: if_splits option.splits(2))
    then have "url_inv c \<and> (\<forall>n. sp = Some n \<longrightarrow> n \<in> set (url_use_list c))"
      using inv new hash_find_Some [OF inv] by (auto simp: youku_url_find_def split: option.splits)
    then show ?thesis using touch by (auto simp: ctx' split: option.split)
  qed (simp add: inv)
qed

lemma url_record_inv [wf_intros]:
  assumes inv: "url_inv ctx"
    and r: "ngx_http_snooping_url_record tree ctx sname res post_fix = Some (con_url, pf, ctx')"
  shows "url_inv ctx' \<and> (\<forall>n. con_url = Some n \<longrightarrow> n \<in> set (url_use_list ctx'))"
proof -
  have touch: "url_inv (upd_url c n (\<lambda>v. v\<lparr>url_access_num := url_access_num v + 1\<rparr>))" if "url_inv c" for c n
    using that by (auto intro!: url_inv_upd simp: keeps_simps)
  have new: "url_inv c \<and> (\<forall>n. sp = Some n \<longrightarrow> n \<in> set (url_use_list c))"
    if nw: "url_record_new ctx sname res post_fix r k = Some (sp, p, c)"
      "ngx_http_snooping_url_hash_find ctx k = None" for r k sp p c
  proof (cases "cache_flg r AND HTTP_CACHE_URL_ACTION_CACHE_SP \<noteq> 0 \<and> url_free ctx > 0")
    case True
    then obtain n ctx1 where tk: "url_take ctx = Some (n, ctx1)" using url_take_ok [OF inv] by auto
    define ctx3 where "ctx3 = ngx_http_snooping_url_hash_add (upd_url ctx1 n (\<lambda>v. v\<lparr>file_key_name := k,
        redirect_addr := 0, write_error_num := 0, url_flags := HTTP_SNOOPING_FLG_RES\<rparr>)) n"
    define ctx4 where "ctx4 = upd_url ctx3 n (\<lambda>v. v\<lparr>pcache_rule := Some r, pkt_send_tick := jiffies ctx3,
        data_buf_list := [], url_buf := sname @ res, server_name_len := length sname,
        res_url_len := length res, url_access_num := 0, url_encoding := HTTP_ECODING_TYPE_NONE,
        url_action := HTTP_C2SP_ACTION_ADD\<rparr>)"
    have c: "c = upd_url (http_url_cache_add ctx4 n 0) n (\<lambda>v. v\<lparr>node_mime := http_mime_null\<rparr>)" "sp = Some n"
      using nw(1) True by (auto simp: url_record_new_def tk Let_def key_buf_store_def ctx4_def ctx3_def
          http_url_cache_data_add_eq split: if_splits)
    have "url_inv ctx4" unfolding ctx4_def ctx3_def
      by (rule url_new_inv [OF inv tk _ _ refl])
        (use hash_find_None [OF inv nw(2)] in \<open>auto simp: bit_or_iff\<close>)
    moreover have "n \<in> set (url_use_list ctx4)"
      unfolding ctx4_def ctx3_def by (rule url_take_inv [OF tk]) simp
    ultimately show ?thesis unfolding c
      by (auto intro!: url_inv_upd http_url_cache_add_inv simp: keeps_simps)
  qed (use nw inv in \<open>auto simp: url_record_new_def\<close>)
  show ?thesis
  proof (cases "ctx' = ctx \<and> con_url = None")
    case False
    then obtain k rl c where "url_record_find ctx sname res post_fix rl k = Some (con_url, pf, c)"
      and ctx': "ctx' = (case con_url of None \<Rightarrow> c
            | Some n \<Rightarrow> upd_url c n (\<lambda>v. v\<lparr>url_access_num := url_access_num v + 1\<rparr>))"
      using r unfolding ngx_http_snooping_url_record_def
      by (fastforce simp: bind_eq_Some_conv split: if_splits option.splits(2))
    then have "url_inv c \<and> (\<forall>n. con_url = Some n \<longrightarrow> n \<in> set (url_use_list c))"
      using inv new hash_find_Some [OF inv] by (auto simp: url_record_find_def split: option.splits)
    then show ?thesis using touch by (auto simp: ctx' split: option.split)
  qed (simp add: inv)
qed

lemma sp2c_rec_inv [wf_intros]: "url_inv ctx \<Longrightarrow> url_inv (ngx_http_sp2c_rec_process ctx pkt)"
  unfolding ngx_http_sp2c_rec_process_def Let_def
  by (auto intro!: url_inv_upd simp: keeps_simps bit_or_iff bit_and_iff bit_not_iff split: option.split)

lemma c2sp_rec_inv [wf_intros]:
  assumes "url_inv ctx" "ngx_http_c2sp_rec_process tree ctx pkt = Some (ctx', res)"
  shows "url_inv ctx'"
proof (cases "ctx' = ctx")
  case False
  then obtain p i ctx1 where "pkt = Some p"
    and h: "(if unat (c2sp_url_len p) > HTTP_SP_URL_LEN_MAX - 1 then Some (-1, ctx)
        else do { url \<leftarrow> mem_read (usr_data p) 0 (unat (c2sp_url_len p));
                  ngx_http_sp_url_handle tree ctx url (c2sp_action p) }) = Some (i, ctx1)"
    and ctx': "ctx' = (if c2sp_action p = HTTP_C2SP_ACTION_ADD
        then ngx_http_sp_url_state_setby_id ctx1 i HTTP_LOCAL_DOWN_STATE_OK else ctx1)"
    using assms(2) unfolding ngx_http_c2sp_rec_process_def Let_def
    by (auto simp: bind_eq_Some_conv split: option.splits if_splits)
  then have "url_inv ctx1"
    using assms(1) url_handle_inv by (fastforce simp: bind_eq_Some_conv split: if_splits)
  then show ?thesis by (simp add: ctx' setby_id_inv)
qed (simp add: assms)

section \<open>The table as a map from keys to nodes\<close>

definition url_map :: "http_snooping_ctx \<Rightarrow> cstr \<rightharpoonup> nat" where
  "url_map ctx k = List.find (\<lambda>n. key_of ctx n = k) (url_use_list ctx)"

lemma url_map_Some_iff:
  assumes "url_inv ctx"
  shows "url_map ctx k = Some n \<longleftrightarrow> n \<in> set (url_use_list ctx) \<and> key_of ctx n = k"
proof -
  have "inj_on (key_of ctx) (set (url_use_list ctx))" using assms by (simp add: url_inv_def hash_inv_def)
  then have "\<exists>m. url_map ctx k = Some m" if "n \<in> set (url_use_list ctx)" "key_of ctx n = k"
    using that by (metis (mono_tags, lifting) find_None_iff not_None_eq url_map_def)
  then show ?thesis
    using \<open>inj_on (key_of ctx) (set (url_use_list ctx))\<close>
    by (auto simp: url_map_def find_Some_iff inj_on_def) (metis nth_mem)
qed

lemma c_strncmp_eq: "NUL \<notin> set t \<Longrightarrow> length s = length t \<Longrightarrow> c_strncmp (length t) s t = 0 \<longleftrightarrow> s = t"
proof (induction s t rule: list_induct2')
  case (4 x xs y ys)
  then show ?case by auto
qed auto

lemma hash_find_map:
  assumes inv: "url_inv ctx" and k: "NUL \<notin> set k"
  shows "ngx_http_snooping_url_hash_find ctx k = url_map ctx k"
proof -
  have "(length k = length (key_of ctx n) \<and> c_strncmp (length k) (key_of ctx n) k = 0) \<longleftrightarrow> key_of ctx n = k" for n
    using c_strncmp_eq [OF k, of "key_of ctx n"] by metis
  then have f: "ngx_http_snooping_url_hash_find ctx k =
      List.find (\<lambda>n. key_of ctx n = k) (url_hash ctx (url_bucket k))"
    by (simp add: ngx_http_snooping_url_hash_find_def key_of_def)
  have b: "set (url_hash ctx (url_bucket k)) = {n \<in> set (url_use_list ctx). url_bucket (key_of ctx n) = url_bucket k}"
    using inv by (auto simp: url_inv_def hash_inv_def)
  show ?thesis
  proof (cases "ngx_http_snooping_url_hash_find ctx k")
    case None
    then have "url_map ctx k = None" using hash_find_None [OF inv] by (auto simp: url_map_def find_None_iff)
    then show ?thesis using None by simp
  next
    case (Some n)
    then have "key_of ctx n = k" using f by (auto simp: find_Some_iff)
    then have "url_map ctx k = Some n" using url_map_Some_iff [OF inv] hash_find_Some [OF inv Some] by blast
    then show ?thesis using Some by simp
  qed
qed

lemma hash_find_upd:
  assumes "\<And>v. file_key_name (f v) = file_key_name v"
  shows "ngx_http_snooping_url_hash_find (upd_url ctx n f) k = ngx_http_snooping_url_hash_find ctx k"
proof -
  have "file_key_name (url_base (upd_url ctx n f) m) = file_key_name (url_base ctx m)" for m by (simp add: assms)
  then show ?thesis unfolding ngx_http_snooping_url_hash_find_def by (simp del: upd_url_simps(7))
qed

lemma hash_find_new:
  assumes inv: "url_inv ctx" and tk: "url_take ctx = Some (n, ctx1)"
    and none: "ngx_http_snooping_url_hash_find ctx k = None"
    and f: "file_key_name (f (url_base ctx n)) = k"
  shows "ngx_http_snooping_url_hash_find (ngx_http_snooping_url_hash_add (upd_url ctx1 n f) n) k = Some n"
proof -
  obtain fs where fs: "url_free_list ctx = n # fs"
    and ctx1: "ctx1 = ctx\<lparr>url_free_list := fs, url_use_list := n # url_use_list ctx, url_free := url_free ctx - 1\<rparr>"
    using url_take_inv [OF tk] .
  define C where "C = ngx_http_snooping_url_hash_add (upd_url ctx1 n f) n"
  define P where "P = (\<lambda>c m. length k = length (key_of c m) \<and> c_strncmp (length k) (key_of c m) k = 0)"
  have n: "n \<notin> set (url_hash ctx (url_bucket k))"
    using inv fs by (auto simp: url_inv_def hash_inv_def pool_inv_def)
  have C: "url_hash C (url_bucket k) = url_hash ctx (url_bucket k) @ [n]" "key_of C n = k"
    "\<And>m. m \<noteq> n \<Longrightarrow> key_of C m = key_of ctx m"
    using f by (auto simp: C_def ctx1 ngx_http_snooping_url_hash_add_def Let_def key_of_def)
  have "List.find (P ctx) (url_hash ctx (url_bucket k)) = None"
    using none by (simp add: ngx_http_snooping_url_hash_find_def P_def key_of_def)
  moreover have "List.find (P C) (url_hash ctx (url_bucket k)) = List.find (P ctx) (url_hash ctx (url_bucket k))"
  proof (rule find_cong_set)
    fix m assume "m \<in> set (url_hash ctx (url_bucket k))"
    then have "m \<noteq> n" using n by blast
    then show "P C m = P ctx m" using C(3) by (simp add: P_def)
  qed
  moreover have "P C n" using C(2) c_strncmp_refl by (simp add: P_def)
  ultimately have "List.find (P C) (url_hash C (url_bucket k)) = Some n" by (simp add: C(1) find_append)
  then show ?thesis by (simp add: ngx_http_snooping_url_hash_find_def P_def key_of_def C_def)
qed

lemma url_handle_new_found:
  assumes inv: "url_inv ctx" and none: "ngx_http_snooping_url_hash_find ctx k = None"
    and r: "url_handle_new ctx url r k = Some (int n, ctx')"
  shows "ngx_http_snooping_url_hash_find ctx' k = Some n"
proof -
  have "url_free ctx > 0" using r by (auto simp: url_handle_new_def split: if_splits)
  then obtain ctx1 where tk: "url_take ctx = Some (n, ctx1)"
    using r by (auto simp: url_handle_new_def bind_eq_Some_conv Let_def)
  have ctx': "ctx' = (let ctx4 = upd_url (ngx_http_snooping_url_hash_add (upd_url ctx1 n (\<lambda>v. v\<lparr>url_flags := 0,
        file_key_name := k, pcache_rule := Some r, redirect_addr := ngx_server_addr ctx1,
        url_encoding := HTTP_ECODING_TYPE_NONE\<rparr>)) n) n
        (\<lambda>v. set_flg HTTP_SNOOPING_FLG_RES v\<lparr>write_error_num := 0, node_mime := http_mime_null\<rparr>) in
        upd_url ctx4 n (\<lambda>v. set_flg HTTP_SNOOPING_FLG_RES_LFB v
        \<lparr>pkt_send_tick := jiffies ctx4, data_buf_list := [], url_buf := url, server_name_len := url_server_len url,
          res_url_len := length url - url_server_len url, url_access_num := 1\<rparr>))"
    using r \<open>url_free ctx > 0\<close> by (simp add: url_handle_new_def tk Let_def)
  show ?thesis unfolding ctx' Let_def
    by (simp add: hash_find_upd hash_find_new [OF inv tk none])
qed

section \<open>Properties\<close>

text \<open>C10. The hash table implements a map: looking up a key without NUL bytes finds exactly the used node
  that stores this key, in every table that satisfies the invariant.\<close>

theorem hash_find_refines_map:
  assumes "url_inv ctx" "NUL \<notin> set k"
  shows "ngx_http_snooping_url_hash_find ctx k = url_map ctx k
    \<and> (\<forall>n. url_map ctx k = Some n \<longleftrightarrow> n \<in> set (url_use_list ctx) \<and> file_key_name (url_base ctx n) = k)"
  using hash_find_map [OF assms] url_map_Some_iff [OF assms(1)] by (simp add: key_of_def)

lemma hash_find_refines_map_witness:
  "ngx_http_snooping_url_hash_find (ngx_http_snooping_ctx_init 0 0) ''/a.com/x'' = None"
proof -
  have "NUL \<notin> set ''/a.com/x''" by simp
  from hash_find_refines_map [OF url_inv_init this, of 0 0] show ?thesis
    by (simp add: url_map_def ngx_http_snooping_ctx_init_def)
qed

text \<open>C11. A URL that was added is found again: when \<open>ngx_http_sp_url_handle\<close> answers the add request with
  the id of a node, \<open>ngx_http_sp_urlid_get\<close> answers the same URL with the same id.\<close>

theorem url_handle_add_lookup:
  assumes inv: "url_inv ctx" and "0 \<le> url_id"
    and add: "ngx_http_sp_url_handle tree ctx url HTTP_C2SP_ACTION_ADD = Some (url_id, ctx')"
  shows "ngx_http_sp_urlid_get tree ctx' (Some url) = Some url_id \<and> NGX_HTTP_URLID_VALID url_id"
proof -
  obtain r k where r: "\<not> length url > HTTP_SP_URL_LEN_MAX - 1" "ngx_http_url_rule_get tree url = Some r"
    "url_tmp_key HTTP_SP_URL_LEN_MAX url r = Some k" "\<not> length k \<ge> HTTP_SP_LFILE_LEN_MAX"
    "url_handle_action ctx url r k HTTP_C2SP_ACTION_ADD = Some (url_id, ctx')"
    using add by (rule url_handle_elim) (use \<open>0 \<le> url_id\<close> in auto)
  obtain n where n: "url_id = int n" "n \<in> set (url_use_list ctx')" "url_inv ctx'"
    using url_handle_inv [OF inv add] \<open>0 \<le> url_id\<close> by auto
  have "ngx_http_snooping_url_hash_find ctx' k = Some n"
  proof (cases "ngx_http_snooping_url_hash_find ctx k")
    case None
    then show ?thesis using url_handle_new_found [OF inv None] r(5) n(1)
      by (simp add: url_handle_action_def)
  next
    case (Some m)
    then show ?thesis using r(5) n(1) by (auto simp: url_handle_action_def hash_find_upd)
  qed
  moreover have "n < HTTP_SP_URL_MAX" using inv_use_less n by blast
  ultimately show ?thesis using r(1-4) n(1)
    by (simp add: ngx_http_sp_urlid_get_def NGX_HTTP_URLID_VALID_def)
qed

lemma url_tmp_key_length:
  assumes len: "length url + 1 < sz" and u: "CHR ''/'' # url = d @ f @ q"
    and p: "url_parts d f q" "key_rule_ok r (count_list d (CHR ''/''))"
  shows "\<exists>k. url_tmp_key sz url r = Some k \<and> length k = length (url_key r d f q)
    \<and> (key_copies_apart r d f q \<longrightarrow> k = url_key r d f q)"
proof -
  define b where "b = CHR ''/'' # url @ replicate (sz - 1 - length url) NUL"
  have b: "length url + 1 < length b" "b ! (length url + 1) = NUL" "sl b 0 (length url + 1) = d @ f @ q"
    using len u by (auto simp: b_def nth_append sl_def)
  obtain b' k where "ngx_http_snooping_url2local_key b (length url + 1) r = Some (b', length k)"
    "length b' = length b" "sl b' 0 (length k) = k" "length k = length (url_key r d f q)"
    "length k \<le> length url + 1" "key_copies_apart r d f q \<longrightarrow> k = url_key r d f q"
    using url2local_key_refines [OF b p] by blast
  then show ?thesis using len b(1) unfolding url_tmp_key_def b_def [symmetric] by (simp add: mem_read_sl)
qed

lemma youku_flv_rule:
  "ngx_http_url_rule_get http_cache_host_tree ''1.2.3.4/youku/x.flv'' = Some (http_cache_file ! 0)"
  by code_simp

lemma youku_flv_key:
  "url_tmp_key HTTP_SP_URL_LEN_MAX ''1.2.3.4/youku/x.flv'' (http_cache_file ! 0) = Some ''/youku/x.flv''"
  by code_simp

lemma youku_flv_flags:
  "cache_flg (http_cache_file ! 0) AND HTTP_CACHE_URL_ACTION_CACHE_UPSTREAM \<noteq> 0"
  by (simp add: http_cache_file_def rule_def http_cache_flag_defs)

lemma url_handle_new_some:
  assumes "url_inv ctx" "0 < url_free ctx"
  shows "\<exists>n ctx'. url_handle_new ctx url r k = Some (int n, ctx')"
  using url_take_ok [OF assms] assms(2) by (auto simp: url_handle_new_def Let_def)

lemma ctx_init_free:
  "0 < url_free (ngx_http_snooping_ctx_init s t)"
  "ngx_http_snooping_url_hash_find (ngx_http_snooping_ctx_init s t) k = None"
  by (simp_all add: ngx_http_snooping_ctx_init_def HTTP_SP_URL_MAX_def ngx_http_snooping_url_hash_find_def)

lemma url_handle_eq_action:
  assumes "\<not> length url > HTTP_SP_URL_LEN_MAX - 1" "ngx_http_url_rule_get tree url = Some r"
    "cache_flg r AND HTTP_CACHE_URL_ACTION_CACHE_UPSTREAM \<noteq> 0" "url_tmp_key HTTP_SP_URL_LEN_MAX url r = Some k"
    "\<not> length k \<ge> HTTP_SP_LFILE_LEN_MAX"
  shows "ngx_http_sp_url_handle tree ctx url action = url_handle_action ctx url r k action"
  using assms by (simp add: ngx_http_sp_url_handle_def)

lemma youku_flv_handle:
  "ngx_http_sp_url_handle http_cache_host_tree ctx ''1.2.3.4/youku/x.flv'' action =
     url_handle_action ctx ''1.2.3.4/youku/x.flv'' (http_cache_file ! 0) ''/youku/x.flv'' action"
proof -
  have "\<not> length ''1.2.3.4/youku/x.flv'' > HTTP_SP_URL_LEN_MAX - 1"
    "\<not> length ''/youku/x.flv'' \<ge> HTTP_SP_LFILE_LEN_MAX"
    by (simp_all add: HTTP_SP_URL_LEN_MAX_def HTTP_SP_LFILE_LEN_MAX_def)
  from url_handle_eq_action [OF this(1) youku_flv_rule youku_flv_flags youku_flv_key this(2)] show ?thesis .
qed

lemma youku_flv_add:
  "\<exists>n ctx'. ngx_http_sp_url_handle http_cache_host_tree (ngx_http_snooping_ctx_init s t) ''1.2.3.4/youku/x.flv''
     HTTP_C2SP_ACTION_ADD = Some (int n, ctx')"
  using url_handle_new_some [OF url_inv_init ctx_init_free(1)]
  by (simp add: youku_flv_handle url_handle_action_def ctx_init_free(2))

lemma url_handle_add_lookup_witness:
  "\<exists>url_id ctx'. ngx_http_sp_url_handle http_cache_host_tree (ngx_http_snooping_ctx_init 0 0)
       ''1.2.3.4/youku/x.flv'' HTTP_C2SP_ACTION_ADD = Some (url_id, ctx')
     \<and> ngx_http_sp_urlid_get http_cache_host_tree ctx' (Some ''1.2.3.4/youku/x.flv'') = Some url_id"
proof -
  obtain n ctx' where a: "ngx_http_sp_url_handle http_cache_host_tree (ngx_http_snooping_ctx_init 0 0)
      ''1.2.3.4/youku/x.flv'' HTTP_C2SP_ACTION_ADD = Some (int n, ctx')" using youku_flv_add by blast
  have "0 \<le> int n" by simp
  from url_handle_add_lookup [OF url_inv_init this a] a show ?thesis by blast
qed

text \<open>C21. A delete request for a URL that passes the checks. If its key is not in the table the answer is -1 and nothing
  changes. If it is, the answer is the id of the node found under the key; exactly that node is marked
  for deletion and put on the wheel, where the write task finds it, at the end of the list of the current tick unless it was
  on the wheel already. The table, the lists of nodes and all other nodes stay as they are.\<close>

theorem url_handle_delete_marks:
  assumes inv: "url_inv ctx"
    and url: "length url \<le> HTTP_SP_URL_LEN_MAX - 1" "ngx_http_url_rule_get tree url = Some r"
      "cache_flg r AND HTTP_CACHE_URL_ACTION_CACHE_UPSTREAM \<noteq> 0"
      "url_tmp_key HTTP_SP_URL_LEN_MAX url r = Some k" "length k < HTTP_SP_LFILE_LEN_MAX"
  shows "case ngx_http_snooping_url_hash_find ctx k of
      None \<Rightarrow> ngx_http_sp_url_handle tree ctx url HTTP_C2SP_ACTION_DELETE = Some (-1, ctx)
    | Some n \<Rightarrow> (NUL \<notin> set k \<longrightarrow> file_key_name (url_base ctx n) = k)
        \<and> (\<exists>ctx'. ngx_http_sp_url_handle tree ctx url HTTP_C2SP_ACTION_DELETE = Some (int n, ctx')
             \<and> url_map ctx' = url_map ctx \<and> url_use_list ctx' = url_use_list ctx \<and> url_free_list ctx' = url_free_list ctx
             \<and> (\<forall>m. m \<noteq> n \<longrightarrow> url_base ctx' m = url_base ctx m)
             \<and> url_action (url_base ctx' n) = HTTP_C2SP_ACTION_DELETE \<and> set (wheel ctx') = insert n (set (wheel ctx))
             \<and> (has_flg HTTP_SNOOPING_FLG_CACHE_LIST (url_base ctx n)
                \<or> url_cache_list ctx' (unat (ngx_write_tick ctx) mod HTTP_CACHE_TIME_OUT)
                    = url_cache_list ctx (unat (ngx_write_tick ctx) mod HTTP_CACHE_TIME_OUT) @ [n]))"
proof (cases "ngx_http_snooping_url_hash_find ctx k")
  case None
  then show ?thesis using url
    by (simp add: ngx_http_sp_url_handle_def url_handle_action_def HTTP_C2SP_ACTION_DELETE_def HTTP_C2SP_ACTION_ADD_def)
next
  case (Some n)
  define c where "c = upd_url ctx n (\<lambda>v. v\<lparr>url_action := HTTP_C2SP_ACTION_DELETE\<rparr>)"
  define ctx' where "ctx' = http_url_cache_add c n 0"
  have del: "ngx_http_sp_url_handle tree ctx url HTTP_C2SP_ACTION_DELETE = Some (int n, ctx')"
    using Some url by (simp add: ngx_http_sp_url_handle_def url_handle_action_def HTTP_C2SP_ACTION_DELETE_def
        HTTP_C2SP_ACTION_ADD_def ctx'_def c_def)
  have use: "n \<in> set (url_use_list ctx)" by (rule hash_find_Some [OF inv Some])
  have key: "file_key_name (url_base ctx n) = k" if "NUL \<notin> set k"
    using hash_find_map [OF inv that] url_map_Some_iff [OF inv, of k n] Some by (simp add: key_of_def)
  have "key_of ctx' = key_of ctx" by (auto simp: key_of_def ctx'_def c_def)
  then have "url_map ctx' = url_map ctx" by (simp add: url_map_def ctx'_def c_def fun_eq_iff)
  moreover have "set (wheel ctx') = insert n (set (wheel ctx))"
  proof -
    have "wheel c = wheel ctx" "has_flg HTTP_SNOOPING_FLG_CACHE_LIST (url_base c n) = has_flg HTTP_SNOOPING_FLG_CACHE_LIST (url_base ctx n)"
      by (simp_all add: c_def has_flg_def)
    moreover have "has_flg HTTP_SNOOPING_FLG_CACHE_LIST (url_base ctx n) \<Longrightarrow> n \<in> set (wheel ctx)"
      using inv inv_use_less [OF inv use] by (auto simp: url_inv_def wheel_inv_def)
    ultimately show ?thesis using cache_add_wheel [of c n 0] by (auto simp: ctx'_def)
  qed
  moreover have "url_use_list ctx' = url_use_list ctx" "url_free_list ctx' = url_free_list ctx"
    "url_action (url_base ctx' n) = HTTP_C2SP_ACTION_DELETE" "\<And>m. m \<noteq> n \<Longrightarrow> url_base ctx' m = url_base ctx m"
    "has_flg HTTP_SNOOPING_FLG_CACHE_LIST (url_base ctx n)
      \<or> url_cache_list ctx' (unat (ngx_write_tick ctx) mod HTTP_CACHE_TIME_OUT)
          = url_cache_list ctx (unat (ngx_write_tick ctx) mod HTTP_CACHE_TIME_OUT) @ [n]"
    by (simp_all add: ctx'_def c_def http_url_cache_add_def Let_def c_simps)
  ultimately show ?thesis using Some key del by auto
qed

lemma url_handle_delete_marks_witness:
  "\<exists>ctx n ctx'. url_inv ctx \<and> ngx_http_sp_url_handle http_cache_host_tree ctx ''1.2.3.4/youku/x.flv''
       HTTP_C2SP_ACTION_DELETE = Some (int n, ctx') \<and> n \<in> set (wheel ctx')"
proof -
  obtain n ctx where a: "ngx_http_sp_url_handle http_cache_host_tree (ngx_http_snooping_ctx_init 0 0)
      ''1.2.3.4/youku/x.flv'' HTTP_C2SP_ACTION_ADD = Some (int n, ctx)" using youku_flv_add by blast
  have inv: "url_inv ctx" using url_handle_inv [OF url_inv_init a] by simp
  have "url_handle_new (ngx_http_snooping_ctx_init 0 0) ''1.2.3.4/youku/x.flv'' (http_cache_file ! 0) ''/youku/x.flv''
      = Some (int n, ctx)"
    using a by (simp add: youku_flv_handle url_handle_action_def ctx_init_free(2))
  note found = url_handle_new_found [OF url_inv_init ctx_init_free(2) this]
  have "length ''1.2.3.4/youku/x.flv'' \<le> HTTP_SP_URL_LEN_MAX - 1" "length ''/youku/x.flv'' < HTTP_SP_LFILE_LEN_MAX"
    by (simp_all add: HTTP_SP_URL_LEN_MAX_def HTTP_SP_LFILE_LEN_MAX_def)
  from url_handle_delete_marks [OF inv this(1) youku_flv_rule youku_flv_flags youku_flv_key this(2)] found inv
  show ?thesis by auto
qed

text \<open>C22. The longest URL that the length check lets through, 599 bytes, overruns the stack buffer: the
  terminator of the key is written at index 600 of an array of 600 bytes, in the handler of add and delete
  requests as well as in the lookup of an id.\<close>

theorem url_handle_599_overflow:
  assumes "length url = HTTP_SP_URL_LEN_MAX - 1" "ngx_http_url_rule_get tree url = Some r"
    and "cache_flg r AND HTTP_CACHE_URL_ACTION_CACHE_UPSTREAM \<noteq> 0"
  shows "ngx_http_sp_url_handle tree ctx url action = None
           \<and> ngx_http_sp_urlid_get tree ctx (Some url) = None"
proof -
  have "url_tmp_key HTTP_SP_URL_LEN_MAX url r = None"
    using assms(1) by (simp add: url_tmp_key_def HTTP_SP_URL_LEN_MAX_def)
  then show ?thesis using assms by (simp add: ngx_http_sp_url_handle_def ngx_http_sp_urlid_get_def)
qed

definition url_599 :: cstr where
  "url_599 = ''1.2.3.4/youku/'' @ replicate 581 (CHR ''x'') @ ''.flv''"

lemma url_599_rule: "ngx_http_url_rule_get http_cache_host_tree url_599 = Some (http_cache_file ! 0)"
  by code_simp

lemma url_handle_599_overflow_witness:
  "length url_599 = 599
     \<and> ngx_http_sp_url_handle http_cache_host_tree (ngx_http_snooping_ctx_init 0 0) url_599 HTTP_C2SP_ACTION_ADD = None"
proof -
  have "length url_599 = HTTP_SP_URL_LEN_MAX - 1" by (simp add: url_599_def HTTP_SP_URL_LEN_MAX_def)
  from url_handle_599_overflow [OF this url_599_rule youku_flv_flags] this show ?thesis
    by (simp add: HTTP_SP_URL_LEN_MAX_def)
qed

text \<open>C23. A key of exactly 256 bytes passes the check of \<open>ngx_http_snooping_url_record\<close> (which compares
  with \<open>>\<close> where the other callers use \<open>\<ge>\<close>) and its terminator is written behind \<open>key_buf\<close>, into the
  first byte of the next node.\<close>

theorem url_record_key_256_overflow:
  assumes "\<not> length sname + length res + 1 > HTTP_SP_URL_LEN_MAX - 1"
    and "ngx_http_url_rule_get tree (sname @ res) = Some r" "cache_flg r AND HTTP_CACHE_URL_ACTION_CACHE_SP \<noteq> 0"
    and "url_tmp_key HTTP_SP_URL_LEN_MAX (sname @ res) r = Some k" "length k = HTTP_SP_LFILE_LEN_MAX"
    and "url_inv ctx" "ngx_http_snooping_url_hash_find ctx k = None" "0 < url_free ctx"
  shows "ngx_http_snooping_url_record tree ctx sname res post_fix = None"
proof -
  have "key_buf_store k = None" using assms(5) by (simp add: key_buf_store_def)
  then have "url_record_find ctx sname res post_fix r k = None"
    using assms(3,7,8) url_take_ok [OF assms(6,8)] by (auto simp: url_record_find_def url_record_new_def)
  then show ?thesis using assms(1,2,4,5) by (simp add: ngx_http_snooping_url_record_def)
qed

definition res_256 :: cstr where
  "res_256 = ''/v_show/'' @ replicate 238 (CHR ''x'') @ ''.html''"

lemma res_256_rule:
  "ngx_http_url_rule_get http_cache_host_tree (''v.youku.com'' @ res_256) = Some (hd http_youku_vidoe_html_url_str)"
  by code_simp

lemma res_256_url_key:
  "url_key (hd http_youku_vidoe_html_url_str) ''/v.youku.com/v_show'' (CHR ''/'' # replicate 238 (CHR ''x'') @ ''.html'') []
     = ''/v.youku.com/'' @ replicate 238 (CHR ''x'') @ ''.html''"
  by code_simp

lemma res_256_key:
  "\<exists>k. url_tmp_key HTTP_SP_URL_LEN_MAX (''v.youku.com'' @ res_256) (hd http_youku_vidoe_html_url_str) = Some k
     \<and> length k = HTTP_SP_LFILE_LEN_MAX"
proof -
  have "length (''v.youku.com'' @ res_256) + 1 < HTTP_SP_URL_LEN_MAX"
    "CHR ''/'' # ''v.youku.com'' @ res_256 =
       ''/v.youku.com/v_show'' @ (CHR ''/'' # replicate 238 (CHR ''x'') @ ''.html'') @ []"
    "url_parts ''/v.youku.com/v_show'' (CHR ''/'' # replicate 238 (CHR ''x'') @ ''.html'') []"
    "key_rule_ok (hd http_youku_vidoe_html_url_str) (count_list ''/v.youku.com/v_show'' (CHR ''/''))"
    by (simp_all add: res_256_def HTTP_SP_URL_LEN_MAX_def url_parts_def key_rule_ok_def
        http_youku_vidoe_html_url_str_def rule_def http_cache_flag_defs)
  from url_tmp_key_length [OF this] obtain k where
    "url_tmp_key HTTP_SP_URL_LEN_MAX (''v.youku.com'' @ res_256) (hd http_youku_vidoe_html_url_str) = Some k"
    "length k = length (''/v.youku.com/'' @ replicate 238 (CHR ''x'') @ ''.html'')"
    unfolding res_256_url_key by blast
  moreover have "length (''/v.youku.com/'' @ replicate 238 (CHR ''x'') @ ''.html'') = HTTP_SP_LFILE_LEN_MAX"
    by (simp add: HTTP_SP_LFILE_LEN_MAX_def)
  ultimately show ?thesis by (intro exI conjI) (assumption, erule trans)
qed

lemma url_record_key_256_overflow_witness:
  "ngx_http_snooping_url_record http_cache_host_tree (ngx_http_snooping_ctx_init 0 0) ''v.youku.com'' res_256 0 = None"
proof -
  obtain k where k: "url_tmp_key HTTP_SP_URL_LEN_MAX (''v.youku.com'' @ res_256) (hd http_youku_vidoe_html_url_str) = Some k"
    "length k = HTTP_SP_LFILE_LEN_MAX" using res_256_key by blast
  have "\<not> length ''v.youku.com'' + length res_256 + 1 > HTTP_SP_URL_LEN_MAX - 1"
    "cache_flg (hd http_youku_vidoe_html_url_str) AND HTTP_CACHE_URL_ACTION_CACHE_SP \<noteq> 0"
    by (simp_all add: res_256_def HTTP_SP_URL_LEN_MAX_def http_youku_vidoe_html_url_str_def rule_def http_cache_flag_defs)
  from url_record_key_256_overflow [OF this(1) res_256_rule this(2) k url_inv_init ctx_init_free(2,1)] show ?thesis .
qed

end
