(* ===== verification/SnoopWrite.thy ===== *)
theory SnoopWrite
  imports SnoopUrls
begin

text \<open>
  The write task of \<^verbatim>\<open>http-snooping.c\<close>: the data buffers of a node, the three ways of saving them to the
  local file, the log \<open>http-cache.txt\<close> and the loop \<open>ngx_http_snooping_write_process\<close> that works through the
  wheel, and \<open>ngx_http_snooping_load_url\<close>, which reads the log back. Files, sockets, zlib and the client of
  the video sites are outside: their answers are the fields of an environment, functions of the history of
  all calls made so far, so they may answer differently each time. The history is the list of events that
  every operation extends. \<^const>\<open>None\<close> is an undefined access, or a call of a loop that does not return.
\<close>

section \<open>The environment\<close>

datatype io =
    IoOpen cstr bool
  | IoWrite int cstr
  | IoClose
  | IoMkdir cstr
  | IoUncompress cstr
  | IoInflateInit int
  | IoInflate int cstr
  | IoInflateEnd
  | IoServer cstr u8 int
  | IoSend u32 u8 cstr

text \<open>\<open>env_open\<close>: whether \<open>ngx_open_file\<close> gives a descriptor; \<open>env_write\<close>: the result of \<open>write\<close>;
  \<open>env_inflate\<close>: return code, bytes put out and number of input bytes used; \<open>env_server\<close>: the result of
  \<open>ngx_http_server_url_handle\<close>; the two stacks are the bytes of the uninitialised local buffers
  \<open>local_file_buf\<close> and \<open>url_para\<close>.\<close>

record env =
  env_open :: "io list \<Rightarrow> cstr \<Rightarrow> bool"
  env_write :: "io list \<Rightarrow> cstr \<Rightarrow> int"
  env_inflate_init :: "io list \<Rightarrow> int"
  env_inflate :: "io list \<Rightarrow> cstr \<Rightarrow> int \<times> cstr \<times> nat"
  env_server :: "io list \<Rightarrow> cstr \<Rightarrow> u8 \<Rightarrow> int"
  env_HZ :: u32
  env_file_stack :: "nat \<Rightarrow> char"
  env_para_stack :: "nat \<Rightarrow> char"

definition HTTP_LOCAL_FILE_ROOT_MAX :: nat where
  "HTTP_LOCAL_FILE_ROOT_MAX = 64"

definition local_file_buf :: "env \<Rightarrow> buf" where
  "local_file_buf e = map (env_file_stack e) [0..<HTTP_SP_URL_LEN_MAX + HTTP_LOCAL_FILE_ROOT_MAX]"

definition url_para_buf :: "env \<Rightarrow> buf" where
  "url_para_buf e = map (env_para_stack e) [0..<HTTP_SP_URL_LEN_MAX]"

section \<open>Data buffers\<close>

definition http_url_cache_buf_get :: "http_snooping_ctx \<Rightarrow> nat \<Rightarrow> nat option \<times> http_snooping_ctx" where
  "http_url_cache_buf_get ctx n =
     (case data_buf_list (url_base ctx n) of
        [] \<Rightarrow> (None, ctx)
      | b # bs \<Rightarrow> (Some b, upd_url ctx n (\<lambda>v. v\<lparr>data_buf_list := bs\<rparr>)))"

definition http_cache_buf_free :: "http_snooping_ctx \<Rightarrow> nat \<Rightarrow> http_snooping_ctx" where
  "http_cache_buf_free ctx b =
     ctx\<lparr>data_buf_free_list := b # data_buf_free_list ctx, buf_num := buf_num ctx + 1\<rparr>"

text \<open>The buffer is returned but stays linked in the free list.\<close>

definition http_cache_buf_data_get :: "http_snooping_ctx \<Rightarrow> (nat option \<times> http_snooping_ctx) option" where
  "http_cache_buf_data_get ctx =
     (if buf_num ctx = 0 then Some (None, ctx)
      else case data_buf_free_list ctx of
        [] \<Rightarrow> None
      | b # _ \<Rightarrow> Some (Some b, ctx\<lparr>buf_num := buf_num ctx - 1\<rparr>))"

text \<open>The loop that gives the buffers of a node back.\<close>

function free_bufs :: "http_snooping_ctx \<Rightarrow> nat \<Rightarrow> http_snooping_ctx" where
  "free_bufs ctx n =
     (case http_url_cache_buf_get ctx n of
        (None, ctx1) \<Rightarrow> ctx1
      | (Some b, ctx1) \<Rightarrow> free_bufs (http_cache_buf_free ctx1 b) n)"
  by pat_completeness auto
termination
  by (relation "measure (\<lambda>(ctx, n). length (data_buf_list (url_base ctx n)))")
    (auto simp: http_url_cache_buf_get_def http_cache_buf_free_def split: list.splits)

section \<open>Writing files\<close>

text \<open>The loop of \<open>ngx_http_buf_write\<close>; the variable \<open>rc\<close> is never assigned on the way out after the last
  byte, so the result is unspecified there.\<close>

partial_function (option) ngx_http_buf_write ::
  "env \<Rightarrow> io list \<Rightarrow> cstr \<Rightarrow> (int option \<times> io list) option" where
  "ngx_http_buf_write e w pwrite =
     (let n = env_write e w pwrite; w1 = w @ [IoWrite n pwrite] in
      if n = -1 then Some (Some (-1), w1)
      else if n = int (length pwrite) then Some (None, w1)
      else ngx_http_buf_write e w1 (drop (nat n) pwrite))"

definition buf_bytes :: "http_snooping_ctx \<Rightarrow> nat \<Rightarrow> cstr" where
  "buf_bytes ctx b = take (buf_len (data_buf ctx b)) (buf_data (data_buf ctx b))"

function write_bufs ::
  "env \<Rightarrow> http_snooping_ctx \<Rightarrow> io list \<Rightarrow> nat \<Rightarrow> (http_snooping_ctx \<times> io list) option" where
  "write_bufs e ctx w n =
     (case http_url_cache_buf_get ctx n of
        (None, ctx1) \<Rightarrow> Some (ctx1, w)
      | (Some b, ctx1) \<Rightarrow>
          (case ngx_http_buf_write e w (buf_bytes ctx1 b) of
             None \<Rightarrow> None
           | Some (_, w1) \<Rightarrow> write_bufs e (http_cache_buf_free ctx1 b) w1 n))"
  by pat_completeness auto
termination
  by (relation "measure (\<lambda>(e, ctx, w, n). length (data_buf_list (url_base ctx n)))")
    (auto simp: http_url_cache_buf_get_def http_cache_buf_free_def split: list.splits)

definition http_cache_file_root :: cstr where
  "http_cache_file_root = ''/mnt/usb0/html/''"

text \<open>The path of the local file as the writers build it on their stack: the root, the name of the URL and
  the post-fix of its type.\<close>

definition local_file_path :: "env \<Rightarrow> http_snooping_url \<Rightarrow> cstr option" where
  "local_file_path e v =
     do {
       r \<leftarrow> pcache_rule v;
       d0 \<leftarrow> mem_write (local_file_buf e) 0 http_cache_file_root;
       (d1, n) \<leftarrow> ngx_http_snooping_url2local_file (url_para_buf e) (url_buf v @ [NUL])
                   (server_name_len v + res_url_len v) d0 (length http_cache_file_root) r;
       let end = length http_cache_file_root + n;
       d2 \<leftarrow> (if postfix (node_mime v) \<noteq> []
              then do {
                d \<leftarrow> mem_write d1 end (postfix (node_mime v));
                wr d (end + length (postfix (node_mime v))) NUL
              }
              else Some d1);
       Some (c_str d2)
     }"

text \<open>The common exit of the writers after an error.\<close>

definition write_failed :: "http_snooping_ctx \<Rightarrow> nat \<Rightarrow> http_snooping_ctx" where
  "write_failed ctx n =
     upd_url (free_bufs ctx n) n
       (clear_flg (HTTP_SNOOPING_FLG_RES_CACHE OR HTTP_SNOOPING_FLG_CACHE_BUF_ALLOC))"

definition ngx_http_none_write ::
  "env \<Rightarrow> http_snooping_ctx \<Rightarrow> io list \<Rightarrow> nat \<Rightarrow> (http_snooping_ctx \<times> io list) option" where
  "ngx_http_none_write e ctx w n =
     do {
       path \<leftarrow> local_file_path e (url_base ctx n);
       let fd = env_open e w path;
       let w1 = w @ [IoOpen path fd];
       if \<not> fd then Some (write_failed ctx n, w1)
       else do {
         (ctx2, w2) \<leftarrow> write_bufs e (upd_url ctx n (set_flg HTTP_SNOOPING_FLG_RES_LFN)) w1 n;
         Some (upd_url ctx2 n (set_flg HTTP_SNOOPING_FLG_RES_WRITE), w2 @ [IoClose])
       }
     }"

definition nxg_http_gzip_write ::
  "env \<Rightarrow> http_snooping_ctx \<Rightarrow> io list \<Rightarrow> nat \<Rightarrow> (http_snooping_ctx \<times> io list) option" where
  "nxg_http_gzip_write e ctx w n =
     do {
       path0 \<leftarrow> local_file_path e (url_base ctx n);
       path \<leftarrow> (if length path0 + 3 < length (local_file_buf e) then Some (path0 @ ''.gz'') else None);
       let fd = env_open e w path;
       let w1 = w @ [IoOpen path fd];
       if \<not> fd then Some (write_failed ctx n, w1)
       else do {
         (ctx2, w2) \<leftarrow> write_bufs e (upd_url ctx n (set_flg HTTP_SNOOPING_FLG_RES_LFN)) w1 n;
         Some (upd_url ctx2 n (set_flg HTTP_SNOOPING_FLG_RES_WRITE), w2 @ [IoClose, IoUncompress path])
       }
     }"

subsection \<open>Deflated data\<close>

definition Z_OK :: int where
  "Z_OK = 0"

definition Z_STREAM_END :: int where
  "Z_STREAM_END = 1"

definition Z_BUF_ERROR :: int where
  "Z_BUF_ERROR = -5"

definition deflate_buf_size :: nat where
  "deflate_buf_size = 24 * 1024"

definition dummy_head :: cstr where
  "dummy_head = [CHR 0x78, CHR 0x01]"

text \<open>The inner loop over one buffer: it goes on while the output fills the buffer. The first component of
  the result is false after an error of \<open>inflate\<close>.\<close>

partial_function (option) inflate_buf :: "env \<Rightarrow> io list \<Rightarrow> cstr \<Rightarrow> (bool \<times> io list) option" where
  "inflate_buf e w inp =
     (let (code, out, used) = env_inflate e w inp; w1 = w @ [IoInflate code out] in
      if code = Z_STREAM_END then
        do {
          w2 \<leftarrow> (if out \<noteq> [] then map_option snd (ngx_http_buf_write e w1 out) else Some w1);
          Some (True, w2 @ [IoInflateEnd])
        }
      else if code = Z_OK \<or> code = Z_BUF_ERROR then
        do {
          w2 \<leftarrow> (if out \<noteq> [] then map_option snd (ngx_http_buf_write e w1 out) else Some w1);
          if length out = deflate_buf_size then inflate_buf e w2 (drop used inp) else Some (True, w2)
        }
      else Some (False, w1))"

function deflate_bufs ::
  "env \<Rightarrow> http_snooping_ctx \<Rightarrow> io list \<Rightarrow> nat \<Rightarrow> nat \<Rightarrow> (bool \<times> http_snooping_ctx \<times> io list) option" where
  "deflate_bufs e ctx w n pbuf =
     (case inflate_buf e w (buf_bytes ctx pbuf) of
        None \<Rightarrow> None
      | Some (ok, w1) \<Rightarrow>
          if \<not> ok then Some (False, ctx, w1)
          else case http_url_cache_buf_get (http_cache_buf_free ctx pbuf) n of
            (None, ctx1) \<Rightarrow> Some (True, ctx1, w1)
          | (Some b, ctx1) \<Rightarrow> deflate_bufs e ctx1 w1 n b)"
  by pat_completeness auto
termination
  by (relation "measure (\<lambda>(e, ctx, w, n, b). length (data_buf_list (url_base ctx n)))")
    (auto simp: http_url_cache_buf_get_def http_cache_buf_free_def split: list.splits)

text \<open>The exit after an error with the file open. A buffer that was taken off the list before the error is
  not given back.\<close>

definition deflate_failed :: "http_snooping_ctx \<Rightarrow> io list \<Rightarrow> nat \<Rightarrow> http_snooping_ctx \<times> io list" where
  "deflate_failed ctx w n = (write_failed ctx n, w @ [IoClose, IoInflateEnd])"

definition ngx_http_deflate_write ::
  "env \<Rightarrow> http_snooping_ctx \<Rightarrow> io list \<Rightarrow> nat \<Rightarrow> (http_snooping_ctx \<times> io list) option" where
  "ngx_http_deflate_write e ctx w n =
     do {
       path \<leftarrow> local_file_path e (url_base ctx n);
       let fd = env_open e w path;
       let w1 = w @ [IoOpen path fd];
       if \<not> fd then Some (write_failed ctx n, w1)
       else
         let ctx1 = upd_url ctx n (set_flg HTTP_SNOOPING_FLG_RES_LFN);
             code = env_inflate_init e w1; w2 = w1 @ [IoInflateInit code] in
         if code \<noteq> Z_OK then Some (deflate_failed ctx1 w2 n)
         else case http_url_cache_buf_get ctx1 n of
           (None, _) \<Rightarrow> None
         | (Some pbuf, ctx2) \<Rightarrow>
             do {
               c0 \<leftarrow> rd (buf_data (data_buf ctx2 pbuf)) 0;
               c1 \<leftarrow> rd (buf_data (data_buf ctx2 pbuf)) 1;
               let (hcode, hout, _) = env_inflate e w2 dummy_head;
               let (head_ok, w3) = (if c0 \<noteq> dummy_head ! 0 \<and> c1 \<noteq> dummy_head ! 1
                                    then (hcode = Z_OK, w2 @ [IoInflate hcode hout]) else (True, w2));
               if \<not> head_ok then Some (deflate_failed ctx2 w3 n)
               else do {
                 (ok, ctx3, w4) \<leftarrow> deflate_bufs e ctx2 w3 n pbuf;
                 if \<not> ok then Some (deflate_failed ctx3 w4 n)
                 else Some (upd_url ctx3 n (set_flg HTTP_SNOOPING_FLG_RES_WRITE), w4 @ [IoClose])
               }
             }
     }"

section \<open>The write task\<close>

definition HTTP_ECODING_TYPE_GZIP :: u8 where
  "HTTP_ECODING_TYPE_GZIP = 1"

definition HTTP_ECODING_TYPE_DEFLATE :: u8 where
  "HTTP_ECODING_TYPE_DEFLATE = 2"

definition ngx_http_url_write ::
  "env \<Rightarrow> http_snooping_ctx \<Rightarrow> io list \<Rightarrow> nat \<Rightarrow> (http_snooping_ctx \<times> io list) option" where
  "ngx_http_url_write e ctx w n =
     (let v = url_base ctx n in
      if \<not> has_flg HTTP_SNOOPING_FLG_RES_CACHE v then Some (ctx, w)
      else if \<not> has_flg HTTP_SNOOPING_FLG_CACHE_BUF_ALLOC v
      then Some (upd_url ctx n (clear_flg HTTP_SNOOPING_FLG_RES_CACHE), w)
      else if has_flg HTTP_SNOOPING_FLG_RES_WRITE v then Some (ctx, w)
      else if url_res_len v \<noteq> url_data_len v
      then Some (upd_url (free_bufs ctx n) n
                   (\<lambda>v. clear_flg HTTP_SNOOPING_FLG_RES_CACHE (v\<lparr>url_data_len := 0\<rparr>)), w)
      else if url_encoding v = HTTP_ECODING_TYPE_GZIP then nxg_http_gzip_write e ctx w n
      else if url_encoding v = HTTP_ECODING_TYPE_DEFLATE then ngx_http_deflate_write e ctx w n
      else ngx_http_none_write e ctx w n)"

text \<open>Creating the directory of a node: the name up to its first slash behind position 0.\<close>

definition ngx_http_snooping_url_local_file_init ::
  "env \<Rightarrow> http_snooping_ctx \<Rightarrow> io list \<Rightarrow> nat \<Rightarrow> (http_snooping_ctx \<times> io list) option" where
  "ngx_http_snooping_url_local_file_init e ctx w n =
     (let v = url_base ctx n;
          done = upd_url ctx n (set_flg (HTTP_SNOOPING_FLG_RES_LFP OR HTTP_SNOOPING_FLG_RES_LFOK)) in
      if \<not> has_flg HTTP_SNOOPING_FLG_RES_LFB v then Some (ctx, w)
      else if has_flg HTTP_SNOOPING_FLG_RES_LFOK v then Some (ctx, w)
      else do {
        r \<leftarrow> pcache_rule v;
        if cache_flg r AND HTTP_CACHE_URL_SP_WRITE = 0 then Some (done, w)
        else do {
          d00 \<leftarrow> mem_write (local_file_buf e) 0 (replicate (HTTP_SP_LFILE_LEN_MAX + HTTP_LOCAL_FILE_ROOT_MAX) NUL);
          d0 \<leftarrow> mem_write d00 0 http_cache_file_root;
          (d1, len) \<leftarrow> ngx_http_snooping_url2local_file (url_para_buf e) (url_buf v @ [NUL])
                        (server_name_len v + res_url_len v) d0 (length http_cache_file_root) r;
          name \<leftarrow> mem_read d1 (length http_cache_file_root) len;
          let mkdir = (case str_index (CHR ''/'') (drop 1 name) of
                         None \<Rightarrow> []
                       | Some i \<Rightarrow> [IoMkdir (http_cache_file_root @ take (Suc i) name)]);
          Some (done, w @ mkdir)
        }
      })"

definition HTTP_SP2C_ACTION_PARSE :: u8 where
  "HTTP_SP2C_ACTION_PARSE = 1"

definition HTTP_SP2C_ACTION_DOWN :: u8 where
  "HTTP_SP2C_ACTION_DOWN = 2"

text \<open>Asking for a URL to be parsed or downloaded: by the client in this process when no cache server is
  configured, by a message to the server otherwise. The third component says that the node is done for
  this round.\<close>

definition server_stage ::
  "env \<Rightarrow> http_snooping_ctx \<Rightarrow> io list \<Rightarrow> nat \<Rightarrow> u8 \<Rightarrow> http_snooping_ctx \<times> io list \<times> bool" where
  "server_stage e ctx w n action =
     (let v = url_base ctx n; url = take (res_url_len v + server_name_len v) (url_buf v) in
      if ngx_server_addr ctx = 0 then
        let rc = env_server e w url action; w1 = w @ [IoServer url action rc] in
        if rc \<noteq> 0 then (http_url_cache_add ctx n 11, w1, True)
        else (upd_url ctx n (set_flg HTTP_SNOOPING_FLG_NGX_PARSE_OK), w1, False)
      else
        let (ctx1, w1) = (if jiffies ctx - pkt_send_tick v \<ge> 20 * env_HZ e
                          then (upd_url ctx n (\<lambda>v. v\<lparr>pkt_send_tick := jiffies ctx\<rparr>),
                                w @ [IoSend (of_nat n) action url])
                          else (ctx, w)) in
        (upd_url (http_url_cache_add ctx1 n 11) n (set_flg HTTP_SNOOPING_FLG_NGX_WAIT_RESPNOSE), w1, True))"

text \<open>The line that the log gets for a node, and the release of a node to delete.\<close>

definition log_line :: "u8 \<Rightarrow> cstr \<Rightarrow> cstr list" where
  "log_line action url = [if action = HTTP_C2SP_ACTION_ADD then ''@@@@+'' else ''@@@@-'', url, [CR, LF]]"

fun write_all :: "env \<Rightarrow> io list \<Rightarrow> cstr list \<Rightarrow> io list option" where
  "write_all e w [] = Some w"
| "write_all e w (s # ss) = do { (_, w1) \<leftarrow> ngx_http_buf_write e w s; write_all e w1 ss }"

definition log_stage ::
  "env \<Rightarrow> bool \<Rightarrow> http_snooping_ctx \<Rightarrow> io list \<Rightarrow> nat \<Rightarrow> (http_snooping_ctx \<times> io list) option" where
  "log_stage e fd ctx w n =
     (let v = url_base ctx n in
      if fd then do {
        w1 \<leftarrow> write_all e w (log_line (url_action v) (take (res_url_len v + server_name_len v) (url_buf v)));
        Some (if url_action v = HTTP_C2SP_ACTION_DELETE then url_release ctx n else ctx, w1)
      }
      else Some (ctx, w))"

text \<open>The stages of one node; each hands on the context, the history and whether the round of the node ends
  here.\<close>

definition save_stage ::
  "env \<Rightarrow> http_cache_url \<Rightarrow> http_snooping_ctx \<Rightarrow> io list \<Rightarrow> nat
     \<Rightarrow> (http_snooping_ctx \<times> io list \<times> bool) option" where
  "save_stage e r ctx w n =
     (if cache_flg r AND HTTP_CACHE_URL_SP_WRITE \<noteq> 0 \<and> \<not> has_flg HTTP_SNOOPING_FLG_RES_WRITE (url_base ctx n)
      then do {
        (ctx1, w1) \<leftarrow> ngx_http_url_write e ctx w n;
        if \<not> has_flg HTTP_SNOOPING_FLG_RES_WRITE (url_base ctx1 n)
        then Some (http_url_cache_add ctx1 n 3, w1, True)
        else Some (ctx1, w1, False)
      }
      else Some (ctx, w, False))"

definition parse_stage ::
  "env \<Rightarrow> http_cache_url \<Rightarrow> http_snooping_ctx \<Rightarrow> io list \<Rightarrow> nat \<Rightarrow> http_snooping_ctx \<times> io list \<times> bool" where
  "parse_stage e r ctx w n =
     (if cache_flg r AND HTTP_CACHE_URL_ACTION_UPPARSE \<noteq> 0
         \<and> \<not> has_flg HTTP_SNOOPING_FLG_NGX_PARSE_OK (url_base ctx n)
      then server_stage e ctx w n HTTP_SP2C_ACTION_PARSE else (ctx, w, False))"

definition down_stage ::
  "env \<Rightarrow> http_cache_url \<Rightarrow> http_snooping_ctx \<Rightarrow> io list \<Rightarrow> nat \<Rightarrow> http_snooping_ctx \<times> io list \<times> bool" where
  "down_stage e r ctx w n =
     (if cache_flg r AND HTTP_CACHE_URL_ACTION_CACHE_UPSTREAM \<noteq> 0
         \<and> \<not> has_flg HTTP_SNOOPING_FLG_NGX_DOWN (url_base ctx n)
      then server_stage e ctx w n HTTP_SP2C_ACTION_DOWN else (ctx, w, False))"

definition mark_stage :: "http_snooping_ctx \<Rightarrow> nat \<Rightarrow> http_snooping_ctx" where
  "mark_stage ctx n =
     (if has_flg HTTP_SNOOPING_FLG_NGX_DOWN (url_base ctx n)
      then upd_url ctx n (set_flg HTTP_SNOOPING_FLG_RES_WRITE) else ctx)"

definition write_node ::
  "env \<Rightarrow> bool \<Rightarrow> http_snooping_ctx \<Rightarrow> io list \<Rightarrow> nat \<Rightarrow> (http_snooping_ctx \<times> io list) option" where
  "write_node e fd ctx w n =
     do {
       (ctx1, w1) \<leftarrow> ngx_http_snooping_url_local_file_init e ctx w n;
       if \<not> has_flg HTTP_SNOOPING_FLG_RES_LFOK (url_base ctx1 n) then Some (http_url_cache_add ctx1 n 3, w1)
       else do {
         r \<leftarrow> pcache_rule (url_base ctx1 n);
         (ctx2, w2, stop2) \<leftarrow> save_stage e r ctx1 w1 n;
         if stop2 then Some (ctx2, w2)
         else let (ctx3, w3, stop3) = parse_stage e r ctx2 w2 n in
           if stop3 then Some (ctx3, w3)
           else let (ctx4, w4, stop4) = down_stage e r ctx3 w3 n in
             if stop4 then Some (ctx4, w4)
             else log_stage e fd (mark_stage ctx4 n) w4 n
       }
     }"

fun write_rounds ::
  "env \<Rightarrow> bool \<Rightarrow> nat \<Rightarrow> http_snooping_ctx \<Rightarrow> io list \<Rightarrow> (http_snooping_ctx \<times> io list) option" where
  "write_rounds e fd 0 ctx w = Some (ctx, w)"
| "write_rounds e fd (Suc i) ctx w =
     do {
       (url_node, ctx1) \<leftarrow> http_url_cache_get ctx;
       case url_node of
         None \<Rightarrow> Some (ctx1\<lparr>ngx_write_tick := ngx_write_tick ctx1 + 1\<rparr>, w)
       | Some n \<Rightarrow> do { (ctx2, w2) \<leftarrow> write_node e fd ctx1 w n; write_rounds e fd i ctx2 w2 }
     }"

definition http_cache_log :: cstr where
  "http_cache_log = ''/mnt/usb0/html/http-cache.txt''"

definition ngx_http_snooping_write_process ::
  "env \<Rightarrow> http_snooping_ctx \<Rightarrow> io list \<Rightarrow> (http_snooping_ctx \<times> io list) option" where
  "ngx_http_snooping_write_process e ctx w =
     do {
       let fd = env_open e w http_cache_log;
       (ctx1, w1) \<leftarrow> write_rounds e fd 32 ctx (w @ [IoOpen http_cache_log fd]);
       Some (ctx1, if fd then w1 @ [IoClose] else w1)
     }"

declare free_bufs.simps [simp del] write_bufs.simps [simp del] deflate_bufs.simps [simp del]

section \<open>The write task keeps the invariant\<close>

definition held :: "http_snooping_ctx \<Rightarrow> nat \<Rightarrow> bool" where
  "held ctx n \<longleftrightarrow> url_inv ctx \<and> n \<in> set (url_use_list ctx)
     \<and> \<not> has_flg HTTP_SNOOPING_FLG_CACHE_LIST (url_base ctx n)"

lemma url_inv_bufs [simp]:
  "url_inv (ctx\<lparr>data_buf_free_list := l\<rparr>) = url_inv ctx" "url_inv (ctx\<lparr>buf_num := k\<rparr>) = url_inv ctx"
  "url_inv (ctx\<lparr>data_buf := d\<rparr>) = url_inv ctx" "url_inv (ctx\<lparr>ngx_write_tick := t\<rparr>) = url_inv ctx"
  "url_inv (ctx\<lparr>jiffies := j\<rparr>) = url_inv ctx"
  by (simp_all add: url_inv_def pool_inv_def hash_inv_def wheel_inv_def wheel_def key_of_def [abs_def])

lemma held_inv: "held ctx n \<Longrightarrow> url_inv ctx"
  by (simp add: held_def)

lemma held_upd: "held ctx n \<Longrightarrow> keeps f (url_base ctx n) \<Longrightarrow> held (upd_url ctx n f) n"
  by (auto simp: held_def c_simps keeps_def intro: url_inv_upd)

lemma held_buf_free [simp]: "held (http_cache_buf_free ctx b) n = held ctx n"
  by (simp add: held_def http_cache_buf_free_def)

lemma held_buf_get: "http_url_cache_buf_get ctx n = (r, ctx') \<Longrightarrow> held ctx n \<Longrightarrow> held ctx' n"
  by (auto simp: http_url_cache_buf_get_def keeps_def intro!: held_upd split: list.splits)

lemma held_free_bufs: "held ctx n \<Longrightarrow> held (free_bufs ctx n) n"
proof (induction ctx n rule: free_bufs.induct)
  case (1 ctx n)
  obtain r ctx1 where g: "http_url_cache_buf_get ctx n = (r, ctx1)" by fastforce
  then show ?case using 1 held_buf_get [OF g]
    by (subst free_bufs.simps) (auto split: option.splits)
qed

lemma held_write_bufs: "held ctx n \<Longrightarrow> write_bufs e ctx w n = Some (ctx', w') \<Longrightarrow> held ctx' n"
proof (induction e ctx w n rule: write_bufs.induct)
  case (1 e ctx w n)
  show ?case using 1(1,2) 1(3) [unfolded write_bufs.simps [of e ctx w n]]
    by (auto split: prod.splits option.splits dest: held_buf_get)
qed

lemma held_deflate_bufs:
  "held ctx n \<Longrightarrow> deflate_bufs e ctx w n b = Some (ok, ctx', w') \<Longrightarrow> held ctx' n"
proof (induction e ctx w n b rule: deflate_bufs.induct)
  case (1 e ctx w n b)
  show ?case using 1(1,2) 1(3) [unfolded deflate_bufs.simps [of e ctx w n b]]
    by (auto split: prod.splits option.splits if_splits dest: held_buf_get)
qed

lemma held_write_failed: "held ctx n \<Longrightarrow> held (write_failed ctx n) n"
  unfolding write_failed_def by (intro held_upd held_free_bufs) (simp_all add: keeps_simps c_simps bit_simps)


lemma keeps_flgs:
  "keeps (set_flg HTTP_SNOOPING_FLG_RES_LFN) v" "keeps (set_flg HTTP_SNOOPING_FLG_RES_WRITE) v"
  "keeps (set_flg HTTP_SNOOPING_FLG_NGX_PARSE_OK) v" "keeps (set_flg HTTP_SNOOPING_FLG_NGX_WAIT_RESPNOSE) v"
  "keeps (set_flg (HTTP_SNOOPING_FLG_RES_LFP OR HTTP_SNOOPING_FLG_RES_LFOK)) v"
  "keeps (clear_flg HTTP_SNOOPING_FLG_RES_CACHE) v"
  "keeps (\<lambda>v. clear_flg HTTP_SNOOPING_FLG_RES_CACHE (v\<lparr>url_data_len := k\<rparr>)) v"
  "keeps (\<lambda>v. v\<lparr>pkt_send_tick := t\<rparr>) v"
  by (simp_all add: keeps_simps bit_or_iff bit_and_iff bit_not_iff)

lemmas held_intros = held_upd [OF _ keeps_flgs(1)] held_upd [OF _ keeps_flgs(2)] held_upd [OF _ keeps_flgs(3)]
  held_upd [OF _ keeps_flgs(4)] held_upd [OF _ keeps_flgs(5)] held_upd [OF _ keeps_flgs(6)]
  held_upd [OF _ keeps_flgs(7)] held_upd [OF _ keeps_flgs(8)] held_free_bufs held_write_failed

lemma held_none_write: "held ctx n \<Longrightarrow> ngx_http_none_write e ctx w n = Some (ctx', w') \<Longrightarrow> held ctx' n"
  by (auto simp: ngx_http_none_write_def Let_def split: bind_splits if_splits
      intro!: held_intros intro: held_write_bufs [rotated])

lemma held_gzip_write: "held ctx n \<Longrightarrow> nxg_http_gzip_write e ctx w n = Some (ctx', w') \<Longrightarrow> held ctx' n"
  by (auto simp: nxg_http_gzip_write_def Let_def split: bind_splits if_splits
      intro!: held_intros intro: held_write_bufs [rotated])

lemma held_deflate_write: "held ctx n \<Longrightarrow> ngx_http_deflate_write e ctx w n = Some (ctx', w') \<Longrightarrow> held ctx' n"
  by (auto simp: ngx_http_deflate_write_def deflate_failed_def Let_def
      split: bind_splits if_splits prod.splits option.splits
      intro!: held_intros intro: held_deflate_bufs [rotated] held_buf_get)

lemma held_url_write: "held ctx n \<Longrightarrow> ngx_http_url_write e ctx w n = Some (ctx', w') \<Longrightarrow> held ctx' n"
  by (auto simp: ngx_http_url_write_def Let_def split: if_splits intro: held_intros
      held_none_write held_gzip_write held_deflate_write)

lemma held_local_file_init:
  "held ctx n \<Longrightarrow> ngx_http_snooping_url_local_file_init e ctx w n = Some (ctx', w') \<Longrightarrow> held ctx' n"
  by (auto simp: ngx_http_snooping_url_local_file_init_def Let_def split: bind_splits if_splits intro: held_intros)

lemma held_cache_add: "held ctx n \<Longrightarrow> url_inv (http_url_cache_add ctx n t)"
  by (auto simp: held_def intro: wf_intros)

lemma server_stage_inv:
  assumes "held ctx n" "server_stage e ctx w n a = (ctx', w', stop)"
  shows "url_inv ctx' \<and> (\<not> stop \<longrightarrow> held ctx' n)"
  using assms
  by (auto simp: server_stage_def Let_def split: if_splits
      intro!: held_intros url_inv_upd held_cache_add keeps_flgs intro: held_inv)

lemma save_stage_inv:
  assumes "held ctx n" "save_stage e r ctx w n = Some (ctx', w', stop)"
  shows "url_inv ctx' \<and> (\<not> stop \<longrightarrow> held ctx' n)"
  using assms held_url_write [OF assms(1), of e w]
  by (auto simp: save_stage_def held_cache_add held_inv split: bind_splits if_splits)

lemma parse_stage_inv:
  assumes "held ctx n" "parse_stage e r ctx w n = (ctx', w', stop)"
  shows "url_inv ctx' \<and> (\<not> stop \<longrightarrow> held ctx' n)"
  using assms server_stage_inv by (auto simp: parse_stage_def held_inv split: if_splits)

lemma down_stage_inv:
  assumes "held ctx n" "down_stage e r ctx w n = (ctx', w', stop)"
  shows "url_inv ctx' \<and> (\<not> stop \<longrightarrow> held ctx' n)"
  using assms server_stage_inv by (auto simp: down_stage_def held_inv split: if_splits)

lemma held_mark_stage: "held ctx n \<Longrightarrow> held (mark_stage ctx n) n"
  by (simp add: mark_stage_def held_intros)

lemma log_stage_inv: "held ctx n \<Longrightarrow> log_stage e fd ctx w n = Some (ctx', w') \<Longrightarrow> url_inv ctx'"
  by (auto simp: log_stage_def Let_def held_def split: bind_splits if_splits intro: url_release_inv)

lemma write_node_inv:
  assumes h: "held ctx n" and r: "write_node e fd ctx w n = Some (ctx', w')"
  shows "url_inv ctx'"
proof -
  obtain ctx1 w1 where 1: "ngx_http_snooping_url_local_file_init e ctx w n = Some (ctx1, w1)"
    using r by (auto simp: write_node_def split: bind_splits)
  note h1 = held_local_file_init [OF h 1]
  show ?thesis
  proof (cases "has_flg HTTP_SNOOPING_FLG_RES_LFOK (url_base ctx1 n)")
    case True
    obtain r ctx2 w2 stop2 where 2: "save_stage e r ctx1 w1 n = Some (ctx2, w2, stop2)"
      and r2: "(if stop2 then Some (ctx2, w2)
         else let (ctx3, w3, stop3) = parse_stage e r ctx2 w2 n in
           if stop3 then Some (ctx3, w3)
           else let (ctx4, w4, stop4) = down_stage e r ctx3 w3 n in
             if stop4 then Some (ctx4, w4)
             else log_stage e fd (mark_stage ctx4 n) w4 n) = Some (ctx', w')"
      using r 1 True by (auto simp: write_node_def split: bind_splits)
    note h2 = save_stage_inv [OF h1 2]
    obtain ctx3 w3 stop3 where 3: "parse_stage e r ctx2 w2 n = (ctx3, w3, stop3)" by (metis prod_cases3)
    obtain ctx4 w4 stop4 where 4: "down_stage e r ctx3 w3 n = (ctx4, w4, stop4)" by (metis prod_cases3)
    show ?thesis
      using r2 h2 3 4 parse_stage_inv [OF _ 3] down_stage_inv [OF _ 4] log_stage_inv held_mark_stage
      by (simp split: if_splits) blast+
  qed (use r 1 h1 in \<open>auto simp: write_node_def held_cache_add\<close>)
qed

lemma write_rounds_inv: "url_inv ctx \<Longrightarrow> write_rounds e fd i ctx w = Some (ctx', w') \<Longrightarrow> url_inv ctx'"
proof (induction i arbitrary: ctx w)
  case (Suc i)
  obtain u ctx1 where g: "http_url_cache_get ctx = Some (u, ctx1)"
    using Suc.prems(2) by (auto split: bind_splits)
  show ?case
  proof (cases u)
    case None
    have "ctx1 = ctx" using g None by (auto simp: http_url_cache_get_def Let_def split: if_splits list.splits)
    then show ?thesis using Suc.prems g None by auto
  next
    case (Some n)
    have "held ctx1 n" using http_url_cache_get_inv [OF Suc.prems(1) g [unfolded Some]] by (simp add: held_def)
    moreover obtain ctx2 w2 where "write_node e fd ctx1 w n = Some (ctx2, w2)"
      "write_rounds e fd i ctx2 w2 = Some (ctx', w')"
      using Suc.prems(2) g Some by (auto split: bind_splits)
    ultimately show ?thesis using Suc.IH write_node_inv by blast
  qed
qed simp

lemma write_process_inv [wf_intros]:
  "url_inv ctx \<Longrightarrow> ngx_http_snooping_write_process e ctx w = Some (ctx', w') \<Longrightarrow> url_inv ctx'"
  by (auto simp: ngx_http_snooping_write_process_def Let_def split: bind_splits intro: write_rounds_inv)

section \<open>Reading the log back\<close>

text \<open>The search for the end of the line; the byte behind a carriage return may be an old one of the buffer,
  or lie behind the buffer.\<close>

fun load_scan :: "buf \<Rightarrow> nat \<Rightarrow> nat \<Rightarrow> nat option" where
  "load_scan b i 0 = Some i"
| "load_scan b i (Suc k) =
     do {
       c \<leftarrow> rd b i;
       eol \<leftarrow> (if c = CR then do { d \<leftarrow> rd b (Suc i); Some (d = LF) } else Some False);
       if eol then Some i else load_scan b (Suc i) k
     }"

definition url_file_buf_size :: nat where
  "url_file_buf_size = HTTP_SP_URL_LEN_MAX + 6 + 2 + 1"

text \<open>One line of the log, which ends at \<open>i\<close>. With \<open>i = 4\<close> the length of the URL wraps around to a number
  that \<open>ngx_http_sp_url_handle\<close> refuses.\<close>

definition load_line :: "host_tree \<Rightarrow> http_snooping_ctx \<Rightarrow> buf \<Rightarrow> nat \<Rightarrow> http_snooping_ctx option" where
  "load_line tree ctx b i =
     do {
       c \<leftarrow> rd b 4;
       let action = (if c = CHR ''+'' then HTTP_C2SP_ACTION_ADD else HTTP_C2SP_ACTION_DELETE);
       (url_id, ctx1) \<leftarrow> (if i < 5 then Some (-1, ctx)
                          else do {
                            url \<leftarrow> mem_read b 5 (i - 5);
                            ngx_http_sp_url_handle tree ctx url action
                          });
       Some (if action = HTTP_C2SP_ACTION_ADD
             then ngx_http_sp_url_state_setby_id ctx1 url_id HTTP_LOCAL_DOWN_STATE_OK else ctx1)
     }"

text \<open>The loop over the log. \<open>read\<close> on a regular file gives as many bytes as the buffer takes, or the rest of the file; reads that
  end early for another reason and a failing \<open>lseek\<close> are not modelled.\<close>

function load_loop ::
  "host_tree \<Rightarrow> http_snooping_ctx \<Rightarrow> buf \<Rightarrow> cstr \<Rightarrow> nat \<Rightarrow> http_snooping_ctx option" where
  "load_loop tree ctx b file offset =
     (let bytes = take url_file_buf_size (drop offset file); len = length bytes in
      if len \<le> 7 then Some ctx
      else case mem_write b 0 bytes of
        None \<Rightarrow> None
      | Some b1 \<Rightarrow>
          if take 4 b1 \<noteq> ''@@@@'' then Some ctx
          else case load_scan b1 4 (len - 4) of
            None \<Rightarrow> None
          | Some i \<Rightarrow>
              if i = len then Some ctx
              else case load_line tree ctx (b1[i := NUL]) i of
                None \<Rightarrow> None
              | Some ctx1 \<Rightarrow> load_loop tree ctx1 (b1[i := NUL]) file (offset + i + 2))"
  by pat_completeness auto
termination
  by (relation "measure (\<lambda>(tree, ctx, b, file, offset). length file - offset)") auto

declare load_loop.simps [simp del]

definition ngx_http_snooping_load_url ::
  "host_tree \<Rightarrow> buf \<Rightarrow> http_snooping_ctx \<Rightarrow> cstr option \<Rightarrow> (http_snooping_ctx \<times> cstr option) option" where
  "ngx_http_snooping_load_url tree stack ctx log =
     (case log of
        None \<Rightarrow> Some (ctx, None)
      | Some file \<Rightarrow> do {
          b \<leftarrow> wr stack (HTTP_SP_URL_LEN_MAX + 6 + 2) NUL;
          ctx1 \<leftarrow> load_loop tree ctx b file 0;
          Some (ctx1, None)
        })"

text \<open>The lines of a log, and what reading them back does to the table.\<close>

definition log_text :: "(u8 \<times> cstr) list \<Rightarrow> cstr" where
  "log_text es = concat (map (\<lambda>(a, url). concat (log_line a url)) es)"

fun replay :: "host_tree \<Rightarrow> http_snooping_ctx \<Rightarrow> (u8 \<times> cstr) list \<Rightarrow> http_snooping_ctx option" where
  "replay tree ctx [] = Some ctx"
| "replay tree ctx ((a, url) # es) =
     do {
       (url_id, ctx1) \<leftarrow> ngx_http_sp_url_handle tree ctx url a;
       replay tree (if a = HTTP_C2SP_ACTION_ADD
                    then ngx_http_sp_url_state_setby_id ctx1 url_id HTTP_LOCAL_DOWN_STATE_OK else ctx1) es
     }"

definition loggable :: "u8 \<times> cstr \<Rightarrow> bool" where
  "loggable l \<longleftrightarrow> fst l \<in> {HTTP_C2SP_ACTION_ADD, HTTP_C2SP_ACTION_DELETE} \<and> snd l \<noteq> [] \<and> CR \<notin> set (snd l)
     \<and> length (snd l) < HTTP_SP_URL_LEN_MAX"

lemma load_scan_line:
  assumes "sl b i (length u) = u" "CR \<notin> set u" "i + length u + 1 < length b"
    "b ! (i + length u) = CR" "b ! (i + length u + 1) = LF" "length u < k"
  shows "load_scan b i k = Some (i + length u)"
  using assms
proof (induction u arbitrary: i k)
  case Nil
  then obtain k' where "k = Suc k'" by (cases k) auto
  then show ?case using Nil by (simp add: rd_def)
next
  case (Cons c u)
  obtain k' where k: "k = Suc k'" using Cons.prems by (cases k) auto
  have i: "i < length b" using Cons.prems by simp
  have s: "b ! i = c" "sl b (Suc i) (length u) = u" using Cons.prems(1) i by simp_all
  show ?case using Cons.IH [of "Suc i" k'] Cons.prems s i k by (auto simp: rd_def)
qed

lemma load_loop_Cons:
  assumes b: "length b = url_file_buf_size" and l: "loggable (a, url)" and off: "offset = length pre"
  defines "line \<equiv> concat (log_line a url)"
  shows "\<exists>b'. length b' = url_file_buf_size \<and>
    load_loop tree ctx b (pre @ line @ rest) offset =
      do {
       (url_id, ctx1) \<leftarrow> ngx_http_sp_url_handle tree ctx url a;
       load_loop tree (if a = HTTP_C2SP_ACTION_ADD
                    then ngx_http_sp_url_state_setby_id ctx1 url_id HTTP_LOCAL_DOWN_STATE_OK else ctx1)
         b' (pre @ line @ rest) (offset + length line)
     }"
proof -
  define bytes where "bytes = take url_file_buf_size (drop offset (pre @ line @ rest))"
  define b1 where "b1 = bytes @ drop (length bytes) b"
  define h where "h = (if a = HTTP_C2SP_ACTION_ADD then CHR ''+'' else CHR ''-'')"
  define b2 where "b2 = b1[5 + length url := NUL]"
  have line: "line = ''@@@@'' @ h # url @ [CR, LF]"
    using l by (auto simp: line_def log_line_def h_def loggable_def)
  have len: "length line \<le> url_file_buf_size" "7 < length line"
    using l by (auto simp: line loggable_def url_file_buf_size_def)
  have bytes: "bytes = line @ take (url_file_buf_size - length line) rest"
    using len by (simp add: bytes_def off)
  have lb: "length bytes \<le> url_file_buf_size" "length b1 = url_file_buf_size"
    using b by (simp_all only: bytes_def b1_def length_append length_take length_drop)
  have w: "mem_write b 0 bytes = Some b1" using lb b by (simp add: mem_write_def b1_def)
  obtain tl where b1: "b1 = ''@@@@'' @ h # url @ CR # LF # tl" by (simp add: b1_def bytes line)
  have t4: "take 4 b1 = ''@@@@''" by (simp add: b1)
  have scan: "load_scan b1 4 (length bytes - 4) = Some (4 + length (h # url))"
    by (rule load_scan_line)
      (use l in \<open>auto simp: b1 sl_def h_def loggable_def nth_append bytes line\<close>)
  have line2: "load_line tree ctx b2 (5 + length url) =
      do { (url_id, ctx1) \<leftarrow> ngx_http_sp_url_handle tree ctx url a;
           Some (if a = HTTP_C2SP_ACTION_ADD
             then ngx_http_sp_url_state_setby_id ctx1 url_id HTTP_LOCAL_DOWN_STATE_OK else ctx1) }"
  proof -
    have "b2 = ''@@@@'' @ h # url @ NUL # LF # tl" by (simp add: b2_def b1 list_update_append)
    then have "rd b2 4 = Some h" "mem_read b2 5 (length url) = Some url" by (simp_all add: rd_def mem_read_def)
    moreover have "(if h = CHR ''+'' then HTTP_C2SP_ACTION_ADD else HTTP_C2SP_ACTION_DELETE) = a"
      using l by (auto simp: h_def loggable_def HTTP_C2SP_ACTION_ADD_def HTTP_C2SP_ACTION_DELETE_def)
    ultimately show ?thesis by (simp add: load_line_def)
  qed
  have ll: "length line = 5 + length url + 2" "\<not> length bytes \<le> 7" "4 + length (h # url) \<noteq> length bytes"
    using len by (simp_all add: bytes line)
  have "load_loop tree ctx b (pre @ line @ rest) offset =
      do { ctx1 \<leftarrow> load_line tree ctx b2 (5 + length url);
           load_loop tree ctx1 b2 (pre @ line @ rest) (offset + length line) }"
    unfolding load_loop.simps [of tree ctx b] bytes_def [symmetric] Let_def w option.simps t4 scan
    using ll by (auto simp: b2_def ac_simps split: option.splits)
  then have "load_loop tree ctx b (pre @ line @ rest) offset =
      do {
       (url_id, ctx1) \<leftarrow> ngx_http_sp_url_handle tree ctx url a;
       load_loop tree (if a = HTTP_C2SP_ACTION_ADD
                    then ngx_http_sp_url_state_setby_id ctx1 url_id HTTP_LOCAL_DOWN_STATE_OK else ctx1)
         b2 (pre @ line @ rest) (offset + length line)
     }"
    unfolding line2 by (simp add: case_prod_beta')
  then show ?thesis using lb(2) by (intro exI [of _ b2]) (simp add: b2_def)
qed

lemma load_loop_replay:
  "length b = url_file_buf_size \<Longrightarrow> (\<And>l. l \<in> set es \<Longrightarrow> loggable l)
     \<Longrightarrow> load_loop tree ctx b (pre @ log_text es) (length pre) = replay tree ctx es"
proof (induction es arbitrary: ctx b pre)
  case Nil
  then show ?case by (subst load_loop.simps) (simp add: log_text_def)
next
  case (Cons l es)
  obtain a url where l: "l = (a, url)" by fastforce
  define line where "line = concat (log_line a url)"
  have t: "log_text ((a, url) # es) = line @ log_text es" by (simp add: log_text_def line_def)
  obtain b' where b': "length b' = url_file_buf_size" and
    eq: "load_loop tree ctx b (pre @ line @ log_text es) (length pre) =
      do {
       (url_id, ctx1) \<leftarrow> ngx_http_sp_url_handle tree ctx url a;
       load_loop tree (if a = HTTP_C2SP_ACTION_ADD
                    then ngx_http_sp_url_state_setby_id ctx1 url_id HTTP_LOCAL_DOWN_STATE_OK else ctx1)
         b' (pre @ line @ log_text es) (length pre + length line)
     }"
    using load_loop_Cons [OF Cons.prems(1) _ refl, of a url tree ctx pre "log_text es"] Cons.prems(2) [of l]
    unfolding line_def l by auto
  have "load_loop tree c b' (pre @ line @ log_text es) (length pre + length line) = replay tree c es" for c
    using Cons.IH [OF b', of c "pre @ line"] Cons.prems(2) by simp
  then show ?case by (simp add: l t eq)
qed

section \<open>What the writers write\<close>

text \<open>The bytes that a sequence of events added to the open file.\<close>

fun written :: "io list \<Rightarrow> cstr" where
  "written [] = []"
| "written (IoWrite n s # w) = take (nat n) s @ written w"
| "written (_ # w) = written w"

lemma written_append [simp]: "written (w @ w') = written w @ written w'"
  by (induction w rule: written.induct) auto

text \<open>What POSIX says of \<open>write\<close> on a file: it fails with -1 or takes at least one and at most all of the
  bytes; and a disk on which it never fails.\<close>

definition write_progress :: "env \<Rightarrow> bool" where
  "write_progress e \<longleftrightarrow> (\<forall>w s. env_write e w s = -1
     \<or> 0 \<le> env_write e w s \<and> env_write e w s \<le> int (length s) \<and> (s \<noteq> [] \<longrightarrow> 0 < env_write e w s))"

definition write_no_error :: "env \<Rightarrow> bool" where
  "write_no_error e \<longleftrightarrow> (\<forall>w s. env_write e w s \<noteq> -1)"

lemma buf_write_cases:
  assumes "write_progress e"
  obtains (fail) "env_write e w s = -1"
    | (full) "env_write e w s = int (length s)"
    | (part) n where "env_write e w s = int n" "0 < n" "n < length s"
proof -
  consider "env_write e w s = -1" | "0 \<le> env_write e w s" "env_write e w s \<le> int (length s)"
      "s \<noteq> [] \<longrightarrow> 0 < env_write e w s"
    using assms unfolding write_progress_def by blast
  then show ?thesis
  proof cases
    case 2
    define n where "n = nat (env_write e w s)"
    have n: "env_write e w s = int n" using 2 by (simp add: n_def)
    show ?thesis
    proof (cases "n = length s")
      case False
      then have "n < length s" "s \<noteq> []" using 2 n by auto
      then show ?thesis using that(3) [OF n] 2 n by auto
    qed (use that(2) n in auto)
  qed (use that(1) in auto)
qed

lemma buf_write_ok:
  assumes p: "write_progress e"
  shows "\<exists>rc w'. ngx_http_buf_write e w s = Some (rc, w @ w') \<and> set w' \<subseteq> range (case_prod IoWrite)
    \<and> (rc = None \<and> written w' = s \<or> rc = Some (-1) \<and> (\<exists>u. s = written w' @ u) \<and> \<not> write_no_error e)"
proof (induction "length s" arbitrary: s w rule: less_induct)
  case less
  show ?case
  proof (cases rule: buf_write_cases [OF p, of w s, case_names fail full part])
    case fail
    then show ?thesis by (subst ngx_http_buf_write.simps) (auto simp: Let_def write_no_error_def)
  next
    case full
    then show ?thesis by (subst ngx_http_buf_write.simps) (auto simp: Let_def)
  next
    case (part n)
    define ev where "ev = IoWrite (int n) s"
    have "length (drop n s) < length s" using part by simp
    from less [OF this, of "w @ [ev]"]
    obtain rc w' where IH: "ngx_http_buf_write e (w @ [ev]) (drop n s) = Some (rc, (w @ [ev]) @ w')"
      "set w' \<subseteq> range (case_prod IoWrite)"
      "rc = None \<and> written w' = drop n s
        \<or> rc = Some (-1) \<and> (\<exists>u. drop n s = written w' @ u) \<and> \<not> write_no_error e"
      by blast
    have "ngx_http_buf_write e w s = Some (rc, w @ ev # w')"
      using part IH(1) by (subst ngx_http_buf_write.simps) (simp add: Let_def ev_def)
    moreover have "s = written (ev # w') @ u" if "drop n s = written w' @ u" for u
      using that append_take_drop_id [of n s] by (simp add: ev_def)
    moreover have "written (ev # w') = s" if "written w' = drop n s"
      using that by (simp add: ev_def)
    moreover have "set (ev # w') \<subseteq> range (case_prod IoWrite)" using IH(2) by (auto simp: ev_def)
    ultimately show ?thesis using IH(3) by blast
  qed
qed

lemma buf_write_full:
  assumes "write_progress e" "write_no_error e"
  obtains w' where "ngx_http_buf_write e w s = Some (None, w @ w')" "written w' = s"
  using buf_write_ok [OF assms(1), of w s] assms(2) by auto

lemma buf_write_stuck:
  assumes "\<And>w s. env_write e w s = 0" "s \<noteq> []"
  shows "ngx_http_buf_write e w s = None"
proof -
  have "e' = e \<and> s \<noteq> [] \<longrightarrow> False" if "ngx_http_buf_write e' w s = Some y" for e' w s y
  proof (rule ngx_http_buf_write.raw_induct [OF _ that])
    fix f e' w s y
    assume IH: "\<And>e' w s y. f e' w s = Some y \<Longrightarrow> e' = e \<and> s \<noteq> [] \<longrightarrow> False"
      and "(let n = env_write e' w s; w1 = w @ [IoWrite n s] in
        if n = -1 then Some (Some (-1), w1)
        else if n = int (length s) then Some (None, w1) else f e' w1 (drop (nat n) s)) = Some y"
    then show "e' = e \<and> s \<noteq> [] \<longrightarrow> False" using assms(1) by (cases y) (fastforce simp: Let_def split: if_splits)
  qed
  then show ?thesis using assms(2) by (cases "ngx_http_buf_write e w s") auto
qed

lemma buf_get_Cons:
  "data_buf_list (url_base ctx n) = b # bs \<Longrightarrow>
     http_url_cache_buf_get ctx n = (Some b, upd_url ctx n (\<lambda>v. v\<lparr>data_buf_list := bs\<rparr>))"
  "data_buf_list (url_base ctx n) = [] \<Longrightarrow> http_url_cache_buf_get ctx n = (None, ctx)"
  by (simp_all add: http_url_cache_buf_get_def)

text \<open>The buffers of a node, given back to the pool.\<close>

definition give_back :: "http_snooping_ctx \<Rightarrow> nat \<Rightarrow> http_snooping_ctx" where
  "give_back ctx n =
     (let bs = data_buf_list (url_base ctx n) in
      upd_url (ctx\<lparr>data_buf_free_list := rev bs @ data_buf_free_list ctx,
                   buf_num := buf_num ctx + of_nat (length bs)\<rparr>) n (\<lambda>v. v\<lparr>data_buf_list := []\<rparr>))"

lemma upd_url_bufs [simp]:
  "data_buf (upd_url ctx n f) = data_buf ctx" "buf_num (upd_url ctx n f) = buf_num ctx"
  "data_buf_free_list (upd_url ctx n f) = data_buf_free_list ctx"
  by (simp_all add: upd_url_def)

lemma buf_bytes_simps [simp]:
  "buf_bytes (upd_url ctx n f) b = buf_bytes ctx b" "buf_bytes (http_cache_buf_free ctx c) b = buf_bytes ctx b"
  by (simp_all add: buf_bytes_def http_cache_buf_free_def)

lemma give_back_Cons:
  assumes "data_buf_list (url_base ctx n) = b # bs"
  shows "give_back (http_cache_buf_free (upd_url ctx n (\<lambda>v. v\<lparr>data_buf_list := bs\<rparr>)) b) n = give_back ctx n"
  using assms by (simp add: give_back_def Let_def http_cache_buf_free_def upd_url_def algebra_simps)

lemma give_back_Nil: "data_buf_list (url_base ctx n) = [] \<Longrightarrow> give_back ctx n = ctx"
  by (cases ctx) (auto simp: give_back_def upd_url_def intro!: ext)

lemma free_bufs_eq: "free_bufs ctx n = give_back ctx n"
proof (induction ctx n rule: free_bufs.induct)
  case (1 ctx n)
  show ?case
  proof (cases "data_buf_list (url_base ctx n)")
    case Nil
    then show ?thesis by (simp add: free_bufs.simps [of ctx] buf_get_Cons give_back_Nil)
  next
    case (Cons b bs)
    then show ?thesis using 1 by (simp add: free_bufs.simps [of ctx] buf_get_Cons give_back_Cons)
  qed
qed

lemma write_bufs_ok:
  assumes "write_progress e"
  shows "\<exists>w'. write_bufs e ctx w n = Some (give_back ctx n, w @ w')
    \<and> (write_no_error e \<longrightarrow> written w' = concat (map (buf_bytes ctx) (data_buf_list (url_base ctx n))))"
proof (induction "data_buf_list (url_base ctx n)" arbitrary: ctx w)
  case Nil
  then show ?case by (simp add: write_bufs.simps [of e ctx] buf_get_Cons give_back_Nil)
next
  case (Cons b bs)
  note l = Cons.hyps(2) [symmetric]
  define ctx1 where "ctx1 = upd_url ctx n (\<lambda>v. v\<lparr>data_buf_list := bs\<rparr>)"
  define ctx2 where "ctx2 = http_cache_buf_free ctx1 b"
  obtain rc w1 where w1: "ngx_http_buf_write e w (buf_bytes ctx b) = Some (rc, w @ w1)"
    "write_no_error e \<longrightarrow> written w1 = buf_bytes ctx b"
    using buf_write_ok [OF assms, of w "buf_bytes ctx b"] by blast
  have d2: "bs = data_buf_list (url_base ctx2 n)" "buf_bytes ctx2 = buf_bytes ctx"
    "give_back ctx2 n = give_back ctx n"
    using give_back_Cons [OF l] by (simp_all add: ctx2_def ctx1_def fun_eq_iff) (simp add: http_cache_buf_free_def)
  obtain w2 where "write_bufs e ctx2 (w @ w1) n = Some (give_back ctx n, (w @ w1) @ w2)"
    "write_no_error e \<longrightarrow> written w2 = concat (map (buf_bytes ctx) bs)"
    using Cons.hyps(1) [OF d2(1), of "w @ w1"] d2 by auto
  then show ?case using w1 l
    by (intro exI [of _ "w1 @ w2"]) (simp add: write_bufs.simps [of e ctx] buf_get_Cons ctx1_def ctx2_def)
qed

subsection \<open>Where the buffers of a node go\<close>

lemma give_back_simps [simp]:
  "data_buf_list (url_base (give_back ctx n) n) = []"
  "data_buf_free_list (give_back ctx n) = rev (data_buf_list (url_base ctx n)) @ data_buf_free_list ctx"
  "buf_num (give_back ctx n) = buf_num ctx + of_nat (length (data_buf_list (url_base ctx n)))"
  by (simp_all add: give_back_def Let_def)

lemma set_flg_bufs [simp]:
  "data_buf_list (set_flg f v) = data_buf_list v" "data_buf_list (clear_flg f v) = data_buf_list v"
  by (simp_all add: set_flg_def clear_flg_def)

lemma write_failed_bufs [simp]:
  "data_buf_list (url_base (write_failed ctx n) n) = []"
  "data_buf_free_list (write_failed ctx n) = rev (data_buf_list (url_base ctx n)) @ data_buf_free_list ctx"
  by (simp_all add: write_failed_def free_bufs_eq)

lemma write_bufs_give_back: "write_bufs e ctx w n = Some (ctx', w') \<Longrightarrow> ctx' = give_back ctx n"
proof (induction "data_buf_list (url_base ctx n)" arbitrary: ctx w)
  case Nil
  then show ?case by (simp add: write_bufs.simps [of e ctx] buf_get_Cons give_back_Nil)
next
  case (Cons b bs)
  note l = Cons.hyps(2) [symmetric]
  define ctx2 where "ctx2 = http_cache_buf_free (upd_url ctx n (\<lambda>v. v\<lparr>data_buf_list := bs\<rparr>)) b"
  have "bs = data_buf_list (url_base ctx2 n)" by (simp add: ctx2_def http_cache_buf_free_def)
  from Cons.hyps(1) [OF this] show ?case
    using Cons.prems l give_back_Cons [OF l]
    by (auto simp: write_bufs.simps [of e ctx] buf_get_Cons ctx2_def split: option.splits)
qed

lemma deflate_bufs_free:
  assumes "deflate_bufs e ctx w n b = Some (ok, ctx', w')"
  shows "\<exists>pre post. b # data_buf_list (url_base ctx n) = pre @ post \<and> data_buf_free_list ctx' = rev pre @ data_buf_free_list ctx
    \<and> data_buf_list (url_base ctx' n) = tl post \<and> (ok \<longrightarrow> post = [])"
  using assms
proof (induction "data_buf_list (url_base ctx n)" arbitrary: ctx w b)
  case Nil
  then show ?case
    by (auto simp: deflate_bufs.simps [of e ctx] http_url_cache_buf_get_def http_cache_buf_free_def
        split: option.splits if_splits intro: exI [of _ "[]"])
next
  case (Cons c bs)
  note l = Cons.hyps(2) [symmetric]
  define ctx2 where "ctx2 = upd_url (http_cache_buf_free ctx b) n (\<lambda>v. v\<lparr>data_buf_list := bs\<rparr>)"
  have bs: "bs = data_buf_list (url_base ctx2 n)" by (simp add: ctx2_def)
  have g: "http_url_cache_buf_get (http_cache_buf_free ctx b) n = (Some c, ctx2)"
    using l by (simp add: http_url_cache_buf_get_def ctx2_def http_cache_buf_free_def)
  obtain ok1 w1 where i: "inflate_buf e w (buf_bytes ctx b) = Some (ok1, w1)"
    using Cons.prems by (auto simp: deflate_bufs.simps [of e ctx] split: option.splits)
  show ?case
  proof (cases ok1)
    case True
    then have "deflate_bufs e ctx2 w1 n c = Some (ok, ctx', w')"
      using Cons.prems i g by (simp add: deflate_bufs.simps [of e ctx])
    from Cons.hyps(1) [OF bs this] obtain pre post where
      "c # data_buf_list (url_base ctx2 n) = pre @ post" "data_buf_free_list ctx' = rev pre @ data_buf_free_list ctx2"
      "data_buf_list (url_base ctx' n) = tl post" "ok \<longrightarrow> post = []" by blast
    then show ?thesis using l bs [symmetric]
      by (intro exI [of _ "b # pre"] exI [of _ post]) (simp add: ctx2_def http_cache_buf_free_def)
  next
    case False
    then show ?thesis using Cons.prems i l
      by (intro exI [of _ "[]"] exI [of _ "b # c # bs"]) (simp add: deflate_bufs.simps [of e ctx])
  qed
qed

text \<open>The buffers that a node holds and the ones of the pool, before and after an operation; at most one
  buffer is lost.\<close>

definition lost_at_most_one :: "nat list \<Rightarrow> nat list \<Rightarrow> nat list \<Rightarrow> bool" where
  "lost_at_most_one bs free free' \<longleftrightarrow> (\<exists>lost. length lost \<le> 1 \<and> mset (lost @ free') = mset (bs @ free))"

lemma lost_none: "lost_at_most_one bs free (rev bs @ free)"
  unfolding lost_at_most_one_def by (intro exI [of _ "[]"]) simp

lemma deflate_write_bufs:
  assumes "ngx_http_deflate_write e ctx w n = Some (ctx', w')"
  shows "data_buf_list (url_base ctx' n) = []
    \<and> lost_at_most_one (data_buf_list (url_base ctx n)) (data_buf_free_list ctx) (data_buf_free_list ctx')"
proof -
  define ctx1 where "ctx1 = upd_url ctx n (set_flg HTTP_SNOOPING_FLG_RES_LFN)"
  have c1: "data_buf_list (url_base ctx1 n) = data_buf_list (url_base ctx n)"
    "data_buf_free_list ctx1 = data_buf_free_list ctx" by (simp_all add: ctx1_def)
  consider (no_buffer) "ctx' = write_failed ctx n \<or> ctx' = write_failed ctx1 n"
    | (head) b ctx2 where "http_url_cache_buf_get ctx1 n = (Some b, ctx2)" "ctx' = write_failed ctx2 n"
    | (data) b ctx2 w3 ok ctx3 w4 where "http_url_cache_buf_get ctx1 n = (Some b, ctx2)"
        "deflate_bufs e ctx2 w3 n b = Some (ok, ctx3, w4)"
        "ctx' = (if ok then upd_url ctx3 n (set_flg HTTP_SNOOPING_FLG_RES_WRITE) else write_failed ctx3 n)"
    using assms unfolding ngx_http_deflate_write_def ctx1_def [symmetric] Let_def deflate_failed_def
    by (auto split: bind_splits if_splits prod.splits option.splits)
  then show ?thesis
  proof cases
    case no_buffer
    then show ?thesis using c1 lost_none by auto
  next
    case head
    then obtain bs where "data_buf_list (url_base ctx1 n) = b # bs"
      "ctx2 = upd_url ctx1 n (\<lambda>v. v\<lparr>data_buf_list := bs\<rparr>)"
      by (auto simp: http_url_cache_buf_get_def split: list.splits)
    then show ?thesis using head c1
      by (auto simp: lost_at_most_one_def intro: exI [of _ "[b]"])
  next
    case data
    then obtain bs where bs: "data_buf_list (url_base ctx1 n) = b # bs"
      "ctx2 = upd_url ctx1 n (\<lambda>v. v\<lparr>data_buf_list := bs\<rparr>)"
      by (auto simp: http_url_cache_buf_get_def split: list.splits)
    obtain pre post where p: "b # bs = pre @ post" "data_buf_free_list ctx3 = rev pre @ data_buf_free_list ctx"
      "data_buf_list (url_base ctx3 n) = tl post" "ok \<longrightarrow> post = []"
      using deflate_bufs_free [OF data(2)] bs c1 by auto
    have "mset (take 1 post @ data_buf_free_list ctx') = mset (pre @ post @ data_buf_free_list ctx)"
      using p(2,3,4) data(3) by (cases post) auto
    then have "lost_at_most_one (b # bs) (data_buf_free_list ctx) (data_buf_free_list ctx')"
      unfolding lost_at_most_one_def p(1) by (intro exI [of _ "take 1 post"]) simp
    then show ?thesis using data(3) p c1 bs by auto
  qed
qed


lemma url_write_bufs:
  assumes r: "ngx_http_url_write e ctx w n = Some (ctx', w')"
    and f: "has_flg HTTP_SNOOPING_FLG_RES_CACHE (url_base ctx n)"
      "has_flg HTTP_SNOOPING_FLG_CACHE_BUF_ALLOC (url_base ctx n)"
      "\<not> has_flg HTTP_SNOOPING_FLG_RES_WRITE (url_base ctx n)"
  defines "v \<equiv> url_base ctx n"
  shows "data_buf_list (url_base ctx' n) = []
    \<and> (data_buf_free_list ctx' = rev (data_buf_list v) @ data_buf_free_list ctx
       \<or> url_encoding v = HTTP_ECODING_TYPE_DEFLATE
         \<and> lost_at_most_one (data_buf_list v) (data_buf_free_list ctx) (data_buf_free_list ctx'))"
proof -
  have gz: ?thesis if "nxg_http_gzip_write e ctx w n = Some (ctx', w')"
    using that by (auto simp: nxg_http_gzip_write_def Let_def v_def split: bind_splits if_splits
        dest!: write_bufs_give_back)
  have none: ?thesis if "ngx_http_none_write e ctx w n = Some (ctx', w')"
    using that by (auto simp: ngx_http_none_write_def Let_def v_def split: bind_splits if_splits
        dest!: write_bufs_give_back)
  show ?thesis
  proof (cases "url_res_len v = url_data_len v \<and> url_encoding v = HTTP_ECODING_TYPE_DEFLATE")
    case True
    then have "ngx_http_deflate_write e ctx w n = Some (ctx', w')" using r f
      by (simp add: ngx_http_url_write_def Let_def v_def HTTP_ECODING_TYPE_GZIP_def HTTP_ECODING_TYPE_DEFLATE_def)
    from deflate_write_bufs [OF this] show ?thesis using True by (simp add: v_def)
  next
    case False
    then show ?thesis using r f gz none
      by (auto simp: ngx_http_url_write_def Let_def v_def free_bufs_eq split: if_splits)
  qed
qed

section \<open>An example for the write task\<close>

text \<open>A disk that takes at most two bytes at a time, a zlib that refuses its input, and a node with two
  buffers.\<close>

definition demo_env :: env where
  "demo_env = \<lparr>env_open = \<lambda>_ _. True, env_write = \<lambda>_ s. int (min 2 (length s)), env_inflate_init = \<lambda>_. 0,
     env_inflate = \<lambda>_ _. (-3, [], 0), env_server = \<lambda>_ _ _. 0, env_HZ = 100,
     env_file_stack = \<lambda>_. NUL, env_para_stack = \<lambda>_. NUL\<rparr>"

definition demo_node :: "u8 \<Rightarrow> http_snooping_url" where
  "demo_node enc = url_node0\<lparr>url_flags := HTTP_SNOOPING_FLG_RES_CACHE OR HTTP_SNOOPING_FLG_CACHE_BUF_ALLOC,
     url_buf := ''1.2.3.4/youku/x.flv'', server_name_len := 7, res_url_len := 12, pcache_rule := Some (http_cache_file ! 0),
     url_encoding := enc, url_res_len := 5, url_data_len := 5, data_buf_list := [4, 7]\<rparr>"

definition demo_ctx :: "u8 \<Rightarrow> http_snooping_ctx" where
  "demo_ctx enc = (ngx_http_snooping_ctx_init 0 0)\<lparr>url_base := (\<lambda>_. url_node0)(0 := demo_node enc),
     buf_num := 1, data_buf_free_list := [9],
     data_buf := (\<lambda>_. \<lparr>buf_len = 0, buf_data = []\<rparr>)(4 := \<lparr>buf_len = 3, buf_data = ''hello''\<rparr>,
       7 := \<lparr>buf_len = 2, buf_data = ''lo''\<rparr>)\<rparr>"

lemma demo_path:
  "local_file_path demo_env (demo_node enc) = Some ''/mnt/usb0/html/1_2_3_4/youku_x.flv''"
  by code_simp

lemma demo_progress: "write_progress demo_env" "write_no_error demo_env"
  by (simp_all add: write_progress_def write_no_error_def demo_env_def)

lemma demo_flags:
  "has_flg HTTP_SNOOPING_FLG_RES_CACHE (demo_node enc)" "has_flg HTTP_SNOOPING_FLG_CACHE_BUF_ALLOC (demo_node enc)"
  "\<not> has_flg HTTP_SNOOPING_FLG_RES_WRITE (demo_node enc)" "pcache_rule (demo_node enc) = Some (http_cache_file ! 0)"
  "data_buf_list (demo_node enc) = [4, 7]" "url_encoding (demo_node enc) = enc"
  "url_res_len (demo_node enc) = url_data_len (demo_node enc)"
  by (simp_all add: demo_node_def c_simps bit_or_iff)

lemma demo_ctx_simps:
  "url_base (demo_ctx enc) 0 = demo_node enc" "data_buf_free_list (demo_ctx enc) = [9]" "buf_num (demo_ctx enc) = 1"
  "buf_bytes (demo_ctx enc) 4 = ''hel''" "buf_bytes (demo_ctx enc) 7 = ''lo''"
  by (simp_all add: demo_ctx_def buf_bytes_def)

subsection \<open>Loading keeps the invariant\<close>

lemma setby_name_inv:
  "url_inv ctx \<Longrightarrow> ngx_http_sp_url_state_setby_name tree ctx url_name state = Some ctx' \<Longrightarrow> url_inv ctx'"
  by (auto simp: ngx_http_sp_url_state_setby_name_def setby_id_inv split: bind_splits if_splits)

lemma load_line_inv:
  assumes "url_inv ctx" "load_line tree ctx b i = Some ctx'"
  shows "url_inv ctx'"
proof -
  have h: "url_inv c" if "ngx_http_sp_url_handle tree ctx url a = Some (u, c)" for url a u c
    using url_handle_inv [OF assms(1) that] by simp
  show ?thesis using assms
    by (auto simp: load_line_def Let_def split: bind_splits if_splits intro: h setby_id_inv)
      (metis h setby_id_inv)+
qed

lemma load_loop_inv: "url_inv ctx \<Longrightarrow> load_loop tree ctx b f off = Some ctx' \<Longrightarrow> url_inv ctx'"
proof (induction tree ctx b f off rule: load_loop.induct)
  case (1 tree ctx b f off)
  show ?case using 1(2) 1(3) [unfolded load_loop.simps [of tree ctx b]] 1(1) load_line_inv
    by (auto simp: Let_def split: if_splits option.splits)
qed

lemma load_url_inv:
  "url_inv ctx \<Longrightarrow> ngx_http_snooping_load_url tree stack ctx log = Some (ctx', log') \<Longrightarrow> url_inv ctx'"
  by (auto simp: ngx_http_snooping_load_url_def split: option.splits bind_splits intro: load_loop_inv)

section \<open>Properties\<close>

text \<open>C32. The write loop \<open>ngx_http_buf_write\<close> returns whenever the operating system makes progress, however it
  splits the data: either every byte is in the file in order, or a write failed and the file got a prefix
  of the data. If \<open>write\<close> keeps answering 0 the loop does not return.\<close>

theorem buf_write_returns:
  "(write_progress e \<longrightarrow> (\<exists>rc w'. ngx_http_buf_write e w s = Some (rc, w @ w')
      \<and> (rc = None \<and> written w' = s \<or> rc = Some (-1) \<and> (\<exists>u. s = written w' @ u) \<and> \<not> write_no_error e)))
   \<and> ((\<forall>w s. env_write e w s = 0) \<and> s \<noteq> [] \<longrightarrow> ngx_http_buf_write e w s = None)"
proof (intro conjI impI)
  assume "write_progress e"
  from buf_write_ok [OF this, of w s] show "\<exists>rc w'. ngx_http_buf_write e w s = Some (rc, w @ w')
      \<and> (rc = None \<and> written w' = s \<or> rc = Some (-1) \<and> (\<exists>u. s = written w' @ u) \<and> \<not> write_no_error e)"
    by blast
qed (auto intro: buf_write_stuck)

lemma buf_write_returns_witness:
  "\<exists>w'. ngx_http_buf_write demo_env [] ''hello'' = Some (None, w') \<and> written w' = ''hello''"
  using buf_write_returns [of demo_env "[]" "''hello''"] demo_progress by auto

lemma url_write_ok:
  assumes "write_progress e" and "local_file_path e (url_base ctx n) = Some path" "env_open e w path"
    and "has_flg HTTP_SNOOPING_FLG_RES_CACHE (url_base ctx n)"
      "has_flg HTTP_SNOOPING_FLG_CACHE_BUF_ALLOC (url_base ctx n)"
      "\<not> has_flg HTTP_SNOOPING_FLG_RES_WRITE (url_base ctx n)"
    and "url_res_len (url_base ctx n) = url_data_len (url_base ctx n)"
      "url_encoding (url_base ctx n) = HTTP_ECODING_TYPE_NONE"
  shows "\<exists>ctx' w'. ngx_http_url_write e ctx w n = Some (ctx', w @ IoOpen path True # w' @ [IoClose])
    \<and> has_flg HTTP_SNOOPING_FLG_RES_WRITE (url_base ctx' n) \<and> data_buf_list (url_base ctx' n) = []
    \<and> data_buf_free_list ctx' = rev (data_buf_list (url_base ctx n)) @ data_buf_free_list ctx
    \<and> buf_num ctx' = buf_num ctx + of_nat (length (data_buf_list (url_base ctx n)))
    \<and> (write_no_error e \<longrightarrow> written w' = concat (map (buf_bytes ctx) (data_buf_list (url_base ctx n))))"
proof -
  define ctx1 where "ctx1 = upd_url ctx n (set_flg HTTP_SNOOPING_FLG_RES_LFN)"
  have c1: "data_buf_list (url_base ctx1 n) = data_buf_list (url_base ctx n)" "buf_bytes ctx1 = buf_bytes ctx"
    "data_buf_free_list ctx1 = data_buf_free_list ctx" "buf_num ctx1 = buf_num ctx"
    by (simp_all add: ctx1_def fun_eq_iff)
  obtain w' where w': "write_bufs e ctx1 (w @ [IoOpen path True]) n = Some (give_back ctx1 n, (w @ [IoOpen path True]) @ w')"
    "write_no_error e \<longrightarrow> written w' = concat (map (buf_bytes ctx) (data_buf_list (url_base ctx n)))"
    using write_bufs_ok [OF assms(1), of ctx1 "w @ [IoOpen path True]" n] c1 by auto
  have "ngx_http_url_write e ctx w n = ngx_http_none_write e ctx w n"
    using assms(4-8) by (simp add: ngx_http_url_write_def HTTP_ECODING_TYPE_GZIP_def
        HTTP_ECODING_TYPE_DEFLATE_def HTTP_ECODING_TYPE_NONE_def)
  also have "\<dots> = Some (upd_url (give_back ctx1 n) n (set_flg HTTP_SNOOPING_FLG_RES_WRITE),
      w @ IoOpen path True # w' @ [IoClose])"
    using assms(2,3) w'(1) by (simp add: ngx_http_none_write_def ctx1_def Let_def)
  finally show ?thesis using w'(2) c1 by (simp add: c_simps bit_or_iff)
qed

text \<open>C15. Saving a complete resource that is not compressed: with the file open, the write task gives every
  buffer of the node back to the pool and marks the node as saved; the file holds the bytes of the buffers
  in order unless a write failed.\<close>

theorem url_write_saves:
  assumes "write_progress e" and "local_file_path e (url_base ctx n) = Some path" "env_open e w path"
    and "has_flg HTTP_SNOOPING_FLG_RES_CACHE (url_base ctx n)"
      "has_flg HTTP_SNOOPING_FLG_CACHE_BUF_ALLOC (url_base ctx n)"
      "\<not> has_flg HTTP_SNOOPING_FLG_RES_WRITE (url_base ctx n)"
    and "url_res_len (url_base ctx n) = url_data_len (url_base ctx n)"
      "url_encoding (url_base ctx n) = HTTP_ECODING_TYPE_NONE"
  shows "\<exists>ctx' w'. ngx_http_url_write e ctx w n = Some (ctx', w @ IoOpen path True # w' @ [IoClose])
    \<and> has_flg HTTP_SNOOPING_FLG_RES_WRITE (url_base ctx' n) \<and> data_buf_list (url_base ctx' n) = []
    \<and> data_buf_free_list ctx' = rev (data_buf_list (url_base ctx n)) @ data_buf_free_list ctx
    \<and> buf_num ctx' = buf_num ctx + of_nat (length (data_buf_list (url_base ctx n)))
    \<and> (write_no_error e \<longrightarrow> written w' = concat (map (buf_bytes ctx) (data_buf_list (url_base ctx n))))"
  using url_write_ok [OF assms] .

lemma url_write_saves_witness:
  "\<exists>ctx' w'. ngx_http_url_write demo_env (demo_ctx HTTP_ECODING_TYPE_NONE) [] 0 = Some (ctx', w')
     \<and> data_buf_free_list ctx' = [7, 4, 9] \<and> buf_num ctx' = 3 \<and> written w' = ''hello''"
proof -
  have "env_open demo_env [] ''/mnt/usb0/html/1_2_3_4/youku_x.flv''" by (simp add: demo_env_def)
  from url_write_saves [OF demo_progress(1) _ this, of "demo_ctx HTTP_ECODING_TYPE_NONE" 0]
  show ?thesis using demo_progress(2) by (auto simp: demo_ctx_simps demo_flags demo_path)
qed

text \<open>C16. A recorded response keeps no buffer. When the write task works on a node whose response is complete
  (\<open>RES_CACHE\<close>), which has had buffers allocated (\<open>CACHE_BUF_ALLOC\<close>) and is not written yet, then, whatever the file system and
  zlib answer, the node has no buffer afterwards. All of them are back in the pool, in reverse order; only for
  deflated data one buffer may be lost. Nothing is said about a node in the middle of a response.\<close>

theorem url_write_releases_buffers:
  assumes "ngx_http_url_write e ctx w n = Some (ctx', w')"
    and "has_flg HTTP_SNOOPING_FLG_RES_CACHE (url_base ctx n)"
      "has_flg HTTP_SNOOPING_FLG_CACHE_BUF_ALLOC (url_base ctx n)"
      "\<not> has_flg HTTP_SNOOPING_FLG_RES_WRITE (url_base ctx n)"
  shows "data_buf_list (url_base ctx' n) = []
    \<and> (data_buf_free_list ctx' = rev (data_buf_list (url_base ctx n)) @ data_buf_free_list ctx
       \<or> url_encoding (url_base ctx n) = HTTP_ECODING_TYPE_DEFLATE
         \<and> lost_at_most_one (data_buf_list (url_base ctx n)) (data_buf_free_list ctx) (data_buf_free_list ctx'))"
  using url_write_bufs [OF assms] .

lemma url_write_releases_buffers_witness:
  "\<exists>ctx' w'. ngx_http_url_write demo_env (demo_ctx HTTP_ECODING_TYPE_GZIP) [] 0 = Some (ctx', w')
     \<and> data_buf_list (url_base ctx' 0) = [] \<and> data_buf_free_list ctx' = [7, 4, 9]"
proof -
  define ctx1 where "ctx1 = upd_url (demo_ctx HTTP_ECODING_TYPE_GZIP) 0 (set_flg HTTP_SNOOPING_FLG_RES_LFN)"
  define path where "path = ''/mnt/usb0/html/1_2_3_4/youku_x.flv.gz''"
  obtain w1 where "write_bufs demo_env ctx1 [IoOpen path True] 0 = Some (give_back ctx1 0, w1)"
    using write_bufs_ok [OF demo_progress(1)] by blast
  then have "ngx_http_url_write demo_env (demo_ctx HTTP_ECODING_TYPE_GZIP) [] 0 =
      Some (upd_url (give_back ctx1 0) 0 (set_flg HTTP_SNOOPING_FLG_RES_WRITE), w1 @ [IoClose, IoUncompress path])"
    by (simp add: ngx_http_url_write_def nxg_http_gzip_write_def demo_ctx_simps demo_flags demo_path ctx1_def path_def)
      (simp add: demo_env_def local_file_buf_def HTTP_SP_URL_LEN_MAX_def HTTP_LOCAL_FILE_ROOT_MAX_def)
  note r = this
  have "HTTP_ECODING_TYPE_GZIP \<noteq> HTTP_ECODING_TYPE_DEFLATE"
    by (simp add: HTTP_ECODING_TYPE_GZIP_def HTTP_ECODING_TYPE_DEFLATE_def)
  then show ?thesis using url_write_releases_buffers [OF r] r by (simp add: demo_ctx_simps demo_flags)
qed

text \<open>C33. The buffer that an error of zlib loses: when \<open>inflate\<close> refuses the data of the first buffer, this
  buffer is neither with the node nor in the pool afterwards, and the counter of free buffers misses it.\<close>

theorem deflate_error_leaks_buffer:
  assumes "data_buf_list (url_base ctx n) = b # bs" "2 \<le> length (buf_data (data_buf ctx b))"
    and "local_file_path e (url_base ctx n) = Some path" "env_open e w path"
    and "\<And>w. env_inflate_init e w = Z_OK"
    and "\<And>w inp. fst (env_inflate e w inp) \<notin> {Z_OK, Z_STREAM_END, Z_BUF_ERROR}"
  shows "\<exists>ctx' w'. ngx_http_deflate_write e ctx w n = Some (ctx', w') \<and> data_buf_list (url_base ctx' n) = []
    \<and> data_buf_free_list ctx' = rev bs @ data_buf_free_list ctx \<and> buf_num ctx' = buf_num ctx + of_nat (length bs)"
proof -
  define ctx1 where "ctx1 = upd_url ctx n (set_flg HTTP_SNOOPING_FLG_RES_LFN)"
  define ctx2 where "ctx2 = upd_url ctx1 n (\<lambda>v. v\<lparr>data_buf_list := bs\<rparr>)"
  have g: "http_url_cache_buf_get ctx1 n = (Some b, ctx2)"
    using assms(1) by (simp add: http_url_cache_buf_get_def ctx1_def ctx2_def)
  have c2: "data_buf ctx2 = data_buf ctx" "data_buf_list (url_base ctx2 n) = bs"
    "data_buf_free_list ctx2 = data_buf_free_list ctx" "buf_num ctx2 = buf_num ctx"
    by (simp_all add: ctx1_def ctx2_def)
  have "\<exists>w1. inflate_buf e w inp = Some (False, w1)" for w inp
    using assms(6) [of w inp] by (subst inflate_buf.simps) (auto simp: case_prod_beta Let_def)
  then obtain w1 where i: "\<And>w inp. inflate_buf e w inp = Some (False, w1 w inp)" by metis
  have d: "deflate_bufs e ctx2 w n b = Some (False, ctx2, w1 w (buf_bytes ctx2 b))" for w
    by (subst deflate_bufs.simps) (simp add: i)
  have "\<exists>w'. ngx_http_deflate_write e ctx w n = Some (write_failed ctx2 n, w')"
    using assms(2-5) unfolding ngx_http_deflate_write_def
    by (simp add: Let_def ctx1_def [symmetric] g c2 rd_def deflate_failed_def d case_prod_beta) auto
  then show ?thesis using c2 by (auto simp: write_failed_def free_bufs_eq)
qed

lemma deflate_error_leaks_buffer_witness:
  "\<exists>ctx' w'. ngx_http_deflate_write demo_env (demo_ctx HTTP_ECODING_TYPE_DEFLATE) [] 0 = Some (ctx', w')
     \<and> data_buf_free_list ctx' = [7, 9] \<and> buf_num ctx' = 2"
proof -
  have "data_buf_list (url_base (demo_ctx HTTP_ECODING_TYPE_DEFLATE) 0) = 4 # [7]"
    "2 \<le> length (buf_data (data_buf (demo_ctx HTTP_ECODING_TYPE_DEFLATE) 4))"
    "local_file_path demo_env (url_base (demo_ctx HTTP_ECODING_TYPE_DEFLATE) 0) = Some ''/mnt/usb0/html/1_2_3_4/youku_x.flv''"
    "env_open demo_env [] ''/mnt/usb0/html/1_2_3_4/youku_x.flv''"
    "\<And>w. env_inflate_init demo_env w = Z_OK"
    "\<And>w inp. fst (env_inflate demo_env w inp) \<notin> {Z_OK, Z_STREAM_END, Z_BUF_ERROR}"
    by (simp_all add: demo_ctx_simps demo_flags demo_path)
      (simp_all add: demo_ctx_def demo_env_def Z_OK_def Z_STREAM_END_def Z_BUF_ERROR_def)
  from deflate_error_leaks_buffer [OF this] show ?thesis by (auto simp: demo_ctx_simps)
qed

text \<open>C12. The log survives a restart: for a log of entries as the write task prints them,
  \<open>ngx_http_snooping_load_url\<close> performs exactly these additions and deletions on the table, in order, and
  the log is removed.\<close>

theorem load_url_replays_log:
  assumes "length stack = url_file_buf_size" "\<And>l. l \<in> set es \<Longrightarrow> loggable l"
  shows "ngx_http_snooping_load_url tree stack ctx (Some (log_text es))
    = map_option (\<lambda>ctx'. (ctx', None)) (replay tree ctx es)"
proof -
  have w: "wr stack (HTTP_SP_URL_LEN_MAX + 6 + 2) NUL = Some (stack[HTTP_SP_URL_LEN_MAX + 6 + 2 := NUL])"
    using assms(1) by (simp add: wr_def url_file_buf_size_def)
  have "length (stack[HTTP_SP_URL_LEN_MAX + 6 + 2 := NUL]) = url_file_buf_size" using assms(1) by simp
  from load_loop_replay [OF this assms(2), where pre = "[]"] show ?thesis
    unfolding ngx_http_snooping_load_url_def option.simps w by (cases "replay tree ctx es") simp_all
qed

lemma load_url_replays_log_witness:
  "\<exists>n ctx'. ngx_http_snooping_load_url http_cache_host_tree (replicate url_file_buf_size NUL)
       (ngx_http_snooping_ctx_init 0 0) (Some (''@@@@+1.2.3.4/youku/x.flv'' @ [CR, LF]))
     = Some (ngx_http_sp_url_state_setby_id ctx' (int n) HTTP_LOCAL_DOWN_STATE_OK, None)"
proof -
  define es where "es = [(HTTP_C2SP_ACTION_ADD, ''1.2.3.4/youku/x.flv'')]"
  have es: "log_text es = ''@@@@+1.2.3.4/youku/x.flv'' @ [CR, LF]" by (simp add: es_def log_text_def log_line_def)
  have l: "\<And>l. l \<in> set es \<Longrightarrow> loggable l" by (simp add: es_def loggable_def HTTP_SP_URL_LEN_MAX_def)
  have "length (replicate url_file_buf_size NUL) = url_file_buf_size" by simp
  from load_url_replays_log [OF this l] have r: "ngx_http_snooping_load_url http_cache_host_tree
      (replicate url_file_buf_size NUL) (ngx_http_snooping_ctx_init 0 0) (Some (log_text es))
    = map_option (\<lambda>ctx'. (ctx', None)) (replay http_cache_host_tree (ngx_http_snooping_ctx_init 0 0) es)"
    by blast
  obtain n ctx' where "ngx_http_sp_url_handle http_cache_host_tree (ngx_http_snooping_ctx_init 0 0)
      ''1.2.3.4/youku/x.flv'' HTTP_C2SP_ACTION_ADD = Some (int n, ctx')" using youku_flv_add by blast
  then show ?thesis using r unfolding es by (auto simp: es_def)
qed

end
