(* ===== verification/SnoopConn.thy ===== *)
theory SnoopConn
  imports SnoopWrite
begin

text \<open>
  The packet path of \<^verbatim>\<open>http-snooping.c\<close>: the pool of connections, the parsers of requests and responses,
  the answers 302 and 403, and the copying of response bodies into data buffers. Packets are numbers; a
  chain has a head, a tail and a count, and the packets are linked by \<open>nextPkt\<close>, which is the function
  \<open>links\<close>. The packet library of the operating system is outside: its operations are the fields of an
  argument \<open>ef_lib\<close>, the answers of the TCP proxy the fields of \<open>tp_env\<close>. \<^const>\<open>None\<close> is an undefined
  access: outside a buffer, through a null pointer, or through a pointer to a list head taken for a buffer.
\<close>

section \<open>Constants\<close>

definition HTTP_SP_REQ_HEAD_LEN_MAX :: nat where
  "HTTP_SP_REQ_HEAD_LEN_MAX = 3072 - 512"

definition HTTP_SP_RES_HEAD_LEN_MAX :: nat where
  "HTTP_SP_RES_HEAD_LEN_MAX = 1024"

definition HTTP_SP_METHOD_NONE :: u8 where
  "HTTP_SP_METHOD_NONE = 0"

definition HTTP_SP_METHOD_GET :: u8 where
  "HTTP_SP_METHOD_GET = 1"

definition HTTP_SP_METHOD_POST :: u8 where
  "HTTP_SP_METHOD_POST = 2"

definition HTTP_SP_METHOD_HEAD :: u8 where
  "HTTP_SP_METHOD_HEAD = 3"

definition HTTP_SP_METHOD_PUT :: u8 where
  "HTTP_SP_METHOD_PUT = 4"

definition HTTP_SP_STATE_INIT :: u8 where
  "HTTP_SP_STATE_INIT = 1"

definition HTTP_SP_STATE_INIT_DATA :: u8 where
  "HTTP_SP_STATE_INIT_DATA = 2"

definition HTTP_SP_STATE_REQUEST_HEADER :: u8 where
  "HTTP_SP_STATE_REQUEST_HEADER = 3"

definition HTTP_SP_STATE_DATA_LINE :: u8 where
  "HTTP_SP_STATE_DATA_LINE = 5"

definition HTTP_SP_STATE_DONE :: u8 where
  "HTTP_SP_STATE_DONE = 7"

definition HTTP_SP_STATE_REQUEST_HEADER_ERROR :: u8 where
  "HTTP_SP_STATE_REQUEST_HEADER_ERROR = 8"

lemmas http_sp_state_defs =
  HTTP_SP_STATE_INIT_def HTTP_SP_STATE_INIT_DATA_def HTTP_SP_STATE_REQUEST_HEADER_def HTTP_SP_STATE_DATA_LINE_def
  HTTP_SP_STATE_DONE_def HTTP_SP_STATE_REQUEST_HEADER_ERROR_def

definition http_end :: cstr where
  "http_end = [CR, LF, CR, LF]"

definition http_new_line :: cstr where
  "http_new_line = [CR, LF]"

definition http_host :: cstr where
  "http_host = ''Host: ''"

definition http_content_len :: cstr where
  "http_content_len = ''Content-Length: ''"

definition http_content_type :: cstr where
  "http_content_type = ''Content-Type: ''"

definition http_trans_encoding_type_chunked :: cstr where
  "http_trans_encoding_type_chunked = ''Transfer-Encoding: chunked'' @ [CR, LF]"

definition http_content_encoding_type :: cstr where
  "http_content_encoding_type = ''Content-Encoding: ''"

definition http_con_str :: "cstr list" where
  "http_con_str = [''Connection: Keep-Alive'' @ [CR, LF], ''Connection: close'' @ [CR, LF]]"

definition http_redirect_302_str :: cstr where
  "http_redirect_302_str = ''HTTP/1.1 302 Found'' @ [CR, LF]"

definition http_client_403_str :: cstr where
  "http_client_403_str = ''HTTP/1.1 403 Forbidden'' @ [CR, LF] @ ''Connection: Keep-Alive'' @ [CR, LF, CR, LF]"

definition HTTP_MAX_HOST :: nat where
  "HTTP_MAX_HOST = 1024"

definition HTTP_HOMEPAGE_HASH_KEY :: "u32 \<Rightarrow> nat" where
  "HTTP_HOMEPAGE_HASH_KEY sip = unat (sip AND 0x0000ffff) mod HTTP_MAX_HOST"

definition HTTP_HOMEPAGE_TIMEOUT :: "u32 \<Rightarrow> u32" where
  "HTTP_HOMEPAGE_TIMEOUT HZ = 10 * 60 * HZ"

section \<open>Strings in buffers\<close>

text \<open>The C string at an offset of a buffer; without a terminator the access is undefined. \<open>strstr\<close> gives
  the first position of the pattern, \<open>strchr\<close> the first position of a byte.\<close>

definition str_at :: "buf \<Rightarrow> nat \<Rightarrow> cstr option" where
  "str_at b off = (if NUL \<in> set (drop off b) then Some (c_str (drop off b)) else None)"

fun c_strstr :: "cstr \<Rightarrow> cstr \<Rightarrow> nat option" where
  "c_strstr [] pat = (if pat = [] then Some 0 else None)"
| "c_strstr (c # s) pat =
     (if take (length pat) (c # s) = pat then Some 0 else map_option Suc (c_strstr s pat))"

text \<open>\<open>ngx_atoi\<close>: the value is a 32-bit signed number; the result is -1 for an empty string, for a byte that is no
  digit and for a negative value. The overflow of the signed product is undefined in C; it is read here as the machine
  does it, as a wrap-around, with the test for a negative value in place.\<close>

definition ngx_atoi :: "cstr \<Rightarrow> int" where
  "ngx_atoi line =
     (if line = [] \<or> (\<exists>c \<in> set line. c < CHR ''0'' \<or> c > CHR ''9'') then -1
      else let v = sint (foldl (\<lambda>v c. v * 10 + (of_char c - of_char CHR ''0'')) (0 :: u32) line) in
        if v < 0 then -1 else v)"

section \<open>Packets and chains\<close>

type_synonym links = "nat \<Rightarrow> nat option"

record ef_buf_chain =
  chain_head :: "nat option"
  chain_tail :: "nat option"
  chain_count :: nat

text \<open>The packet library: the payload of a packet, an empty chain, appending a packet, appending a chain,
  copying a chain.\<close>

record ef_lib =
  tcp_data_get :: "nat \<Rightarrow> cstr"
  ef_buf_init_chain :: ef_buf_chain
  ef_buf_efb_to_chain :: "links \<Rightarrow> ef_buf_chain \<Rightarrow> nat \<Rightarrow> links \<times> ef_buf_chain"
  ef_buf_chain2chain :: "links \<Rightarrow> ef_buf_chain \<Rightarrow> ef_buf_chain \<Rightarrow> links \<times> ef_buf_chain"
  ef_buf_copy_chain :: "ef_buf_chain \<Rightarrow> ef_buf_chain \<Rightarrow> ef_buf_chain"

fun getn_loop ::
  "ef_lib \<Rightarrow> nat \<Rightarrow> links \<Rightarrow> ef_buf_chain \<Rightarrow> nat option \<Rightarrow> (links \<times> ef_buf_chain \<times> nat option) option" where
  "getn_loop ef 0 l dst efb = Some (l, dst, efb)"
| "getn_loop ef (Suc k) l dst efb =
     do {
       p \<leftarrow> efb;
       let (l1, dst1) = ef_buf_efb_to_chain ef l dst p;
       getn_loop ef k l1 dst1 (l1 p)
     }"

definition ngx_http_ef_getn ::
  "ef_lib \<Rightarrow> links \<Rightarrow> ef_buf_chain \<Rightarrow> ef_buf_chain \<Rightarrow> nat
     \<Rightarrow> (links \<times> ef_buf_chain \<times> ef_buf_chain) option" where
  "ngx_http_ef_getn ef l dst src token =
     (if chain_count src > token then do {
        (l1, dst1, efb) \<leftarrow> getn_loop ef token l dst (chain_head src);
        p \<leftarrow> efb;
        Some (l1(p := None), dst1, src\<lparr>chain_head := l1 p, chain_count := chain_count src - token\<rparr>)
      }
      else Some (l, ef_buf_copy_chain ef dst src, ef_buf_init_chain ef))"

section \<open>Connections\<close>

text \<open>The pointers \<open>server_name\<close> and \<open>res_url\<close> point into \<open>current_request_header_buf\<close>; they are pairs of an
  offset and a length.\<close>

record http_sp_connection =
  con_flags :: u32
  server_addr :: u32
  client_addr :: u32
  server_port :: u16
  client_port :: u16
  local_server_addr :: u32
  req_method :: u8
  req_state :: u8
  res_state :: u8
  encoding_type :: u8
  trans_encoding_type :: u8
  post_fix :: u8
  server_name :: "nat \<times> nat"
  res_url :: "nat \<times> nat"
  request_pkt_chain :: ef_buf_chain
  response_pkt_chain :: ef_buf_chain
  req_data_len :: int
  rec_req_data_len :: u32
  rec_res_data_len :: u32
  response_status :: "nat \<times> nat"
  content_type :: "nat \<times> nat"
  content_len :: "nat \<times> nat"
  response_header_len :: nat
  request_header_len :: nat
  data_len :: int
  parse_req_pos :: nat
  parse_res_pos :: nat
  wan_ta_client_tp :: "nat option"
  con_url :: "nat option"
  req_rec_pkt :: u32
  req_snd_pkt :: u32
  res_rec_pkt :: u32
  res_snd_pkt :: u32
  current_request_header_buf :: buf
  current_response_header_buf :: buf

text \<open>What the packet path does outside: it notifies the proxy, sends a packet of its own to the client,
  frees a chain, hands packets on to the other side.\<close>

datatype sp_event =
    EvNotify
  | EvSendmsg cstr
  | EvFree ef_buf_chain
  | EvForward "nat option"

record sp_state =
  sp_ctx :: http_snooping_ctx
  sp_links :: links
  http_homepage_hash :: "nat \<Rightarrow> u32"
  sp_events :: "sp_event list"

text \<open>The environment: the free space of the send queue of the client, whether a packet can be allocated, the
  room in a fresh packet, the text of an address (the conversion \<open>%a\<close> of the system's \<open>sprintf\<close>), the
  address of a string constant, the stacks of the called functions, and the tree of content types.\<close>

record tp_env =
  write_queue_free_space :: "sp_event list \<Rightarrow> nat"
  r_ef_buf_alloc :: "sp_event list \<Rightarrow> bool"
  tp_pkt_room :: nat
  tp_ip_text :: "u32 \<Rightarrow> cstr"
  tp_HZ :: u32
  tp_str_addr :: "cstr \<Rightarrow> u32"
  tp_mime_tree :: "http_mime_type_t avl_node"
  tp_file_stack :: buf
  tp_para_stack :: buf

definition emit :: "sp_event \<Rightarrow> sp_state \<Rightarrow> sp_state" where
  "emit ev st = st\<lparr>sp_events := sp_events st @ [ev]\<rparr>"

section \<open>Answers to the client\<close>

text \<open>Dropping the packets of the request: they are freed and the chain is empty.\<close>

definition drop_request :: "ef_lib \<Rightarrow> http_sp_connection \<Rightarrow> sp_state \<Rightarrow> http_sp_connection \<times> sp_state" where
  "drop_request ef con st =
     (con\<lparr>request_pkt_chain := ef_buf_init_chain ef\<rparr>, emit (EvFree (request_pkt_chain con)) st)"

definition ngx_http_snooping_url_forbidden ::
  "tp_env \<Rightarrow> ef_lib \<Rightarrow> http_sp_connection \<Rightarrow> sp_state \<Rightarrow> (http_sp_connection \<times> sp_state) option" where
  "ngx_http_snooping_url_forbidden te ef con st =
     (if write_queue_free_space te (sp_events st) = 0 then Some (drop_request ef con st)
      else if \<not> r_ef_buf_alloc te (sp_events st) then Some (con, st)
      else if length http_client_403_str > tp_pkt_room te then None
      else Some (drop_request ef con (emit (EvSendmsg http_client_403_str) st)))"

text \<open>The name of the local file in the location line.\<close>

definition redirect_file :: "tp_env \<Rightarrow> http_snooping_url \<Rightarrow> cstr option" where
  "redirect_file te v =
     do {
       r \<leftarrow> pcache_rule v;
       (d1, n) \<leftarrow> ngx_http_snooping_url2local_file (tp_para_stack te) (url_buf v @ [NUL])
                   (server_name_len v + res_url_len v) (tp_file_stack te) 0 r;
       d2 \<leftarrow> (if postfix (node_mime v) \<noteq> []
              then do {
                d \<leftarrow> mem_write d1 n (postfix (node_mime v));
                wr d (n + length (postfix (node_mime v))) NUL
              }
              else Some d1);
       str_at d2 0
     }"

definition redirect_text ::
  "tp_env \<Rightarrow> http_cache_url \<Rightarrow> http_snooping_url \<Rightarrow> http_sp_connection \<Rightarrow> cstr option" where
  "redirect_text te r v con =
     do {
       let con_str = (if cache_flg r AND HTTP_CACHE_URL_CON_CLOSE \<noteq> 0 then http_con_str ! 1 else http_con_str ! 0);
       let server_ip = (if redirect_addr v \<noteq> 0 then redirect_addr v else local_server_addr con);
       let loc = http_redirect_302_str @ con_str @ ''Location: http://'' @ tp_ip_text te server_ip @ '':8080/'';
       tail \<leftarrow> (if cache_flg r AND HTTP_CACHE_URL_HOMEPAGE_POLL \<noteq> 0 then Some []
               else do {
                 name \<leftarrow> redirect_file te v;
                 para \<leftarrow> (if cache_flg r AND HTTP_CACHE_URL_REDIRECT_PARA \<noteq> 0
                         then map_option (dropWhile (\<lambda>c. c \<noteq> CHR ''?''))
                                (mem_read (current_request_header_buf con) (fst (res_url con)) (snd (res_url con)))
                         else Some []);
                 Some (name @ para)
               });
       Some (loc @ tail @ [CR, LF, CR, LF])
     }"

definition ngx_http_snooping_url_redirect ::
  "tp_env \<Rightarrow> ef_lib \<Rightarrow> http_sp_connection \<Rightarrow> sp_state \<Rightarrow> (http_sp_connection \<times> sp_state) option" where
  "ngx_http_snooping_url_redirect te ef con st =
     do {
       n \<leftarrow> con_url con;
       let v = url_base (sp_ctx st) n;
       r \<leftarrow> pcache_rule v;
       let key = HTTP_HOMEPAGE_HASH_KEY (client_addr con);
       let poll = (cache_flg r AND HTTP_CACHE_URL_HOMEPAGE_POLL \<noteq> 0);
       if poll \<and> jiffies (sp_ctx st) < http_homepage_hash st key + HTTP_HOMEPAGE_TIMEOUT (tp_HZ te)
          \<and> http_homepage_hash st key \<noteq> 0
       then Some (con, st)
       else if write_queue_free_space te (sp_events st) = 0 then Some (drop_request ef con st)
       else if \<not> r_ef_buf_alloc te (sp_events st) then Some (con, st)
       else do {
         text \<leftarrow> redirect_text te r v con;
         if length text > tp_pkt_room te then None
         else Some (drop_request ef con
           (emit (EvSendmsg text)
              (if poll then st\<lparr>http_homepage_hash := (http_homepage_hash st)(key := jiffies (sp_ctx st))\<rparr> else st)))
       }
     }"

section \<open>Requests\<close>

text \<open>The loop that gathers the header of a message from the new packets. It stops at the first packet that
  does not fit into the buffer, of which it takes what fits.\<close>

fun collect :: "ef_lib \<Rightarrow> links \<Rightarrow> nat \<Rightarrow> nat \<Rightarrow> nat option \<Rightarrow> buf \<Rightarrow> nat \<Rightarrow> (buf \<times> nat) option" where
  "collect ef l mx 0 efb b pos = Some (b, pos)"
| "collect ef l mx (Suc k) efb b pos =
     do {
       p \<leftarrow> efb;
       let d = tcp_data_get ef p;
       if length d + pos > mx - 1 then do {
         b1 \<leftarrow> mem_write b pos (take (mx - 1 - pos) d);
         Some (b1, mx - 1)
       }
       else do {
         b1 \<leftarrow> mem_write b pos d;
         collect ef l mx k (l p) b1 (pos + length d)
       }
     }"

text \<open>The method of a request and the offset of the bytes behind it.\<close>

definition request_method :: "buf \<Rightarrow> (u8 \<times> nat) option" where
  "request_method b =
     (if take 4 b = ''GET '' then Some (HTTP_SP_METHOD_GET, 4)
      else if take 5 b = ''POST '' then Some (HTTP_SP_METHOD_POST, 5)
      else if take 4 b = ''PUT '' then Some (HTTP_SP_METHOD_PUT, 4)
      else if take 5 b = ''HEAD '' then Some (HTTP_SP_METHOD_HEAD, 5)
      else None)"

abbreviation req_error :: "http_sp_connection \<Rightarrow> http_sp_connection" where
  "req_error con \<equiv> con\<lparr>req_state := HTTP_SP_STATE_REQUEST_HEADER_ERROR\<rparr>"

text \<open>The request line and the host. The second component is the offset behind the line of the host, or
  nothing after an error.\<close>

definition request_line :: "http_sp_connection \<Rightarrow> (http_sp_connection \<times> nat option) option" where
  "request_line con =
     (let b = current_request_header_buf con in
      case request_method b of
        None \<Rightarrow> Some (req_error (con\<lparr>req_method := HTTP_SP_METHOD_NONE\<rparr>), None)
      | Some (m, o1) \<Rightarrow> do {
          s1 \<leftarrow> str_at b o1;
          let con1 = con\<lparr>req_method := m, res_url := (o1, snd (res_url con))\<rparr>;
          case str_index (CHR '' '') s1 of
            None \<Rightarrow> Some (req_error con1, None)
          | Some n1 \<Rightarrow>
              let con2 = con1\<lparr>res_url := (o1, n1)\<rparr>; o2 = o1 + n1 + 1 in
              if n1 \<ge> HTTP_SP_URL_LEN_MAX then Some (req_error con2, None)
              else do {
                s2 \<leftarrow> str_at b o2;
                case c_strstr s2 http_host of
                  None \<Rightarrow> Some (req_error con2, None)
                | Some n2 \<Rightarrow>
                    let o3 = o2 + n2 + length http_host; con3 = con2\<lparr>server_name := (o3, snd (server_name con))\<rparr> in
                    do {
                      s3 \<leftarrow> str_at b o3;
                      case c_strstr s3 http_new_line of
                        None \<Rightarrow> Some (req_error con3, None)
                      | Some n3 \<Rightarrow> Some (con3\<lparr>server_name := (o3, n3)\<rparr>, Some (o3 + n3 + length http_new_line))
                    }
              }
        })"

text \<open>The length of the body of a request that is no GET: at most ten bytes up to the end of the line.\<close>

fun copy_digits :: "buf \<Rightarrow> nat \<Rightarrow> nat \<Rightarrow> cstr \<Rightarrow> cstr option option" where
  "copy_digits b off 0 data_str = Some None"
| "copy_digits b off (Suc k) data_str =
     do {
       c \<leftarrow> rd b off;
       if c = CR then Some (Some data_str) else copy_digits b (Suc off) k (data_str @ [c])
     }"

definition request_body_len :: "http_sp_connection \<Rightarrow> nat \<Rightarrow> http_sp_connection option" where
  "request_body_len con off =
     do {
       s \<leftarrow> str_at (current_request_header_buf con) off;
       case c_strstr s http_content_len of
         None \<Rightarrow> Some (con\<lparr>req_data_len := 0, req_state := HTTP_SP_STATE_DONE\<rparr>)
       | Some n \<Rightarrow> do {
           ds \<leftarrow> copy_digits (current_request_header_buf con) (off + n + length http_content_len) 11 [];
           case ds of
             None \<Rightarrow> Some (req_error con)
           | Some data_str \<Rightarrow>
               let con1 = con\<lparr>req_data_len := ngx_atoi data_str\<rparr> in
               Some (if ngx_atoi data_str = -1 then req_error con1
                     else con1\<lparr>req_state := HTTP_SP_STATE_DATA_LINE\<rparr>)
         }
     }"

text \<open>A GET request: the URL is recorded; a forbidden URL is answered with 403, a saved one with 302.\<close>

definition request_get ::
  "host_tree \<Rightarrow> tp_env \<Rightarrow> ef_lib \<Rightarrow> http_sp_connection \<Rightarrow> sp_state \<Rightarrow> (http_sp_connection \<times> sp_state) option" where
  "request_get tree te ef con st =
     do {
       let b = current_request_header_buf con;
       sname \<leftarrow> mem_read b (fst (server_name con)) (snd (server_name con));
       res \<leftarrow> mem_read b (fst (res_url con)) (snd (res_url con));
       (sp_url, pf, ctx1) \<leftarrow> ngx_http_snooping_url_record tree (sp_ctx st) sname res (post_fix con);
       let con1 = con\<lparr>con_url := sp_url, post_fix := pf\<rparr>;
       let st1 = st\<lparr>sp_ctx := ctx1\<rparr>;
       (con2, st2) \<leftarrow>
         (case sp_url of
            None \<Rightarrow> Some (con1, st1)
          | Some n \<Rightarrow> do {
              r \<leftarrow> pcache_rule (url_base ctx1 n);
              if cache_flg r AND HTTP_CACHE_URL_FORBIDEN \<noteq> 0 then ngx_http_snooping_url_forbidden te ef con1 st1
              else if has_flg HTTP_SNOOPING_FLG_RES_WRITE (url_base ctx1 n)
                      \<or> cache_flg r AND HTTP_CACHE_URL_HOMEPAGE_POLL \<noteq> 0
              then ngx_http_snooping_url_redirect te ef con1 st1
              else Some (con1, st1)
            });
       Some (con2\<lparr>req_state := HTTP_SP_STATE_DONE\<rparr>, st2)
     }"

definition request_header ::
  "host_tree \<Rightarrow> tp_env \<Rightarrow> ef_lib \<Rightarrow> http_sp_connection \<Rightarrow> sp_state \<Rightarrow> (http_sp_connection \<times> sp_state) option" where
  "request_header tree te ef con st =
     do {
       (con1, off) \<leftarrow> request_line con;
       case off of
         None \<Rightarrow> Some (con1, st)
       | Some o1 \<Rightarrow>
           if req_method con1 = HTTP_SP_METHOD_GET then request_get tree te ef con1 st
           else do { con2 \<leftarrow> request_body_len con1 o1; Some (con2, st) }
     }"

text \<open>The state \<open>INIT\<close> or \<open>INIT_DATA\<close>; the third component of the result says whether the loop goes on.\<close>

definition request_collect ::
  "ef_lib \<Rightarrow> links \<Rightarrow> nat option \<Rightarrow> nat \<Rightarrow> http_sp_connection \<Rightarrow> (http_sp_connection \<times> bool) option" where
  "request_collect ef l efb_ins_head pkt_num con =
     do {
       let con1 = (if req_state con = HTTP_SP_STATE_INIT
                   then con\<lparr>res_state := HTTP_SP_STATE_INIT, parse_res_pos := 0, rec_res_data_len := 0,
                            parse_req_pos := 0, req_data_len := 0\<rparr> else con);
       (b1, pos) \<leftarrow> collect ef l HTTP_SP_REQ_HEAD_LEN_MAX pkt_num efb_ins_head
                      (current_request_header_buf con1) (parse_req_pos con1);
       b2 \<leftarrow> wr b1 pos NUL;
       let con2 = con1\<lparr>current_request_header_buf := b2, parse_req_pos := pos\<rparr>;
       s \<leftarrow> str_at b2 0;
       Some (case c_strstr s http_end of
               None \<Rightarrow>
                 if pos > HTTP_SP_REQ_HEAD_LEN_MAX - 1 then (req_error con2, True)
                 else (con2\<lparr>req_state := HTTP_SP_STATE_INIT_DATA\<rparr>, False)
             | Some n \<Rightarrow> (con2\<lparr>req_state := HTTP_SP_STATE_REQUEST_HEADER,
                               request_header_len := n + length http_end\<rparr>, True))
     }"

text \<open>Handing on at most \<open>token\<close> packets of the request.\<close>

definition request_forward ::
  "ef_lib \<Rightarrow> nat \<Rightarrow> http_sp_connection \<Rightarrow> ef_buf_chain \<Rightarrow> sp_state
     \<Rightarrow> (http_sp_connection \<times> ef_buf_chain \<times> sp_state) option" where
  "request_forward ef token con out st =
     do {
       (l, out1, src) \<leftarrow> ngx_http_ef_getn ef (sp_links st) out (request_pkt_chain con) token;
       Some (con\<lparr>request_pkt_chain := src\<rparr>, out1,
             (if chain_count src \<noteq> 0 then emit EvNotify else id) (st\<lparr>sp_links := l\<rparr>))
     }"

definition request_step ::
  "host_tree \<Rightarrow> tp_env \<Rightarrow> ef_lib \<Rightarrow> nat option \<Rightarrow> nat \<Rightarrow> nat
     \<Rightarrow> http_sp_connection \<times> ef_buf_chain \<times> sp_state
     \<Rightarrow> ((http_sp_connection \<times> ef_buf_chain \<times> sp_state) \<times> bool) option" where
  "request_step tree te ef efb_ins_head pkt_num token s =
     (case s of (con, out, st) \<Rightarrow>
        if req_state con = HTTP_SP_STATE_INIT \<or> req_state con = HTTP_SP_STATE_INIT_DATA then do {
          (con1, go) \<leftarrow> request_collect ef (sp_links st) efb_ins_head pkt_num con;
          Some ((con1, out, st), go)
        }
        else if req_state con = HTTP_SP_STATE_REQUEST_HEADER then do {
          (con1, st1) \<leftarrow> request_header tree te ef con st;
          Some ((con1, out, st1), True)
        }
        else if req_state con = HTTP_SP_STATE_DONE \<or> req_state con = HTTP_SP_STATE_DATA_LINE then do {
          s1 \<leftarrow> request_forward ef token con out st;
          Some (s1, False)
        }
        else if req_state con = HTTP_SP_STATE_REQUEST_HEADER_ERROR then do {
          (con1, out1, st1) \<leftarrow> request_forward ef token con out st;
          Some ((con1\<lparr>parse_req_pos := 0, con_url := None\<rparr>, out1, st1), False)
        }
        else Some (s, False))"

partial_function (option) request_loop ::
  "host_tree \<Rightarrow> tp_env \<Rightarrow> ef_lib \<Rightarrow> nat option \<Rightarrow> nat \<Rightarrow> nat
     \<Rightarrow> http_sp_connection \<times> ef_buf_chain \<times> sp_state
     \<Rightarrow> (http_sp_connection \<times> ef_buf_chain \<times> sp_state) option" where
  "request_loop tree te ef efb_ins_head pkt_num token s =
     do {
       (s1, go) \<leftarrow> request_step tree te ef efb_ins_head pkt_num token s;
       if go then request_loop tree te ef efb_ins_head pkt_num token s1 else Some s1
     }"

text \<open>The result is the connection, the chain of packets to hand on, and the state.\<close>

definition ngx_http_snooping_request_parse ::
  "host_tree \<Rightarrow> tp_env \<Rightarrow> ef_lib \<Rightarrow> http_sp_connection \<Rightarrow> ef_buf_chain \<Rightarrow> nat \<Rightarrow> sp_state
     \<Rightarrow> (http_sp_connection \<times> ef_buf_chain \<times> sp_state) option" where
  "ngx_http_snooping_request_parse tree te ef con efb_chain token st =
     (let (l, chain) = ef_buf_chain2chain ef (sp_links st) (request_pkt_chain con) efb_chain;
          con1 = con\<lparr>req_rec_pkt := req_rec_pkt con + of_nat (chain_count efb_chain), request_pkt_chain := chain\<rparr>;
          st1 = st\<lparr>sp_links := l\<rparr> in
      if chain_count chain = 0 \<or> token = 0 then Some (con1, ef_buf_init_chain ef, st1)
      else do {
        (con2, out, st2) \<leftarrow> request_loop tree te ef (chain_head efb_chain) (chain_count efb_chain) token
                              (con1, ef_buf_init_chain ef, st1);
        Some (con2\<lparr>req_snd_pkt := req_snd_pkt con2 + of_nat (chain_count out)\<rparr>, out, st2)
      })"

section \<open>Copying a response into data buffers\<close>

text \<open>The successor of a buffer in the list of a node; behind the last one the pointer is the list head,
  which is no buffer.\<close>

fun next_buf :: "nat list \<Rightarrow> nat \<Rightarrow> nat option" where
  "next_buf [] b = None"
| "next_buf (x # xs) b = (if x = b then (case xs of [] \<Rightarrow> None | y # _ \<Rightarrow> Some y) else next_buf xs b)"

fun alloc_bufs :: "nat \<Rightarrow> http_snooping_ctx \<Rightarrow> nat \<Rightarrow> http_snooping_ctx option" where
  "alloc_bufs 0 ctx n = Some ctx"
| "alloc_bufs (Suc k) ctx n =
     (case data_buf_free_list ctx of
        [] \<Rightarrow> None
      | b # bs \<Rightarrow>
          alloc_bufs k
            (upd_url (ctx\<lparr>data_buf_free_list := bs,
                          data_buf := (data_buf ctx)(b := (data_buf ctx b)\<lparr>buf_len := 0\<rparr>)\<rparr>) n
               (\<lambda>v. v\<lparr>data_buf_list := data_buf_list v @ [b]\<rparr>)) n)"

definition ngx_http_snooping_cache_buf_alloc ::
  "http_snooping_ctx \<Rightarrow> nat \<Rightarrow> nat \<Rightarrow> http_snooping_ctx option" where
  "ngx_http_snooping_cache_buf_alloc ctx dlen n =
     (let need = (dlen + HTTP_SP_BUF_LEN_MAX - 1) div HTTP_SP_BUF_LEN_MAX;
          ctx1 = upd_url ctx n (\<lambda>v. v\<lparr>data_buf_list := []\<rparr>) in
      if unat (buf_num ctx1) \<ge> need then do {
        ctx2 \<leftarrow> alloc_bufs need ctx1 n;
        let cur = (case data_buf_list (url_base ctx2 n) of [] \<Rightarrow> None | b # _ \<Rightarrow> Some b);
        Some (upd_url (ctx2\<lparr>buf_num := buf_num ctx2 - of_nat need\<rparr>) n (\<lambda>v. v\<lparr>url_data_current := cur\<rparr>))
      }
      else Some ctx1)"

text \<open>Writing bytes into the current buffer of a node.\<close>

definition buf_put :: "http_snooping_ctx \<Rightarrow> nat \<Rightarrow> cstr \<Rightarrow> http_snooping_ctx option" where
  "buf_put ctx b s =
     do {
       d \<leftarrow> mem_write (buf_data (data_buf ctx b)) (buf_len (data_buf ctx b)) s;
       Some (ctx\<lparr>data_buf := (data_buf ctx)(b := \<lparr>buf_len = buf_len (data_buf ctx b) + length s, buf_data = d\<rparr>)\<rparr>)
     }"

definition buf_advance :: "http_snooping_ctx \<Rightarrow> nat \<Rightarrow> nat \<Rightarrow> http_snooping_ctx" where
  "buf_advance ctx n b = upd_url ctx n (\<lambda>v. v\<lparr>url_data_current := next_buf (data_buf_list v) b\<rparr>)"

partial_function (option) copy_body :: "http_snooping_ctx \<Rightarrow> nat \<Rightarrow> cstr \<Rightarrow> http_snooping_ctx option" where
  "copy_body ctx n s =
     (if s = [] then Some ctx
      else do {
        b \<leftarrow> url_data_current (url_base ctx n);
        let room = HTTP_SP_BUF_LEN_MAX - buf_len (data_buf ctx b);
        if length s > room then do {
          ctx1 \<leftarrow> buf_put ctx b (take room s);
          copy_body (buf_advance ctx1 n b) n (drop room s)
        }
        else do {
          ctx1 \<leftarrow> buf_put ctx b s;
          Some (if buf_len (data_buf ctx1 b) = HTTP_SP_BUF_LEN_MAX then buf_advance ctx1 n b else ctx1)
        }
      })"

text \<open>The part of a packet that belongs to the body, when \<open>len\<close> bytes of the response came before.\<close>

definition body_part :: "int \<Rightarrow> nat \<Rightarrow> cstr \<Rightarrow> cstr" where
  "body_part len hdr d =
     (if len \<le> int hdr then (if len + int (length d) > int hdr then drop (nat (int hdr - len)) d else []) else d)"

text \<open>The loop over the packets; it follows the links to the end, whatever the count of the chain is.\<close>

partial_function (option) cache_pkts ::
  "ef_lib \<Rightarrow> links \<Rightarrow> nat \<Rightarrow> bool \<Rightarrow> nat \<Rightarrow> nat option \<Rightarrow> http_snooping_ctx \<Rightarrow> http_snooping_ctx option" where
  "cache_pkts ef l hdr alloc n efb ctx =
     (case efb of
        None \<Rightarrow> Some ctx
      | Some p \<Rightarrow> do {
          let d = tcp_data_get ef p;
          ctx1 \<leftarrow> (if alloc then copy_body ctx n (body_part (url_data_len (url_base ctx n)) hdr d) else Some ctx);
          cache_pkts ef l hdr alloc n (l p)
            (upd_url ctx1 n (\<lambda>v. v\<lparr>url_data_len := url_data_len v + int (length d)\<rparr>))
        })"

text \<open>The allocation when the first data of a response arrive.\<close>

definition cache_buf_start :: "http_sp_connection \<Rightarrow> nat \<Rightarrow> http_snooping_ctx \<Rightarrow> http_snooping_ctx option" where
  "cache_buf_start con n ctx =
     (if data_start (url_base ctx n) = 0 then do {
        let ctx1 = upd_url ctx n (\<lambda>v. v\<lparr>data_start := 1\<rparr>);
        r \<leftarrow> pcache_rule (url_base ctx1 n);
        if cache_flg r AND HTTP_CACHE_URL_SP_WRITE \<noteq> 0 then do {
          ctx2 \<leftarrow> ngx_http_snooping_cache_buf_alloc ctx1 (nat (data_len con)) n;
          Some (if data_buf_list (url_base ctx2 n) \<noteq> []
                then upd_url ctx2 n (set_flg HTTP_SNOOPING_FLG_CACHE_BUF_ALLOC) else ctx2)
        }
        else Some ctx1
      }
      else Some ctx)"

definition ngx_http_snooping_cache_buf ::
  "ef_lib \<Rightarrow> links \<Rightarrow> http_sp_connection \<Rightarrow> ef_buf_chain \<Rightarrow> http_snooping_ctx
     \<Rightarrow> (http_sp_connection \<times> http_snooping_ctx) option" where
  "ngx_http_snooping_cache_buf ef l con efb_chain ctx =
     do {
       n \<leftarrow> con_url con;
       if trans_encoding_type con \<noteq> 0 then Some (con, ctx)
       else if url_res_len (url_base ctx n) \<le> 0 then Some (con, ctx)
       else if chain_count efb_chain = 0 then Some (con, ctx)
       else do {
         ctx1 \<leftarrow> cache_buf_start con n ctx;
         ctx2 \<leftarrow> cache_pkts ef l (response_header_len con)
                   (has_flg HTTP_SNOOPING_FLG_CACHE_BUF_ALLOC (url_base ctx1 n)) n (chain_head efb_chain) ctx1;
         Some (if url_data_len (url_base ctx2 n) \<ge> data_len con + int (response_header_len con)
               then (con\<lparr>res_state := HTTP_SP_STATE_DONE\<rparr>,
                     upd_url ctx2 n (\<lambda>v. v\<lparr>url_data_len := url_data_len v - int (response_header_len con)\<rparr>))
               else (con, ctx2))
       }
     }"

section \<open>Responses\<close>

abbreviation res_error :: "http_sp_connection \<Rightarrow> http_sp_connection" where
  "res_error con \<equiv> con\<lparr>res_state := HTTP_SP_STATE_REQUEST_HEADER_ERROR\<rparr>"

definition response_collect ::
  "ef_lib \<Rightarrow> links \<Rightarrow> nat option \<Rightarrow> nat \<Rightarrow> http_sp_connection \<Rightarrow> (http_sp_connection \<times> bool) option" where
  "response_collect ef l efb_ins_head pkt_num con =
     do {
       let con1 = (if res_state con = HTTP_SP_STATE_INIT
                   then con\<lparr>parse_res_pos := 0, parse_req_pos := 0, rec_req_data_len := 0, req_data_len := 0,
                            req_state := HTTP_SP_STATE_INIT\<rparr> else con);
       (b1, pos) \<leftarrow> collect ef l HTTP_SP_RES_HEAD_LEN_MAX pkt_num efb_ins_head
                      (current_response_header_buf con1) (parse_res_pos con1);
       b2 \<leftarrow> wr b1 pos NUL;
       let con2 = con1\<lparr>current_response_header_buf := b2, parse_res_pos := pos\<rparr>;
       s \<leftarrow> str_at b2 0;
       Some (case c_strstr s http_end of
               None \<Rightarrow>
                 if pos \<ge> HTTP_SP_RES_HEAD_LEN_MAX - 1 then (res_error con2, True)
                 else (con2\<lparr>res_state := HTTP_SP_STATE_INIT_DATA\<rparr>, False)
             | Some n \<Rightarrow> (con2\<lparr>res_state := HTTP_SP_STATE_REQUEST_HEADER,
                               response_header_len := n + length http_end\<rparr>, True))
     }"

text \<open>The three parts of the header. The second component is false after an error. The status:\<close>

definition response_status_parse :: "http_sp_connection \<Rightarrow> (http_sp_connection \<times> bool) option" where
  "response_status_parse con =
     (let b = current_response_header_buf con in
      do {
        s0 \<leftarrow> str_at b 0;
        case str_index (CHR '' '') s0 of
          None \<Rightarrow> Some (res_error con, False)
        | Some n0 \<Rightarrow>
            let con1 = con\<lparr>response_status := (n0 + 1, snd (response_status con))\<rparr> in
            do {
              s1 \<leftarrow> str_at b (n0 + 1);
              case str_index (CHR '' '') s1 of
                None \<Rightarrow> Some (res_error con1, False)
              | Some n1 \<Rightarrow>
                  let con2 = con1\<lparr>response_status := (n0 + 1, n1)\<rparr> in
                  Some (if take 3 s1 \<noteq> ''200'' then (res_error con2, False) else (con2, True))
            }
      })"

text \<open>The content type, cut at a semicolon:\<close>

definition cut_content_type :: "cstr \<Rightarrow> nat" where
  "cut_content_type s = (case str_index (CHR '';'') (drop 1 s) of None \<Rightarrow> length s | Some j \<Rightarrow> j)"

definition response_type_parse ::
  "tp_env \<Rightarrow> http_sp_connection \<Rightarrow> nat \<Rightarrow> http_snooping_ctx
     \<Rightarrow> (http_sp_connection \<times> http_snooping_ctx \<times> bool) option" where
  "response_type_parse te con n ctx =
     (let b = current_response_header_buf con in
      do {
        s0 \<leftarrow> str_at b 0;
        case c_strstr s0 http_content_type of
          None \<Rightarrow> Some (res_error con, ctx, False)
        | Some n0 \<Rightarrow>
            let o1 = n0 + length http_content_type; con1 = con\<lparr>content_type := (o1, snd (content_type con))\<rparr> in
            do {
              s1 \<leftarrow> str_at b o1;
              case c_strstr s1 http_new_line of
                None \<Rightarrow> Some (res_error con1, ctx, False)
              | Some n1 \<Rightarrow>
                  let len = cut_content_type (take n1 s1); con2 = con1\<lparr>content_type := (o1, len)\<rparr> in
                  Some (con2,
                        if post_fix con2 \<noteq> 0
                        then upd_url ctx n (\<lambda>v. v\<lparr>node_mime :=
                               ngx_http_url_mime_type (tp_str_addr te) (tp_mime_tree te) (take len s1)\<rparr>)
                        else ctx, True)
            }
      })"

text \<open>The length of the body:\<close>

definition response_len_parse ::
  "http_sp_connection \<Rightarrow> nat \<Rightarrow> http_snooping_ctx \<Rightarrow> (http_sp_connection \<times> http_snooping_ctx \<times> bool) option" where
  "response_len_parse con n ctx =
     (let b = current_response_header_buf con in
      do {
        s0 \<leftarrow> str_at b 0;
        case c_strstr s0 http_trans_encoding_type_chunked of
          Some _ \<Rightarrow> Some (con\<lparr>trans_encoding_type := 1\<rparr>, ctx, True)
        | None \<Rightarrow>
            let con0 = con\<lparr>trans_encoding_type := 0\<rparr> in
            (case c_strstr s0 http_content_len of
               None \<Rightarrow> Some (res_error con0, ctx, False)
             | Some n0 \<Rightarrow>
                 let o1 = n0 + length http_content_len; con1 = con0\<lparr>content_len := (o1, snd (content_len con))\<rparr> in
                 do {
                   s1 \<leftarrow> str_at b o1;
                   case c_strstr s1 http_new_line of
                     None \<Rightarrow> Some (res_error con1, ctx, False)
                   | Some n1 \<Rightarrow>
                       let con2 = con1\<lparr>content_len := (o1, n1)\<rparr>; v = ngx_atoi (take n1 s1) in
                       Some (if n1 > 20 then (res_error con2, ctx, False)
                             else if v = -1 then (res_error (con2\<lparr>data_len := 0\<rparr>), ctx, False)
                             else (con2\<lparr>data_len := v\<rparr>, upd_url ctx n (\<lambda>u. u\<lparr>url_res_len := v\<rparr>), True))
                 })
      })"

text \<open>The encoding of the body:\<close>

definition response_encoding_parse :: "http_sp_connection \<Rightarrow> u8 option" where
  "response_encoding_parse con =
     do {
       s0 \<leftarrow> str_at (current_response_header_buf con) 0;
       Some (case c_strstr s0 http_content_encoding_type of
               None \<Rightarrow> HTTP_ECODING_TYPE_NONE
             | Some n0 \<Rightarrow>
                 if take 4 (drop (n0 + length http_content_encoding_type) s0) = ''gzip''
                 then HTTP_ECODING_TYPE_GZIP else HTTP_ECODING_TYPE_DEFLATE)
     }"

definition response_header ::
  "tp_env \<Rightarrow> http_sp_connection \<Rightarrow> nat \<Rightarrow> http_snooping_ctx \<Rightarrow> (http_sp_connection \<times> http_snooping_ctx) option" where
  "response_header te con n ctx =
     do {
       (con1, ok1) \<leftarrow> response_status_parse con;
       if \<not> ok1 then Some (con1, ctx)
       else do {
         (con2, ctx2, ok2) \<leftarrow> response_type_parse te con1 n ctx;
         if \<not> ok2 then Some (con2, ctx2)
         else do {
           (con3, ctx3, ok3) \<leftarrow> response_len_parse con2 n ctx2;
           if \<not> ok3 then Some (con3, ctx3)
           else do {
             enc \<leftarrow> response_encoding_parse con3;
             Some (con3\<lparr>encoding_type := enc, res_state := HTTP_SP_STATE_DATA_LINE\<rparr>,
                   upd_url ctx3 n (\<lambda>v. set_flg HTTP_SNOOPING_FLG_RES_LFB
                     (v\<lparr>data_start := 0, url_encoding := enc, url_data_len := 0\<rparr>)))
           }
         }
       }
     }"

definition response_forward ::
  "ef_lib \<Rightarrow> nat \<Rightarrow> http_sp_connection \<Rightarrow> ef_buf_chain \<Rightarrow> sp_state
     \<Rightarrow> (http_sp_connection \<times> ef_buf_chain \<times> sp_state) option" where
  "response_forward ef token con out st =
     do {
       (l, out1, src) \<leftarrow> ngx_http_ef_getn ef (sp_links st) out (response_pkt_chain con) token;
       Some (con\<lparr>response_pkt_chain := src\<rparr>, out1,
             (if chain_count src \<noteq> 0 then emit EvNotify else id) (st\<lparr>sp_links := l\<rparr>))
     }"

definition response_step ::
  "tp_env \<Rightarrow> ef_lib \<Rightarrow> nat option \<Rightarrow> nat \<Rightarrow> nat \<Rightarrow> nat
     \<Rightarrow> http_sp_connection \<times> ef_buf_chain \<times> sp_state
     \<Rightarrow> ((http_sp_connection \<times> ef_buf_chain \<times> sp_state) \<times> bool) option" where
  "response_step te ef efb_ins_head pkt_num token n s =
     (case s of (con, out, st) \<Rightarrow>
        if res_state con = HTTP_SP_STATE_INIT \<or> res_state con = HTTP_SP_STATE_INIT_DATA then do {
          (con1, go) \<leftarrow> response_collect ef (sp_links st) efb_ins_head pkt_num con;
          Some ((con1, out, st), go)
        }
        else if res_state con = HTTP_SP_STATE_REQUEST_HEADER then do {
          (con1, ctx1) \<leftarrow> response_header te con n (sp_ctx st);
          Some ((con1, out, st\<lparr>sp_ctx := ctx1\<rparr>), True)
        }
        else if res_state con = HTTP_SP_STATE_DONE then
          Some ((con, out, st\<lparr>sp_ctx := upd_url (sp_ctx st) n (set_flg HTTP_SNOOPING_FLG_RES_CACHE)\<rparr>), False)
        else if res_state con = HTTP_SP_STATE_DATA_LINE then do {
          (l, out1, src) \<leftarrow> ngx_http_ef_getn ef (sp_links st) out (response_pkt_chain con) token;
          (con1, ctx1) \<leftarrow> ngx_http_snooping_cache_buf ef l (con\<lparr>response_pkt_chain := src\<rparr>) out1 (sp_ctx st);
          Some ((con1, out1,
                 (if chain_count src \<noteq> 0 then emit EvNotify else id) (st\<lparr>sp_links := l, sp_ctx := ctx1\<rparr>)),
                res_state con1 \<noteq> HTTP_SP_STATE_DATA_LINE)
        }
        else do {
          (con1, out1, st1) \<leftarrow> response_forward ef token con out st;
          Some ((if res_state con = HTTP_SP_STATE_REQUEST_HEADER_ERROR then con1\<lparr>parse_res_pos := 0\<rparr> else con1,
                 out1, st1), False)
        })"

partial_function (option) response_loop ::
  "tp_env \<Rightarrow> ef_lib \<Rightarrow> nat option \<Rightarrow> nat \<Rightarrow> nat \<Rightarrow> nat
     \<Rightarrow> http_sp_connection \<times> ef_buf_chain \<times> sp_state
     \<Rightarrow> (http_sp_connection \<times> ef_buf_chain \<times> sp_state) option" where
  "response_loop te ef efb_ins_head pkt_num token n s =
     do {
       (s1, go) \<leftarrow> response_step te ef efb_ins_head pkt_num token n s;
       if go then response_loop te ef efb_ins_head pkt_num token n s1 else Some s1
     }"

text \<open>The end of the function: the response of a URL that is saved and whose connection is to be closed is
  not handed on.\<close>

definition response_drop ::
  "ef_lib \<Rightarrow> nat \<Rightarrow> ef_buf_chain \<Rightarrow> sp_state \<Rightarrow> ef_buf_chain \<times> sp_state" where
  "response_drop ef n out st =
     (case pcache_rule (url_base (sp_ctx st) n) of
        None \<Rightarrow> (out, st)
      | Some r \<Rightarrow>
          if HTTP_CACHE_URL_CON_CLOSE AND cache_flg r \<noteq> 0 \<and> chain_count out \<noteq> 0
             \<and> has_flg HTTP_SNOOPING_FLG_RES_WRITE (url_base (sp_ctx st) n)
          then (ef_buf_init_chain ef, emit (EvFree out) st) else (out, st))"

definition ngx_http_snooping_response_parse ::
  "tp_env \<Rightarrow> ef_lib \<Rightarrow> http_sp_connection \<Rightarrow> ef_buf_chain \<Rightarrow> nat \<Rightarrow> sp_state
     \<Rightarrow> (http_sp_connection \<times> ef_buf_chain \<times> sp_state) option" where
  "ngx_http_snooping_response_parse te ef con efb_chain token st =
     (let (l, chain) = ef_buf_chain2chain ef (sp_links st) (response_pkt_chain con) efb_chain;
          con1 = con\<lparr>res_rec_pkt := res_rec_pkt con + of_nat (chain_count efb_chain), response_pkt_chain := chain\<rparr>;
          st1 = st\<lparr>sp_links := l\<rparr>; out = ef_buf_init_chain ef in
      if chain_count chain = 0 \<or> token = 0 then Some (con1, out, st1)
      else if con_url con1 = None \<or> req_state con1 = HTTP_SP_STATE_REQUEST_HEADER_ERROR then do {
        (con2, out2, st2) \<leftarrow> response_forward ef token con1 out st1;
        Some (con2\<lparr>res_snd_pkt := res_snd_pkt con2 + of_nat (chain_count out2),
                   req_state := HTTP_SP_STATE_INIT, parse_req_pos := 0\<rparr>, out2, st2)
      }
      else do {
        n \<leftarrow> con_url con1;
        (con2, out2, st2) \<leftarrow> response_loop te ef (chain_head efb_chain) (chain_count efb_chain) token n (con1, out, st1);
        let (out3, st3) = response_drop ef n out2 st2;
        Some (con2\<lparr>res_snd_pkt := res_snd_pkt con2 + of_nat (chain_count out2)\<rparr>, out3, st3)
      })"

section \<open>The pool of connections\<close>

datatype wan_ta_app = WAN_TA_APP_NONE | WAN_TA_APP_HTTP_SNOOPING | WAN_TA_APP_OTHER

datatype wan_ta_match = WAN_TA_APP_MATCH | WAN_TA_APP_NOT_MATCH

text \<open>The fields of the proxy's control block that the code uses; \<open>pair\<close> is the block of the other side,
  \<open>src_intf_ipaddr\<close> the address of the interface.\<close>

record tcp_proxy_cb =
  in_addr_dst :: u32
  in_addr_src :: u32
  in_port_dst :: u16
  in_port_src :: u16
  src_intf_ipaddr :: u32
  pair :: nat
  wan_ta_app_type :: wan_ta_app
  wan_ta_app_cb :: "nat option"

record con_pool =
  con_base :: "nat \<Rightarrow> http_sp_connection"
  con_num :: u16
  con_free_list :: "nat list"
  con_use_list :: "nat list"
  tps :: "nat \<Rightarrow> tcp_proxy_cb"

definition con_max :: nat where
  "con_max = 2048"

definition upd_tp :: "con_pool \<Rightarrow> nat \<Rightarrow> (tcp_proxy_cb \<Rightarrow> tcp_proxy_cb) \<Rightarrow> con_pool" where
  "upd_tp p t f = p\<lparr>tps := (tps p)(t := f (tps p t))\<rparr>"

definition con_start :: "ef_lib \<Rightarrow> nat \<Rightarrow> tcp_proxy_cb \<Rightarrow> http_sp_connection \<Rightarrow> http_sp_connection" where
  "con_start ef t tp con =
     con\<lparr>con_flags := HTTP_SNOOPING_FLG_RES, wan_ta_client_tp := Some t,
         server_addr := in_addr_dst tp, client_addr := in_addr_src tp,
         server_port := in_port_dst tp, client_port := in_port_src tp,
         req_method := HTTP_SP_METHOD_NONE, req_state := HTTP_SP_STATE_INIT, res_state := HTTP_SP_STATE_INIT,
         parse_req_pos := 0, parse_res_pos := 0, rec_req_data_len := 0, rec_res_data_len := 0,
         req_rec_pkt := 0, req_snd_pkt := 0, res_rec_pkt := 0, res_snd_pkt := 0, con_url := None,
         local_server_addr := src_intf_ipaddr tp,
         request_pkt_chain := ef_buf_init_chain ef, response_pkt_chain := ef_buf_init_chain ef\<rparr>"

definition ngx_http_snooping_create ::
  "ef_lib \<Rightarrow> u32 \<Rightarrow> con_pool \<Rightarrow> nat \<Rightarrow> (wan_ta_match \<times> con_pool) option" where
  "ngx_http_snooping_create ef server p t =
     (let tp = tps p t in
      if in_addr_dst tp = server then Some (WAN_TA_APP_NOT_MATCH, p)
      else if in_port_dst tp = 8080 \<or> in_port_dst tp = 80 then
        (if unat (con_num p) < con_max then
           (case con_free_list p of
              [] \<Rightarrow> None
            | c # cs \<Rightarrow>
                let p1 = p\<lparr>con_free_list := cs, con_num := con_num p + 1, con_use_list := c # con_use_list p,
                           con_base := (con_base p)(c := con_start ef t tp (con_base p c))\<rparr>;
                    bind_tp = (\<lambda>x. x\<lparr>wan_ta_app_cb := Some c, wan_ta_app_type := WAN_TA_APP_HTTP_SNOOPING\<rparr>) in
                Some (WAN_TA_APP_MATCH, upd_tp (upd_tp p1 t bind_tp) (pair tp) bind_tp))
         else
           let none = (\<lambda>x. x\<lparr>wan_ta_app_type := WAN_TA_APP_NONE\<rparr>) in
           Some (WAN_TA_APP_MATCH, upd_tp (upd_tp p t none) (pair tp) none))
      else Some (WAN_TA_APP_NOT_MATCH, p))"

text \<open>Freeing a chain that is not empty.\<close>

definition free_chain :: "ef_buf_chain \<Rightarrow> sp_state \<Rightarrow> sp_state" where
  "free_chain c st = (if chain_count c > 0 then emit (EvFree c) st else st)"

definition con_release :: "ef_lib \<Rightarrow> con_pool \<Rightarrow> nat \<Rightarrow> sp_state \<Rightarrow> con_pool \<times> sp_state" where
  "con_release ef p c st =
     (let con = con_base p c;
          st1 = (case con_url con of
                   None \<Rightarrow> st
                 | Some n \<Rightarrow> st\<lparr>sp_ctx := upd_url (sp_ctx st) n (set_flg HTTP_SNOOPING_FLG_RES_CACHE)\<rparr>);
          st2 = free_chain (response_pkt_chain con) (free_chain (request_pkt_chain con) st1);
          con1 = con\<lparr>con_url := None, con_flags := 0,
                     request_pkt_chain := (if chain_count (request_pkt_chain con) > 0 then ef_buf_init_chain ef
                                           else request_pkt_chain con),
                     response_pkt_chain := (if chain_count (response_pkt_chain con) > 0 then ef_buf_init_chain ef
                                            else response_pkt_chain con)\<rparr> in
      (p\<lparr>con_base := (con_base p)(c := con1), con_use_list := remove1 c (con_use_list p),
         con_free_list := c # con_free_list p, con_num := con_num p - 1\<rparr>, st2))"

definition ngx_http_snooping_shut ::
  "ef_lib \<Rightarrow> con_pool \<Rightarrow> nat \<Rightarrow> sp_state \<Rightarrow> (con_pool \<times> sp_state) option" where
  "ngx_http_snooping_shut ef p t st =
     (let tp = tps p t in
      if wan_ta_app_type tp = WAN_TA_APP_HTTP_SNOOPING then
        let p1 = upd_tp p t (\<lambda>x. x\<lparr>wan_ta_app_type := WAN_TA_APP_NONE, wan_ta_app_cb := None\<rparr>) in
        if wan_ta_app_type (tps p1 (pair tp)) = WAN_TA_APP_NONE then do {
          c \<leftarrow> wan_ta_app_cb tp;
          Some (if con_flags (con_base p1 c) AND HTTP_SNOOPING_FLG_RES \<noteq> 0 then con_release ef p1 c st
                else (p1, st))
        }
        else Some (p1, st)
      else Some (p, st))"

definition ngx_http_get_request_pkt_chain :: "con_pool \<Rightarrow> nat \<Rightarrow> nat option" where
  "ngx_http_get_request_pkt_chain p t =
     map_option (\<lambda>c. chain_count (request_pkt_chain (con_base p c))) (wan_ta_app_cb (tps p t))"

definition ngx_http_get_response_pkt_chain :: "con_pool \<Rightarrow> nat \<Rightarrow> nat option" where
  "ngx_http_get_response_pkt_chain p t =
     map_option (\<lambda>c. chain_count (response_pkt_chain (con_base p c))) (wan_ta_app_cb (tps p t))"

definition ngx_http_get_con_pkt :: "con_pool \<Rightarrow> nat \<Rightarrow> u32 list option" where
  "ngx_http_get_con_pkt p t =
     map_option (\<lambda>c. let con = con_base p c in [req_rec_pkt con, req_snd_pkt con, res_rec_pkt con, res_snd_pkt con])
       (wan_ta_app_cb (tps p t))"

text \<open>The packets received are put into a chain one by one, along their links.\<close>

partial_function (option) chain_up ::
  "ef_lib \<Rightarrow> links \<Rightarrow> ef_buf_chain \<Rightarrow> nat option \<Rightarrow> (links \<times> ef_buf_chain) option" where
  "chain_up ef l c efb =
     (if efb = None then Some (l, c)
      else do {
        p \<leftarrow> efb;
        (l1, c1) \<leftarrow> Some (ef_buf_efb_to_chain ef l c p);
        chain_up ef l1 c1 (l1 p)
      })"

definition ngx_http_snooping_data ::
  "host_tree \<Rightarrow> tp_env \<Rightarrow> ef_lib \<Rightarrow> (sp_event list \<Rightarrow> nat) \<Rightarrow> (sp_event list \<Rightarrow> nat \<Rightarrow> nat option)
     \<Rightarrow> con_pool \<Rightarrow> nat \<Rightarrow> sp_state \<Rightarrow> (con_pool \<times> sp_state) option" where
  "ngx_http_snooping_data tree te ef pair_free_space recvmsg p t st =
     do {
       let token = pair_free_space (sp_events st);
       (l, pkt_chain) \<leftarrow> chain_up ef (sp_links st) (ef_buf_init_chain ef) (recvmsg (sp_events st) token);
       c \<leftarrow> wan_ta_app_cb (tps p t);
       let st1 = st\<lparr>sp_links := l\<rparr>;
       (con, out, st2) \<leftarrow>
         (if wan_ta_client_tp (con_base p c) = Some t
          then ngx_http_snooping_request_parse tree te ef (con_base p c) pkt_chain token st1
          else ngx_http_snooping_response_parse te ef (con_base p c) pkt_chain token st1);
       let p1 = p\<lparr>con_base := (con_base p)(c := con)\<rparr>;
       if chain_count out \<noteq> 0 then do {
         tl \<leftarrow> chain_tail out;
         Some (p1, emit (EvForward (chain_head out)) (st2\<lparr>sp_links := (sp_links st2)(tl := None)\<rparr>))
       }
       else Some (p1, st2)
     }"

text \<open>The pool after \<open>ngx_http_snooping_init\<close>: the memory of the connections is cleared.\<close>

definition chain0 :: ef_buf_chain where
  "chain0 = \<lparr>chain_head = None, chain_tail = None, chain_count = 0\<rparr>"

definition con0 :: http_sp_connection where
  "con0 = \<lparr>con_flags = 0, server_addr = 0, client_addr = 0, server_port = 0, client_port = 0,
     local_server_addr = 0, req_method = 0, req_state = 0, res_state = 0, encoding_type = 0,
     trans_encoding_type = 0, post_fix = 0, server_name = (0, 0), res_url = (0, 0),
     request_pkt_chain = chain0, response_pkt_chain = chain0, req_data_len = 0, rec_req_data_len = 0,
     rec_res_data_len = 0, response_status = (0, 0), content_type = (0, 0), content_len = (0, 0),
     response_header_len = 0, request_header_len = 0, data_len = 0, parse_req_pos = 0, parse_res_pos = 0,
     wan_ta_client_tp = None, con_url = None, req_rec_pkt = 0, req_snd_pkt = 0, res_rec_pkt = 0,
     res_snd_pkt = 0, current_request_header_buf = replicate HTTP_SP_REQ_HEAD_LEN_MAX NUL,
     current_response_header_buf = replicate HTTP_SP_RES_HEAD_LEN_MAX NUL\<rparr>"

definition con_pool_init :: "(nat \<Rightarrow> tcp_proxy_cb) \<Rightarrow> con_pool" where
  "con_pool_init tp =
     \<lparr>con_base = (\<lambda>_. con0), con_num = 0, con_free_list = fold (#) [0..<con_max] [], con_use_list = [], tps = tp\<rparr>"

section \<open>Gathering a header\<close>

text \<open>The packets that a chain of \<open>k\<close> packets holds, along the links.\<close>

fun pkts :: "links \<Rightarrow> nat \<Rightarrow> nat option \<Rightarrow> nat list option" where
  "pkts l 0 efb = Some []"
| "pkts l (Suc k) efb = do { p \<leftarrow> efb; ps \<leftarrow> pkts l k (l p); Some (p # ps) }"

abbreviation payload :: "ef_lib \<Rightarrow> nat list \<Rightarrow> cstr" where
  "payload ef ps \<equiv> concat (map (tcp_data_get ef) ps)"

lemma mem_write_sl:
  assumes "off + length s \<le> length b"
  shows "\<exists>b'. mem_write b off s = Some b' \<and> length b' = length b \<and> sl b' 0 (off + length s) = sl b 0 off @ s"
  using assms by (auto simp: mem_write_def sl_def)

lemma collect_spec:
  assumes "pkts l k efb = Some ps" "length b = mx" "pos \<le> mx - 1" "0 < mx"
  shows "\<exists>b'. collect ef l mx k efb b pos = Some (b', min (mx - 1) (pos + length (payload ef ps)))
    \<and> length b' = mx
    \<and> sl b' 0 (min (mx - 1) (pos + length (payload ef ps))) = sl b 0 pos @ take (mx - 1 - pos) (payload ef ps)"
  using assms
proof (induction k arbitrary: efb ps b pos)
  case (Suc k)
  obtain p ps' where p: "efb = Some p" "pkts l k (l p) = Some ps'" "ps = p # ps'"
    using Suc.prems(1) by (auto split: bind_splits)
  define d where "d = tcp_data_get ef p"
  show ?case
  proof (cases "length d + pos > mx - 1")
    case True
    have "pos + length (take (mx - 1 - pos) d) = mx - 1" using True Suc.prems by simp
    with mem_write_sl [of pos "take (mx - 1 - pos) d" b] Suc.prems
    obtain b' where "mem_write b pos (take (mx - 1 - pos) d) = Some b'" "length b' = mx"
      "sl b' 0 (mx - 1) = sl b 0 pos @ take (mx - 1 - pos) d" by (metis diff_le_self)
    then show ?thesis using True p by (simp add: d_def [symmetric] Let_def)
  next
    case False
    then have "pos + length d \<le> length b" using Suc.prems by linarith
    from mem_write_sl [OF this] Suc.prems(2)
    obtain b1 where b1: "mem_write b pos d = Some b1" "length b1 = mx" "sl b1 0 (pos + length d) = sl b 0 pos @ d"
      by auto
    have "pos + length d \<le> mx - 1" using False by simp
    from Suc.IH [OF p(2) b1(2) this Suc.prems(4)] obtain b' where
      "collect ef l mx k (l p) b1 (pos + length d)
        = Some (b', min (mx - 1) (pos + length d + length (payload ef ps')))" "length b' = mx"
      "sl b' 0 (min (mx - 1) (pos + length d + length (payload ef ps')))
        = sl b1 0 (pos + length d) @ take (mx - 1 - (pos + length d)) (payload ef ps')" by blast
    then show ?thesis using False p b1
      by (simp add: d_def [symmetric] Let_def add.assoc)
  qed
qed (simp add: sl_def min_def)

section \<open>The loops of the parsers end\<close>

lemma request_collect_state:
  assumes "request_collect ef l h k con = Some (con', True)"
  shows "req_state con' = HTTP_SP_STATE_REQUEST_HEADER \<or> req_state con' = HTTP_SP_STATE_REQUEST_HEADER_ERROR"
  using assms by (auto simp: request_collect_def Let_def split: bind_splits option.splits if_splits)

lemma drop_request_state [simp]:
  "req_state (fst (drop_request ef con st)) = req_state con"
  by (simp add: drop_request_def)

lemma request_line_state:
  assumes "request_line con = Some (con', None)"
  shows "req_state con' = HTTP_SP_STATE_REQUEST_HEADER_ERROR"
  using assms
  by (auto simp: request_line_def Let_def split: bind_splits option.splits if_splits prod.splits)

lemma request_header_state:
  assumes "request_header tree te ef con st = Some (con', st')"
  shows "req_state con' \<in> {HTTP_SP_STATE_DONE, HTTP_SP_STATE_DATA_LINE, HTTP_SP_STATE_REQUEST_HEADER_ERROR}"
proof -
  obtain con1 off where 1: "request_line con = Some (con1, off)"
    and 2: "(case off of None \<Rightarrow> Some (con1, st) | Some o1 \<Rightarrow>
           if req_method con1 = HTTP_SP_METHOD_GET then request_get tree te ef con1 st
           else do { con2 \<leftarrow> request_body_len con1 o1; Some (con2, st) }) = Some (con', st')"
    using assms by (auto simp: request_header_def split: bind_splits)
  have get: "req_state con' = HTTP_SP_STATE_DONE" if "request_get tree te ef con1 st = Some (con', st')"
    using that by (auto simp: request_get_def Let_def split: bind_splits)
  have body: "req_state con' \<in> {HTTP_SP_STATE_DONE, HTTP_SP_STATE_DATA_LINE, HTTP_SP_STATE_REQUEST_HEADER_ERROR}"
    if "request_body_len con1 o1 = Some con'" for o1
    using that by (auto simp: request_body_len_def Let_def split: bind_splits option.splits if_splits)
  show ?thesis
    using 2 get body request_line_state [of con con1] 1
    by (auto split: option.splits if_splits bind_splits)
qed

text \<open>The loop runs at most three times: gathering, header, handing on.\<close>

definition req_rank :: "http_sp_connection \<Rightarrow> nat" where
  "req_rank con = (if req_state con \<in> {HTTP_SP_STATE_INIT, HTTP_SP_STATE_INIT_DATA} then 2
     else if req_state con = HTTP_SP_STATE_REQUEST_HEADER then 1 else 0)"

lemma request_step_rank:
  assumes "request_step tree te ef h k token (con, out, st) = Some ((con', out', st'), True)"
  shows "req_rank con' < req_rank con"
proof -
  consider (init) "req_state con \<in> {HTTP_SP_STATE_INIT, HTTP_SP_STATE_INIT_DATA}"
    | (header) "req_state con = HTTP_SP_STATE_REQUEST_HEADER"
    | (rest) "req_state con \<notin> {HTTP_SP_STATE_INIT, HTTP_SP_STATE_INIT_DATA, HTTP_SP_STATE_REQUEST_HEADER}" by blast
  then show ?thesis
  proof cases
    case init
    then have "request_collect ef (sp_links st) h k con = Some (con', True)"
      using assms by (auto simp: request_step_def split: bind_splits)
    from request_collect_state [OF this] have "req_rank con' < 2" by (auto simp: req_rank_def http_sp_state_defs)
    then show ?thesis using init by (simp add: req_rank_def)
  next
    case header
    then have "request_header tree te ef con st = Some (con', st')"
      using assms by (auto simp: request_step_def http_sp_state_defs split: bind_splits)
    with request_header_state show ?thesis using header by (fastforce simp: req_rank_def http_sp_state_defs)
  next
    case rest
    then show ?thesis using assms by (auto simp: request_step_def split: bind_splits if_splits)
  qed
qed


interpretation req: ranked_loop "request_step tree te ef h k token" "request_loop tree te ef h k token"
  "\<lambda>(con, out, st). req_rank con"
  by unfold_locales (auto simp: request_step_rank intro: request_loop.simps)

lemma response_collect_state:
  assumes "response_collect ef l h k con = Some (con', True)"
  shows "res_state con' = HTTP_SP_STATE_REQUEST_HEADER \<or> res_state con' = HTTP_SP_STATE_REQUEST_HEADER_ERROR"
  using assms by (auto simp: response_collect_def Let_def split: bind_splits option.splits if_splits)

lemma response_status_state:
  "response_status_parse con = Some (con', False) \<Longrightarrow> res_state con' = HTTP_SP_STATE_REQUEST_HEADER_ERROR"
  by (auto simp: response_status_parse_def Let_def split: bind_splits option.splits if_splits)

lemma response_type_state:
  "response_type_parse te con n ctx = Some (con', ctx', False) \<Longrightarrow> res_state con' = HTTP_SP_STATE_REQUEST_HEADER_ERROR"
  by (auto simp: response_type_parse_def Let_def split: bind_splits option.splits if_splits)

lemma response_len_state:
  "response_len_parse con n ctx = Some (con', ctx', False) \<Longrightarrow> res_state con' = HTTP_SP_STATE_REQUEST_HEADER_ERROR"
  by (auto simp: response_len_parse_def Let_def split: bind_splits option.splits if_splits)

lemma response_header_state:
  assumes "response_header te con n ctx = Some (con', ctx')"
  shows "res_state con' = HTTP_SP_STATE_DATA_LINE \<or> res_state con' = HTTP_SP_STATE_REQUEST_HEADER_ERROR"
  using assms response_status_state response_type_state response_len_state
  by (fastforce simp: response_header_def split: bind_splits if_splits)

lemma cache_buf_state:
  assumes "ngx_http_snooping_cache_buf ef l con chain ctx = Some (con', ctx')"
  shows "con' = con \<or> con' = con\<lparr>res_state := HTTP_SP_STATE_DONE\<rparr>"
  using assms by (auto simp: ngx_http_snooping_cache_buf_def split: bind_splits if_splits)

definition res_rank :: "http_sp_connection \<Rightarrow> nat" where
  "res_rank con = (if res_state con \<in> {HTTP_SP_STATE_INIT, HTTP_SP_STATE_INIT_DATA} then 3
     else if res_state con = HTTP_SP_STATE_REQUEST_HEADER then 2
     else if res_state con = HTTP_SP_STATE_DATA_LINE then 1 else 0)"

lemma response_step_rank:
  assumes "response_step te ef h k token n (con, out, st) = Some ((con', out', st'), True)"
  shows "res_rank con' < res_rank con"
proof -
  consider (init) "res_state con \<in> {HTTP_SP_STATE_INIT, HTTP_SP_STATE_INIT_DATA}"
    | (header) "res_state con = HTTP_SP_STATE_REQUEST_HEADER" | (body) "res_state con = HTTP_SP_STATE_DATA_LINE"
    | (rest) "res_state con \<notin> {HTTP_SP_STATE_INIT, HTTP_SP_STATE_INIT_DATA, HTTP_SP_STATE_REQUEST_HEADER,
        HTTP_SP_STATE_DATA_LINE}" by blast
  then show ?thesis
  proof cases
    case init
    then have "response_collect ef (sp_links st) h k con = Some (con', True)"
      using assms by (auto simp: response_step_def split: bind_splits)
    from response_collect_state [OF this] have "res_rank con' < 3" by (auto simp: res_rank_def http_sp_state_defs)
    then show ?thesis using init by (simp add: res_rank_def)
  next
    case header
    then obtain ctx' where "response_header te con n (sp_ctx st) = Some (con', ctx')"
      using assms by (auto simp: response_step_def http_sp_state_defs split: bind_splits)
    from response_header_state [OF this] show ?thesis using header by (auto simp: res_rank_def http_sp_state_defs)
  next
    case body
    then obtain l con1 ctx1 ctx2 where "ngx_http_snooping_cache_buf ef l con1 out' ctx1 = Some (con', ctx2)"
      "res_state con1 = HTTP_SP_STATE_DATA_LINE" "res_state con' \<noteq> HTTP_SP_STATE_DATA_LINE"
      using assms by (auto simp: response_step_def http_sp_state_defs split: bind_splits)
    from this cache_buf_state [OF this(1)] show ?thesis using body by (auto simp: res_rank_def http_sp_state_defs)
  next
    case rest
    then show ?thesis using assms by (auto simp: response_step_def split: bind_splits if_splits)
  qed
qed

interpretation res: ranked_loop "response_step te ef h k token n" "response_loop te ef h k token n"
  "\<lambda>(con, out, st). res_rank con"
  by unfold_locales (auto simp: response_step_rank intro: response_loop.simps)

end
