(* ===== verification/SnoopKeep.thy ===== *)
theory SnoopKeep
  imports SnoopConn
begin

text \<open>
  Filling the data buffers on the packet path of \<^verbatim>\<open>http-snooping.c\<close> leaves the rest of the URL table alone: an
  interface for properties that do not depend on the buffers, the routines that copy a body under it, and its
  instances, the invariant of the table and the fields that determine the name of a file.
\<close>

section \<open>What filling the data buffers keeps\<close>

text \<open>A property of the URL table that does not depend on the data buffers and on the fields of the nodes that
  describe the data of a response: every routine that copies a body keeps it.\<close>

locale data_kept =
  fixes I :: "http_snooping_ctx \<Rightarrow> bool"
  assumes bufs: "I (ctx\<lparr>data_buf_free_list := l\<rparr>) = I ctx" "I (ctx\<lparr>data_buf := d\<rparr>) = I ctx" "I (ctx\<lparr>buf_num := k\<rparr>) = I ctx"
    and node: "I ctx \<Longrightarrow> I (upd_url ctx n (\<lambda>v. v\<lparr>data_buf_list := g v\<rparr>))"
      "I ctx \<Longrightarrow> I (upd_url ctx n (\<lambda>v. v\<lparr>url_data_current := h v\<rparr>))"
      "I ctx \<Longrightarrow> I (upd_url ctx n (\<lambda>v. v\<lparr>url_data_len := j v\<rparr>))"
      "I ctx \<Longrightarrow> I (upd_url ctx n (\<lambda>v. v\<lparr>data_start := x\<rparr>))"
      "I ctx \<Longrightarrow> I (upd_url ctx n (set_flg HTTP_SNOOPING_FLG_CACHE_BUF_ALLOC))"
begin

lemma alloc_bufs_inv: "I ctx \<Longrightarrow> alloc_bufs k ctx n = Some ctx' \<Longrightarrow> I ctx'"
proof (induction k arbitrary: ctx)
  case (Suc k)
  then obtain b bs where f: "data_buf_free_list ctx = b # bs" by (auto split: list.splits)
  show ?case
    by (rule Suc.IH [OF node(1) Suc.prems(2) [unfolded alloc_bufs.simps f list.case]])
      (simp add: bufs Suc.prems(1))
qed simp

lemma cache_buf_alloc_inv:
  "I ctx \<Longrightarrow> ngx_http_snooping_cache_buf_alloc ctx len n = Some ctx' \<Longrightarrow> I ctx'"
  by (auto simp: bufs ngx_http_snooping_cache_buf_alloc_def Let_def split: bind_splits if_splits
      intro!: node intro: alloc_bufs_inv [OF node(1)])

lemma cache_buf_start_inv: "I ctx \<Longrightarrow> cache_buf_start con n ctx = Some ctx' \<Longrightarrow> I ctx'"
  by (auto simp: cache_buf_start_def Let_def split: bind_splits if_splits
      intro!: node intro: cache_buf_alloc_inv [OF node(4)])

lemma buf_put_inv: "I ctx \<Longrightarrow> buf_put ctx b s = Some ctx' \<Longrightarrow> I ctx'"
  by (auto simp: bufs buf_put_def split: bind_splits)

lemma buf_advance_inv: "I ctx \<Longrightarrow> I (buf_advance ctx n b)"
  unfolding buf_advance_def by (intro node)

lemma copy_body_inv:
  assumes "copy_body ctx n s = Some ctx'" "I ctx"
  shows "I ctx'"
proof -
  have "I ctx \<longrightarrow> I ctx'"
  proof (rule copy_body.raw_induct [OF _ assms(1), of "\<lambda>ctx n s ctx'. I ctx \<longrightarrow> I ctx'"])
    fix f ctx n s ctx'
    assume IH: "\<And>ctx n s ctx'. f ctx n s = Some ctx' \<Longrightarrow> I ctx \<longrightarrow> I ctx'"
      and r: "(if s = [] then Some ctx
        else url_data_current (url_base ctx n) \<bind>
          (\<lambda>b. let room = HTTP_SP_BUF_LEN_MAX - buf_len (data_buf ctx b)
            in if room < length s then buf_put ctx b (take room s) \<bind> (\<lambda>ctx1. f (buf_advance ctx1 n b) n (drop room s))
               else buf_put ctx b s \<bind> (\<lambda>ctx1. Some (if buf_len (data_buf ctx1 b) = HTTP_SP_BUF_LEN_MAX
                 then buf_advance ctx1 n b else ctx1)))) = Some ctx'"
    consider "ctx' = ctx"
      | b s1 ctx1 s' where "buf_put ctx b s1 = Some ctx1" "f (buf_advance ctx1 n b) n s' = Some ctx'"
      | b ctx1 where "buf_put ctx b s = Some ctx1" "ctx' = ctx1 \<or> ctx' = buf_advance ctx1 n b"
      using r by (auto simp: Let_def split: if_splits bind_splits)
    then show "I ctx \<longrightarrow> I ctx'"
    proof cases
      case 2
      then show ?thesis using IH [OF 2(2)] buf_put_inv buf_advance_inv by blast
    next
      case 3
      then show ?thesis using buf_put_inv buf_advance_inv by blast
    qed simp
  qed
  then show ?thesis using assms(2) by blast
qed

lemma cache_pkts_inv:
  assumes "cache_pkts ef l hdr alloc n efb ctx = Some ctx'" "I ctx"
  shows "I ctx'"
proof -
  have "I ctx \<longrightarrow> I ctx'"
  proof (rule cache_pkts.raw_induct [OF _ assms(1), of "\<lambda>ef l hdr alloc n efb ctx ctx'. I ctx \<longrightarrow> I ctx'"])
    fix f ef l hdr alloc n efb ctx ctx'
    assume IH: "\<And>ef l hdr alloc n efb ctx ctx'. f ef l hdr alloc n efb ctx = Some ctx' \<Longrightarrow> I ctx \<longrightarrow> I ctx'"
      and r: "(case efb of None \<Rightarrow> Some ctx
        | Some p \<Rightarrow> let d = tcp_data_get ef p
            in (if alloc then copy_body ctx n (body_part (url_data_len (url_base ctx n)) hdr d) else Some ctx) \<bind>
               (\<lambda>ctx1. f ef l hdr alloc n (l p)
                  (upd_url ctx1 n (\<lambda>v. v\<lparr>url_data_len := url_data_len v + int (length d)\<rparr>)))) = Some ctx'"
    have step: "I ctx1 \<Longrightarrow> I (upd_url ctx1 n (\<lambda>v. v\<lparr>url_data_len := url_data_len v + k\<rparr>))" for ctx1 k
      by (intro node)
    show "I ctx \<longrightarrow> I ctx'"
      using r IH step copy_body_inv
      by (auto simp: Let_def split: if_splits bind_splits option.splits)
  qed
  then show ?thesis using assms(2) by blast
qed

lemma cache_buf_inv:
  assumes "I ctx" "ngx_http_snooping_cache_buf ef l con chain ctx = Some (con', ctx')"
  shows "I ctx'"
proof -
  have sub: "I (upd_url c n (\<lambda>v. v\<lparr>url_data_len := url_data_len v - k\<rparr>))" if "I c" for c n k
    using that by (intro node)
  consider "ctx' = ctx"
    | n ctx1 ctx2 a where "cache_buf_start con n ctx = Some ctx1"
      "cache_pkts ef l (response_header_len con) a n (chain_head chain) ctx1 = Some ctx2"
      "ctx' = ctx2 \<or> ctx' = upd_url ctx2 n (\<lambda>v. v\<lparr>url_data_len := url_data_len v - int (response_header_len con)\<rparr>)"
    using assms(2) by (auto simp: ngx_http_snooping_cache_buf_def split: bind_splits if_splits)
  then show ?thesis
  proof cases
    case 2
    then have "I ctx2" using assms(1) cache_buf_start_inv cache_pkts_inv by blast
    then show ?thesis using 2(3) sub by auto
  qed (simp add: assms(1))
qed

end

lemma url_inv_node: "url_inv ctx \<Longrightarrow> (\<And>v. keeps f v) \<Longrightarrow> url_inv (upd_url ctx n f)"
  by (rule url_inv_upd)

lemma keeps_data:
  "keeps (\<lambda>v. v\<lparr>data_buf_list := g v\<rparr>) v" "keeps (\<lambda>v. v\<lparr>url_data_current := h v\<rparr>) v"
  "keeps (\<lambda>v. v\<lparr>url_data_len := k v\<rparr>) v" "keeps (\<lambda>v. v\<lparr>data_start := x\<rparr>) v"
  "keeps (\<lambda>v. v\<lparr>node_mime := m\<rparr>) v" "keeps (\<lambda>v. v\<lparr>url_res_len := len\<rparr>) v"
  "keeps (set_flg HTTP_SNOOPING_FLG_CACHE_BUF_ALLOC) v" "keeps (set_flg HTTP_SNOOPING_FLG_RES_CACHE) v"
  "keeps (\<lambda>v. set_flg HTTP_SNOOPING_FLG_RES_LFB (v\<lparr>data_start := x, url_encoding := e, url_data_len := y\<rparr>)) v"
  by (simp_all add: keeps_simps bit_or_iff)

interpretation inv: data_kept url_inv
  by unfold_locales (auto intro: url_inv_node keeps_data)

text \<open>The fields of a node that determine the name of its file.\<close>

definition file_id :: "http_snooping_url \<Rightarrow> http_cache_url option \<times> cstr \<times> nat \<times> nat \<times> http_mime_type_t" where
  "file_id v = (pcache_rule v, url_buf v, server_name_len v, res_url_len v, node_mime v)"

interpretation fid: data_kept "\<lambda>ctx. file_id (url_base ctx m) = x" for m x
  by unfold_locales (auto simp: file_id_def set_flg_def)

lemma local_file_path_id: "file_id v = file_id v' \<Longrightarrow> local_file_path e v = local_file_path e v'"
  by (simp add: file_id_def local_file_path_def cong: if_cong)

end
