(* ===== verification/SnoopBody.thy ===== *)
theory SnoopBody
  imports SnoopKeep
begin

text \<open>
  What the packet path stores of a response: the data buffers of a node are filled in order, the bytes they
  hold are the bytes of the body, and bytes beyond the allocated buffers are an undefined access.
\<close>

section \<open>Copying a body\<close>

text \<open>The data buffers of a node, filled in order: the full ones, the current one, the empty ones. \<open>stored\<close> is
  what they hold.\<close>

definition buf_room :: "http_snooping_ctx \<Rightarrow> nat \<Rightarrow> nat" where
  "buf_room ctx b = HTTP_SP_BUF_LEN_MAX - buf_len (data_buf ctx b)"

definition stored :: "http_snooping_ctx \<Rightarrow> nat \<Rightarrow> cstr" where
  "stored ctx n = concat (map (buf_bytes ctx) (data_buf_list (url_base ctx n)))"

definition fill_inv :: "http_snooping_ctx \<Rightarrow> nat \<Rightarrow> nat list \<Rightarrow> nat list \<Rightarrow> bool" where
  "fill_inv ctx n full rest \<longleftrightarrow>
     data_buf_list (url_base ctx n) = full @ rest \<and> distinct (full @ rest)
     \<and> url_data_current (url_base ctx n) = (case rest of [] \<Rightarrow> None | b # _ \<Rightarrow> Some b)
     \<and> (\<forall>b \<in> set (full @ rest). length (buf_data (data_buf ctx b)) = HTTP_SP_BUF_LEN_MAX)
     \<and> (\<forall>b \<in> set full. buf_len (data_buf ctx b) = HTTP_SP_BUF_LEN_MAX)
     \<and> (case rest of [] \<Rightarrow> True | b # bs \<Rightarrow> buf_len (data_buf ctx b) < HTTP_SP_BUF_LEN_MAX
          \<and> (\<forall>c \<in> set bs. buf_len (data_buf ctx c) = 0))"

text \<open>The bytes that still fit.\<close>

definition room :: "http_snooping_ctx \<Rightarrow> nat list \<Rightarrow> nat" where
  "room ctx rest = sum_list (map (buf_room ctx) rest)"

lemma next_buf_append:
  "distinct (xs @ b # ys) \<Longrightarrow> next_buf (xs @ b # ys) b = (case ys of [] \<Rightarrow> None | y # _ \<Rightarrow> Some y)"
  by (induction xs) auto

lemma buf_put_ok:
  assumes "length (buf_data (data_buf ctx b)) = HTTP_SP_BUF_LEN_MAX" "length s \<le> buf_room ctx b" "s \<noteq> []"
  shows "\<exists>d. buf_put ctx b s = Some (ctx\<lparr>data_buf := (data_buf ctx)(b := \<lparr>buf_len = buf_len (data_buf ctx b) + length s, buf_data = d\<rparr>)\<rparr>)
    \<and> length d = HTTP_SP_BUF_LEN_MAX
    \<and> take (buf_len (data_buf ctx b) + length s) d = buf_bytes ctx b @ s"
proof -
  have "buf_len (data_buf ctx b) + length s \<le> length (buf_data (data_buf ctx b))"
    using assms by (cases s) (auto simp: buf_room_def)
  from mem_write_sl [OF this] assms(1) show ?thesis by (auto simp: buf_put_def buf_bytes_def sl_def)
qed

definition touched :: "http_snooping_ctx \<Rightarrow> nat \<Rightarrow> http_snooping_ctx \<Rightarrow> bool" where
  "touched ctx n ctx' \<longleftrightarrow> (\<exists>d c. ctx' = upd_url (ctx\<lparr>data_buf := d\<rparr>) n (\<lambda>v. v\<lparr>url_data_current := c\<rparr>))"

lemma touched_refl: "touched ctx n ctx"
  unfolding touched_def
  by (rule exI [of _ "data_buf ctx"], rule exI [of _ "url_data_current (url_base ctx n)"]) (simp add: upd_url_def)

lemma touched_trans: "touched ctx n ctx1 \<Longrightarrow> touched ctx1 n ctx2 \<Longrightarrow> touched ctx n ctx2"
  unfolding touched_def by (fastforce simp: upd_url_def)

text \<open>Putting bytes into the current buffer, which is left when it is full.\<close>

definition buf_fill :: "http_snooping_ctx \<Rightarrow> nat \<Rightarrow> nat \<Rightarrow> cstr \<Rightarrow> http_snooping_ctx option" where
  "buf_fill ctx n b s =
     do {
       ctx1 \<leftarrow> buf_put ctx b s;
       Some (if buf_len (data_buf ctx1 b) = HTTP_SP_BUF_LEN_MAX then buf_advance ctx1 n b else ctx1)
     }"

lemma buf_fill_ok:
  assumes inv: "fill_inv ctx n full (b # bs)" and t: "length t \<le> buf_room ctx b" "t \<noteq> []"
  shows "\<exists>ctx' full' rest'. buf_fill ctx n b t = Some ctx' \<and> fill_inv ctx' n full' rest' \<and> full' @ rest' = full @ b # bs
    \<and> stored ctx' n = stored ctx n @ t \<and> room ctx' rest' + length t = room ctx (b # bs) \<and> touched ctx n ctx'
    \<and> (length t = buf_room ctx b \<longrightarrow> rest' = bs)"
proof -
  have bl: "length (buf_data (data_buf ctx b)) = HTTP_SP_BUF_LEN_MAX"
    "buf_len (data_buf ctx b) < HTTP_SP_BUF_LEN_MAX" "b \<notin> set full" "b \<notin> set bs" "distinct (full @ b # bs)"
    "data_buf_list (url_base ctx n) = full @ b # bs"
    using inv by (auto simp: fill_inv_def)
  obtain d where d: "buf_put ctx b t = Some (ctx\<lparr>data_buf := (data_buf ctx)(b := \<lparr>buf_len = buf_len (data_buf ctx b) + length t, buf_data = d\<rparr>)\<rparr>)"
    "length d = HTTP_SP_BUF_LEN_MAX" "take (buf_len (data_buf ctx b) + length t) d = buf_bytes ctx b @ t"
    using buf_put_ok [OF bl(1) t] by blast
  define ctx1 where "ctx1 = ctx\<lparr>data_buf := (data_buf ctx)(b := \<lparr>buf_len = buf_len (data_buf ctx b) + length t, buf_data = d\<rparr>)\<rparr>"
  define ctx2 where "ctx2 = buf_advance ctx1 n b"
  have same: "map (buf_bytes ctx1) xs = map (buf_bytes ctx) xs" "map (buf_room ctx1) xs = map (buf_room ctx) xs"
    if "b \<notin> set xs" for xs
    using that by (auto simp: ctx1_def buf_bytes_def buf_room_def)
  have b1: "buf_bytes ctx1 b = buf_bytes ctx b @ t" "buf_room ctx1 b + length t = buf_room ctx b"
    "buf_len (data_buf ctx1 b) = HTTP_SP_BUF_LEN_MAX \<longleftrightarrow> length t = buf_room ctx b"
    using d(3) bl(2) t by (auto simp: ctx1_def buf_bytes_def buf_room_def)
  have nil: "concat (map (buf_bytes ctx) bs) = []" using inv by (auto simp: fill_inv_def buf_bytes_def)
  have st: "stored ctx1 n = stored ctx n @ t"
  proof -
    have "url_base ctx1 = url_base ctx" by (simp add: ctx1_def)
    then show ?thesis
      unfolding stored_def bl(6) map_append concat_append list.map concat.simps same(1) [OF bl(3)] same(1) [OF bl(4)]
        b1(1) nil by (simp add: bl(6) nil same(1) [OF bl(3)] same(1) [OF bl(4)] b1(1) del: map_eq_conv concat_eq_Nil_conv)
  qed
  have eq2: "buf_bytes ctx2 = buf_bytes ctx1" "buf_room ctx2 = buf_room ctx1"
    by (simp_all add: ctx2_def buf_advance_def buf_bytes_def buf_room_def fun_eq_iff)
  have st2: "stored ctx2 n = stored ctx1 n" by (simp add: stored_def eq2) (simp add: ctx2_def buf_advance_def)
  have t1: "touched ctx n ctx1" "touched ctx n ctx2"
    unfolding touched_def ctx1_def ctx2_def buf_advance_def
    by (rule exI, rule exI [of _ "url_data_current (url_base ctx n)"], simp add: upd_url_def)
      (auto simp: upd_url_def)
  show ?thesis
  proof (cases "length t = buf_room ctx b")
    case True
    have "fill_inv ctx2 n (full @ [b]) bs"
      using inv True bl(3,4) d(2) b1(3) next_buf_append [OF bl(5)]
      by (auto simp: fill_inv_def ctx2_def buf_advance_def ctx1_def split: list.splits)
    moreover have "buf_fill ctx n b t = Some ctx2"
      unfolding buf_fill_def d(1) [folded ctx1_def] using b1(3) True by (simp add: ctx2_def)
    moreover have "room ctx2 bs + length t = room ctx (b # bs)"
      using True by (simp add: room_def eq2 same(2) [OF bl(4)] del: map_eq_conv)
    ultimately show ?thesis using st st2 t1 by (intro exI [of _ ctx2] exI [of _ "full @ [b]"] exI [of _ bs]) simp
  next
    case False
    then have "fill_inv ctx1 n full (b # bs)"
      using inv t bl(2-4) d(2) by (auto simp: fill_inv_def ctx1_def buf_room_def)
    moreover have "buf_fill ctx n b t = Some ctx1"
      unfolding buf_fill_def d(1) [folded ctx1_def] using b1(3) False by simp
    moreover have "room ctx1 (b # bs) + length t = room ctx (b # bs)"
      using b1(2) by (simp add: room_def same(2) [OF bl(4)] del: map_eq_conv)
    ultimately show ?thesis using False st t1 by blast
  qed
qed

lemma copy_body_unfold:
  assumes "url_data_current (url_base ctx n) = Some b" "s \<noteq> []" "buf_len (data_buf ctx b) < HTTP_SP_BUF_LEN_MAX"
  shows "copy_body ctx n s =
    (if length s > buf_room ctx b
     then do { ctx1 \<leftarrow> buf_fill ctx n b (take (buf_room ctx b) s); copy_body ctx1 n (drop (buf_room ctx b) s) }
     else buf_fill ctx n b s)"
proof -
  have "buf_len (data_buf ctx1 b) = HTTP_SP_BUF_LEN_MAX"
    if "length s > buf_room ctx b" "buf_put ctx b (take (buf_room ctx b) s) = Some ctx1" for ctx1
    using that assms(3) by (auto simp: buf_put_def buf_room_def split: bind_splits)
  then show ?thesis using assms
    by (subst copy_body.simps) (auto simp: buf_fill_def buf_room_def [symmetric] split: bind_split)
qed

lemma copy_body_fill:
  assumes "fill_inv ctx n full rest" "length s \<le> room ctx rest"
  shows "\<exists>ctx' full' rest'. copy_body ctx n s = Some ctx' \<and> fill_inv ctx' n full' rest' \<and> full' @ rest' = full @ rest
    \<and> stored ctx' n = stored ctx n @ s \<and> room ctx' rest' + length s = room ctx rest \<and> touched ctx n ctx'"
  using assms
proof (induction rest arbitrary: ctx full s)
  case Nil
  then have "s = []" by (simp add: room_def)
  then show ?case using Nil touched_refl by (auto simp: copy_body.simps)
next
  case (Cons b bs)
  note inv = Cons.prems(1)
  have cur: "url_data_current (url_base ctx n) = Some b" "buf_len (data_buf ctx b) < HTTP_SP_BUF_LEN_MAX"
    using inv by (simp_all add: fill_inv_def)
  consider (empty) "s = []" | (fits) "s \<noteq> []" "length s \<le> buf_room ctx b"
    | (more) "s \<noteq> []" "length s > buf_room ctx b" by force
  then show ?case
  proof cases
    case empty
    then show ?thesis using Cons.prems touched_refl by (auto simp: copy_body.simps)
  next
    case fits
    then show ?thesis using copy_body_unfold [OF cur(1) fits(1) cur(2)] buf_fill_ok [OF inv fits(2,1)] by auto
  next
    case more
    define t where "t = take (buf_room ctx b) s"
    have t: "length t = buf_room ctx b" "t \<noteq> []" using more cur by (auto simp: t_def buf_room_def)
    obtain ctx1 full1 where 1: "buf_fill ctx n b t = Some ctx1" "fill_inv ctx1 n full1 bs" "full1 @ bs = full @ b # bs"
      "stored ctx1 n = stored ctx n @ t" "room ctx1 bs + length t = room ctx (b # bs)" "touched ctx n ctx1"
      using buf_fill_ok [OF inv _ t(2)] t(1) by auto
    have "length (drop (buf_room ctx b) s) \<le> room ctx1 bs" using 1(5) t(1) Cons.prems(2) by simp
    from Cons.IH [OF 1(2) this] obtain ctx2 full2 rest2 where 2: "copy_body ctx1 n (drop (buf_room ctx b) s) = Some ctx2"
      "fill_inv ctx2 n full2 rest2" "full2 @ rest2 = full1 @ bs"
      "stored ctx2 n = stored ctx1 n @ drop (buf_room ctx b) s"
      "room ctx2 rest2 + length (drop (buf_room ctx b) s) = room ctx1 bs" "touched ctx1 n ctx2" by blast
    have "copy_body ctx n s = Some ctx2"
      using copy_body_unfold [OF cur(1) more(1) cur(2)] more(2) 1(1) 2(1) by (simp add: t_def)
    moreover have "stored ctx2 n = stored ctx n @ s" using 1(4) 2(4) by (simp add: t_def)
    moreover have "room ctx2 rest2 + length s = room ctx (b # bs)" using 1(5) 2(5) t(1) more by simp
    ultimately show ?thesis using 2(2,3) 1(3,6) 2(6) touched_trans by metis
  qed
qed

text \<open>Bytes beyond the room are written through the list head.\<close>

lemma copy_body_overflow:
  assumes "fill_inv ctx n full rest" "length s > room ctx rest"
  shows "copy_body ctx n s = None"
  using assms
proof (induction rest arbitrary: ctx full s)
  case Nil
  then show ?case by (subst copy_body.simps) (auto simp: fill_inv_def room_def)
next
  case (Cons b bs)
  note inv = Cons.prems(1)
  have cur: "url_data_current (url_base ctx n) = Some b" "buf_len (data_buf ctx b) < HTTP_SP_BUF_LEN_MAX"
    using inv by (simp_all add: fill_inv_def)
  have more: "s \<noteq> []" "length s > buf_room ctx b" using Cons.prems(2) by (auto simp: room_def)
  define t where "t = take (buf_room ctx b) s"
  have t: "length t = buf_room ctx b" "t \<noteq> []" using more cur by (auto simp: t_def buf_room_def)
  obtain ctx1 full1 where 1: "buf_fill ctx n b t = Some ctx1" "fill_inv ctx1 n full1 bs"
    "room ctx1 bs + length t = room ctx (b # bs)"
    using buf_fill_ok [OF inv _ t(2)] t(1) by auto
  have "length (drop (buf_room ctx b) s) > room ctx1 bs" using 1(3) t(1) Cons.prems(2) more by simp
  from Cons.IH [OF 1(2) this] show ?case
    using copy_body_unfold [OF cur(1) more(1) cur(2)] more(2) 1(1) by (simp add: t_def)
qed

subsection \<open>The packets of a response\<close>

fun linked :: "links \<Rightarrow> nat option \<Rightarrow> nat list \<Rightarrow> bool" where
  "linked l efb [] \<longleftrightarrow> efb = None"
| "linked l efb (p # ps) \<longleftrightarrow> efb = Some p \<and> linked l (l p) ps"

lemma body_part_eq: "body_part (int (length D)) hdr d = drop (hdr - length D) d"
proof -
  have "nat (int hdr - int (length D)) = hdr - length D" by linarith
  then show ?thesis by (auto simp: body_part_def)
qed

text \<open>Only the buffers, the current buffer and the length change.\<close>

definition only_data :: "http_snooping_ctx \<Rightarrow> nat \<Rightarrow> http_snooping_ctx \<Rightarrow> bool" where
  "only_data ctx n ctx' \<longleftrightarrow> (\<exists>d c k. ctx' = upd_url (ctx\<lparr>data_buf := d\<rparr>) n
     (\<lambda>v. v\<lparr>url_data_current := c, url_data_len := k\<rparr>))"

lemma only_data_refl: "only_data ctx n ctx"
  unfolding only_data_def
  by (rule exI [of _ "data_buf ctx"], rule exI [of _ "url_data_current (url_base ctx n)"],
      rule exI [of _ "url_data_len (url_base ctx n)"]) (simp add: upd_url_def)

lemma only_data_trans: "only_data ctx n ctx1 \<Longrightarrow> only_data ctx1 n ctx2 \<Longrightarrow> only_data ctx n ctx2"
  unfolding only_data_def by (fastforce simp: upd_url_def)

lemma touched_len:
  assumes "touched ctx n ctx1"
  shows "only_data ctx n (upd_url ctx1 n (\<lambda>v. v\<lparr>url_data_len := url_data_len v + k\<rparr>))"
    "url_data_len (url_base ctx1 n) = url_data_len (url_base ctx n)"
  using assms unfolding touched_def only_data_def by (fastforce simp: upd_url_def)+

lemma fill_inv_len [simp]:
  "fill_inv (upd_url ctx n (\<lambda>v. v\<lparr>url_data_len := k v\<rparr>)) n full rest = fill_inv ctx n full rest"
  "stored (upd_url ctx n (\<lambda>v. v\<lparr>url_data_len := k v\<rparr>)) n = stored ctx n"
  "room (upd_url ctx n (\<lambda>v. v\<lparr>url_data_len := k v\<rparr>)) rest = room ctx rest"
proof -
  have "buf_bytes (upd_url ctx n (\<lambda>v. v\<lparr>url_data_len := k v\<rparr>)) = buf_bytes ctx" by (simp add: fun_eq_iff)
  moreover have "buf_room (upd_url ctx n (\<lambda>v. v\<lparr>url_data_len := k v\<rparr>)) = buf_room ctx"
    by (simp add: fun_eq_iff buf_room_def)
  ultimately show "fill_inv (upd_url ctx n (\<lambda>v. v\<lparr>url_data_len := k v\<rparr>)) n full rest = fill_inv ctx n full rest"
    "stored (upd_url ctx n (\<lambda>v. v\<lparr>url_data_len := k v\<rparr>)) n = stored ctx n"
    "room (upd_url ctx n (\<lambda>v. v\<lparr>url_data_len := k v\<rparr>)) rest = room ctx rest"
    by (simp_all add: fill_inv_def stored_def room_def split: list.split)
qed

lemma cache_pkts_saves:
  assumes "linked l efb ps" "fill_inv ctx n full rest" "url_data_len (url_base ctx n) = int (length D)"
    "stored ctx n = drop hdr D" "length (drop hdr (D @ payload ef ps)) \<le> room ctx rest + length (drop hdr D)"
  shows "\<exists>ctx' full' rest'. cache_pkts ef l hdr True n efb ctx = Some ctx' \<and> fill_inv ctx' n full' rest'
    \<and> full' @ rest' = full @ rest \<and> url_data_len (url_base ctx' n) = int (length (D @ payload ef ps))
    \<and> stored ctx' n = drop hdr (D @ payload ef ps) \<and> only_data ctx n ctx'"
  using assms
proof (induction ps arbitrary: efb ctx full rest D)
  case Nil
  then show ?case using only_data_refl by (auto simp: cache_pkts.simps)
next
  case (Cons p ps)
  define d where "d = tcp_data_get ef p"
  define s where "s = body_part (int (length D)) hdr d"
  have fits: "length s \<le> room ctx rest"
    using Cons.prems(5) by (simp add: d_def [symmetric] s_def body_part_eq)
  obtain ctx1 full1 rest1 where 1: "copy_body ctx n s = Some ctx1" "fill_inv ctx1 n full1 rest1"
    "full1 @ rest1 = full @ rest" "stored ctx1 n = drop hdr (D @ d)" "room ctx1 rest1 + length s = room ctx rest"
    "touched ctx n ctx1"
    using copy_body_fill [OF Cons.prems(2) fits] Cons.prems(4) by (auto simp: s_def body_part_eq)
  define ctx2 where "ctx2 = upd_url ctx1 n (\<lambda>v. v\<lparr>url_data_len := url_data_len v + int (length d)\<rparr>)"
  have l: "linked l (l p) ps" "efb = Some p" using Cons.prems(1) by simp_all
  have step: "cache_pkts ef l hdr True n efb ctx = cache_pkts ef l hdr True n (l p) ctx2"
    using 1(1) Cons.prems(3) l(2) by (subst cache_pkts.simps) (simp add: Let_def d_def [symmetric] s_def ctx2_def)
  have 2: "fill_inv ctx2 n full1 rest1" "url_data_len (url_base ctx2 n) = int (length (D @ d))"
    "stored ctx2 n = drop hdr (D @ d)" "room ctx2 rest1 = room ctx1 rest1"
    using 1 touched_len(2) [OF 1(6)] Cons.prems(3) by (simp_all add: ctx2_def)
  have "length (drop hdr ((D @ d) @ payload ef ps)) \<le> room ctx2 rest1 + length (drop hdr (D @ d))"
    using Cons.prems(5) 1(5) by (simp add: 2(4) d_def s_def body_part_eq)
  from Cons.IH [OF l(1) 2(1,2,3) this] obtain ctx' full' rest' where
    "cache_pkts ef l hdr True n (l p) ctx2 = Some ctx'" "fill_inv ctx' n full' rest'" "full' @ rest' = full1 @ rest1"
    "url_data_len (url_base ctx' n) = int (length ((D @ d) @ payload ef ps))"
    "stored ctx' n = drop hdr ((D @ d) @ payload ef ps)" "only_data ctx2 n ctx'" by blast
  moreover have "only_data ctx n ctx2" unfolding ctx2_def by (rule touched_len(1) [OF 1(6)])
  ultimately show ?case using only_data_trans step 1(3) by (auto simp: d_def)
qed

lemma cache_pkts_overflow:
  assumes "linked l efb ps" "fill_inv ctx n full rest" "url_data_len (url_base ctx n) = int (length D)"
    "stored ctx n = drop hdr D" "length (drop hdr (D @ payload ef ps)) > room ctx rest + length (drop hdr D)"
  shows "cache_pkts ef l hdr True n efb ctx = None"
  using assms
proof (induction ps arbitrary: efb ctx full rest D)
  case (Cons p ps)
  define d where "d = tcp_data_get ef p"
  define s where "s = body_part (int (length D)) hdr d"
  have l: "linked l (l p) ps" "efb = Some p" using Cons.prems(1) by simp_all
  show ?case
  proof (cases "length s \<le> room ctx rest")
    case True
    obtain ctx1 full1 rest1 where 1: "copy_body ctx n s = Some ctx1" "fill_inv ctx1 n full1 rest1"
      "stored ctx1 n = drop hdr (D @ d)" "room ctx1 rest1 + length s = room ctx rest" "touched ctx n ctx1"
      using copy_body_fill [OF Cons.prems(2) True] Cons.prems(4) by (auto simp: s_def body_part_eq)
    define ctx2 where "ctx2 = upd_url ctx1 n (\<lambda>v. v\<lparr>url_data_len := url_data_len v + int (length d)\<rparr>)"
    have step: "cache_pkts ef l hdr True n efb ctx = cache_pkts ef l hdr True n (l p) ctx2"
      using 1(1) Cons.prems(3) l(2) by (subst cache_pkts.simps) (simp add: Let_def d_def [symmetric] s_def ctx2_def)
    have 2: "fill_inv ctx2 n full1 rest1" "url_data_len (url_base ctx2 n) = int (length (D @ d))"
      "stored ctx2 n = drop hdr (D @ d)" "room ctx2 rest1 = room ctx1 rest1"
      using 1 touched_len(2) [OF 1(5)] Cons.prems(3) by (simp_all add: ctx2_def)
    have "length (drop hdr ((D @ d) @ payload ef ps)) > room ctx2 rest1 + length (drop hdr (D @ d))"
      using Cons.prems(5) 1(4) by (simp add: 2(4) d_def s_def body_part_eq) arith
    from Cons.IH [OF l(1) 2(1,2,3) this] step show ?thesis by simp
  next
    case False
    then have "copy_body ctx n s = None" using copy_body_overflow [OF Cons.prems(2)] by simp
    then show ?thesis using Cons.prems(3) l(2)
      by (subst cache_pkts.simps) (simp add: Let_def d_def [symmetric] s_def)
  qed
qed simp

subsection \<open>Allocation\<close>

lemma alloc_bufs_ok:
  assumes "k \<le> length (data_buf_free_list ctx)" "distinct (data_buf_free_list ctx)"
  shows "\<exists>d. alloc_bufs k ctx n = Some (upd_url (ctx\<lparr>data_buf_free_list := drop k (data_buf_free_list ctx), data_buf := d\<rparr>) n
      (\<lambda>v. v\<lparr>data_buf_list := data_buf_list v @ take k (data_buf_free_list ctx)\<rparr>))
    \<and> (\<forall>b \<in> set (take k (data_buf_free_list ctx)). buf_len (d b) = 0)
    \<and> (\<forall>b. buf_data (d b) = buf_data (data_buf ctx b))
    \<and> (\<forall>b. b \<notin> set (take k (data_buf_free_list ctx)) \<longrightarrow> d b = data_buf ctx b)"
  using assms
proof (induction k arbitrary: ctx)
  case 0
  then show ?case by (intro exI [of _ "data_buf ctx"]) (simp add: upd_url_def)
next
  case (Suc k)
  obtain b bs where f: "data_buf_free_list ctx = b # bs" using Suc.prems by (cases "data_buf_free_list ctx") auto
  define ctx1 where "ctx1 = upd_url (ctx\<lparr>data_buf_free_list := bs,
      data_buf := (data_buf ctx)(b := (data_buf ctx b)\<lparr>buf_len := 0\<rparr>)\<rparr>) n
      (\<lambda>v. v\<lparr>data_buf_list := data_buf_list v @ [b]\<rparr>)"
  have "k \<le> length (data_buf_free_list ctx1)" "distinct (data_buf_free_list ctx1)"
    using Suc.prems f by (simp_all add: ctx1_def)
  from Suc.IH [OF this] obtain d where d: "alloc_bufs k ctx1 n =
      Some (upd_url (ctx1\<lparr>data_buf_free_list := drop k bs, data_buf := d\<rparr>) n
        (\<lambda>v. v\<lparr>data_buf_list := data_buf_list v @ take k bs\<rparr>))"
    "\<forall>b \<in> set (take k bs). buf_len (d b) = 0" "\<forall>c. buf_data (d c) = buf_data (data_buf ctx1 c)"
    "\<forall>c. c \<notin> set (take k bs) \<longrightarrow> d c = data_buf ctx1 c"
    by (auto simp: ctx1_def)
  have b: "b \<notin> set (take k bs)" using Suc.prems(2) f by (auto dest: in_set_takeD)
  have "alloc_bufs (Suc k) ctx n = Some (upd_url (ctx\<lparr>data_buf_free_list := drop (Suc k) (data_buf_free_list ctx), data_buf := d\<rparr>) n
      (\<lambda>v. v\<lparr>data_buf_list := data_buf_list v @ take (Suc k) (data_buf_free_list ctx)\<rparr>))"
    using d(1) by (simp add: f ctx1_def upd_url_def)
  moreover have "\<forall>c. buf_data (d c) = buf_data (data_buf ctx c)" using d(3) by (simp add: ctx1_def)
  moreover have "\<forall>c \<in> set (take (Suc k) (data_buf_free_list ctx)). buf_len (d c) = 0"
    using d(2,4) b by (simp add: f ctx1_def)
  moreover have "\<forall>c. c \<notin> set (take (Suc k) (data_buf_free_list ctx)) \<longrightarrow> d c = data_buf ctx c"
    using d(4) by (simp add: f ctx1_def)
  ultimately show ?case by blast
qed


text \<open>What the allocation for a body of \<open>len\<close> bytes needs.\<close>

definition bufs_for :: "nat \<Rightarrow> nat" where
  "bufs_for len = (len + HTTP_SP_BUF_LEN_MAX - 1) div HTTP_SP_BUF_LEN_MAX"

definition bufs_ready :: "http_snooping_ctx \<Rightarrow> nat \<Rightarrow> bool" where
  "bufs_ready ctx len \<longleftrightarrow> bufs_for len \<le> unat (buf_num ctx) \<and> bufs_for len \<le> length (data_buf_free_list ctx)
     \<and> distinct (data_buf_free_list ctx)
     \<and> (\<forall>b \<in> set (data_buf_free_list ctx). length (buf_data (data_buf ctx b)) = HTTP_SP_BUF_LEN_MAX)"

lemma bufs_for_enough: "len \<le> bufs_for len * HTTP_SP_BUF_LEN_MAX" "0 < len \<Longrightarrow> 0 < bufs_for len"
proof -
  have M: "0 < HTTP_SP_BUF_LEN_MAX" by (simp add: HTTP_SP_BUF_LEN_MAX_def)
  define m where "m = len + HTTP_SP_BUF_LEN_MAX - 1"
  have "m = m div HTTP_SP_BUF_LEN_MAX * HTTP_SP_BUF_LEN_MAX + m mod HTTP_SP_BUF_LEN_MAX" by simp
  moreover have "m mod HTTP_SP_BUF_LEN_MAX < HTTP_SP_BUF_LEN_MAX" using M by simp
  moreover have "m div HTTP_SP_BUF_LEN_MAX = bufs_for len" "len + HTTP_SP_BUF_LEN_MAX = Suc m"
    using M by (simp_all add: bufs_for_def m_def)
  ultimately show "len \<le> bufs_for len * HTTP_SP_BUF_LEN_MAX" by simp
  show "0 < bufs_for len" if "0 < len" using that M by (simp add: bufs_for_def div_greater_zero_iff)
qed

text \<open>The start of a response for a rule that lets the program save files: the node has fresh buffers.\<close>

lemma cache_buf_start_ok:
  assumes rdy: "bufs_ready ctx (nat (data_len con))" and pos: "0 < data_len con"
    and v: "data_start (url_base ctx n) = 0" "pcache_rule (url_base ctx n) = Some r"
      "cache_flg r AND HTTP_CACHE_URL_SP_WRITE \<noteq> 0"
  defines "bs \<equiv> take (bufs_for (nat (data_len con))) (data_buf_free_list ctx)"
  shows "\<exists>ctx'. cache_buf_start con n ctx = Some ctx' \<and> fill_inv ctx' n [] bs \<and> stored ctx' n = []
    \<and> room ctx' bs = bufs_for (nat (data_len con)) * HTTP_SP_BUF_LEN_MAX
    \<and> url_data_len (url_base ctx' n) = url_data_len (url_base ctx n)
    \<and> has_flg HTTP_SNOOPING_FLG_CACHE_BUF_ALLOC (url_base ctx' n)
    \<and> data_buf_free_list ctx' = drop (bufs_for (nat (data_len con))) (data_buf_free_list ctx)
    \<and> url_res_len (url_base ctx' n) = url_res_len (url_base ctx n)
    \<and> url_encoding (url_base ctx' n) = url_encoding (url_base ctx n)
    \<and> has_flg HTTP_SNOOPING_FLG_RES_WRITE (url_base ctx' n) = has_flg HTTP_SNOOPING_FLG_RES_WRITE (url_base ctx n)"
proof -
  define k where "k = bufs_for (nat (data_len con))"
  define ctx1 where "ctx1 = upd_url (upd_url ctx n (\<lambda>v. v\<lparr>data_start := 1\<rparr>)) n (\<lambda>v. v\<lparr>data_buf_list := []\<rparr>)"
  have k: "k \<le> length (data_buf_free_list ctx1)" "distinct (data_buf_free_list ctx1)" "k \<le> unat (buf_num ctx1)" "0 < k"
    using rdy bufs_for_enough(2) [of "nat (data_len con)"] pos by (simp_all add: bufs_ready_def k_def ctx1_def)
  obtain d where d: "alloc_bufs k ctx1 n = Some (upd_url (ctx1\<lparr>data_buf_free_list := drop k (data_buf_free_list ctx1),
      data_buf := d\<rparr>) n (\<lambda>v. v\<lparr>data_buf_list := data_buf_list v @ take k (data_buf_free_list ctx1)\<rparr>))"
    "\<forall>b \<in> set (take k (data_buf_free_list ctx1)). buf_len (d b) = 0" "\<forall>b. buf_data (d b) = buf_data (data_buf ctx1 b)"
    using alloc_bufs_ok [OF k(1,2)] by blast
  have f1: "data_buf_free_list ctx1 = data_buf_free_list ctx" "data_buf ctx1 = data_buf ctx"
    "data_buf_list (url_base ctx1 n) = []" by (simp_all add: ctx1_def)
  have bs: "bs = take k (data_buf_free_list ctx)" "bs \<noteq> []" "length bs = k" "distinct bs"
    using k f1 by (auto simp: bs_def k_def)
  have dl: "length (buf_data (d b)) = HTTP_SP_BUF_LEN_MAX" "buf_len (d b) = 0" if "b \<in> set bs" for b
  proof -
    have "b \<in> set (data_buf_free_list ctx)" using that bs(1) by (auto dest: in_set_takeD)
    then show "length (buf_data (d b)) = HTTP_SP_BUF_LEN_MAX" "buf_len (d b) = 0"
      using rdy d(2,3) that by (simp_all add: bufs_ready_def f1 bs(1))
  qed
  define ctx2 where "ctx2 = upd_url (ctx1\<lparr>data_buf_free_list := drop k (data_buf_free_list ctx), data_buf := d\<rparr>) n
      (\<lambda>v. v\<lparr>data_buf_list := bs\<rparr>)"
  have a2: "alloc_bufs k ctx1 n = Some ctx2"
    using d(1) by (simp add: ctx2_def f1 bs(1) upd_url_def)
  define ctx3 where "ctx3 = upd_url (upd_url (ctx2\<lparr>buf_num := buf_num ctx2 - of_nat k\<rparr>) n
      (\<lambda>v. v\<lparr>url_data_current := Some (hd bs)\<rparr>)) n (set_flg HTTP_SNOOPING_FLG_CACHE_BUF_ALLOC)"
  have c2: "data_buf_list (url_base ctx2 n) = bs" by (simp add: ctx2_def)
  have "ngx_http_snooping_cache_buf_alloc (upd_url ctx n (\<lambda>v. v\<lparr>data_start := 1\<rparr>)) (nat (data_len con)) n
      = Some (upd_url (ctx2\<lparr>buf_num := buf_num ctx2 - of_nat k\<rparr>) n (\<lambda>v. v\<lparr>url_data_current := Some (hd bs)\<rparr>))"
    unfolding ngx_http_snooping_cache_buf_alloc_def bufs_for_def [symmetric] k_def [symmetric] Let_def
      ctx1_def [symmetric] a2 using k(3) bs(2) by (cases bs) (simp_all add: c2)
  then have "cache_buf_start con n ctx = Some ctx3"
    using v bs(2) unfolding cache_buf_start_def by (simp add: Let_def ctx3_def c2)
  moreover have "fill_inv ctx3 n [] bs"
    using bs(2-4) dl by (auto simp: fill_inv_def ctx3_def ctx2_def set_flg_def HTTP_SP_BUF_LEN_MAX_def split: list.split)
  moreover have "stored ctx3 n = []"
    using dl(2) by (auto simp: stored_def ctx3_def ctx2_def set_flg_def buf_bytes_def)
  moreover have "room ctx3 bs = k * HTTP_SP_BUF_LEN_MAX"
  proof -
    have "map (buf_room ctx3) bs = map (\<lambda>_. HTTP_SP_BUF_LEN_MAX) bs"
      using dl(2) by (auto simp: buf_room_def ctx3_def ctx2_def)
    then show ?thesis using bs(3) by (simp add: room_def map_replicate_const sum_list_replicate del: map_eq_conv)
  qed
  ultimately show ?thesis
    by (intro exI [of _ ctx3])
      (simp add: ctx3_def ctx2_def ctx1_def k_def c_simps bit_or_iff set_flg_def)
qed


text \<open>A whole call of \<open>ngx_http_snooping_cache_buf\<close> with the first packets of a response.\<close>

lemma cache_buf_first:
  assumes con: "con_url con = Some n" "trans_encoding_type con = 0" "0 < data_len con"
    and v: "data_start (url_base ctx n) = 0" "pcache_rule (url_base ctx n) = Some r"
      "cache_flg r AND HTTP_CACHE_URL_SP_WRITE \<noteq> 0" "url_data_len (url_base ctx n) = 0"
      "url_res_len (url_base ctx n) = data_len con"
    and rdy: "bufs_ready ctx (nat (data_len con))"
    and ch: "chain_count chain \<noteq> 0" "linked l (chain_head chain) ps"
  defines "hdr \<equiv> response_header_len con" and "bs \<equiv> take (bufs_for (nat (data_len con))) (data_buf_free_list ctx)"
  shows "length (payload ef ps) \<le> hdr + nat (data_len con) \<Longrightarrow>
      \<exists>ctx'. ngx_http_snooping_cache_buf ef l con chain ctx
        = Some (if length (payload ef ps) = hdr + nat (data_len con) then con\<lparr>res_state := HTTP_SP_STATE_DONE\<rparr> else con, ctx')
      \<and> stored ctx' n = drop hdr (payload ef ps)
      \<and> (length (payload ef ps) = hdr + nat (data_len con) \<longrightarrow> url_data_len (url_base ctx' n) = data_len con)
      \<and> has_flg HTTP_SNOOPING_FLG_CACHE_BUF_ALLOC (url_base ctx' n)
      \<and> has_flg HTTP_SNOOPING_FLG_RES_WRITE (url_base ctx' n) = has_flg HTTP_SNOOPING_FLG_RES_WRITE (url_base ctx n)
      \<and> url_res_len (url_base ctx' n) = data_len con
      \<and> url_encoding (url_base ctx' n) = url_encoding (url_base ctx n)
      \<and> data_buf_list (url_base ctx' n) = bs
      \<and> data_buf_free_list ctx' = drop (bufs_for (nat (data_len con))) (data_buf_free_list ctx)" (is "_ \<Longrightarrow> ?A")
    and "length (payload ef ps) > hdr + bufs_for (nat (data_len con)) * HTTP_SP_BUF_LEN_MAX \<Longrightarrow>
      ngx_http_snooping_cache_buf ef l con chain ctx = None"
proof -
  obtain ctx1 where 1: "cache_buf_start con n ctx = Some ctx1" "fill_inv ctx1 n [] bs" "stored ctx1 n = drop hdr []"
    "room ctx1 bs = bufs_for (nat (data_len con)) * HTTP_SP_BUF_LEN_MAX"
    "url_data_len (url_base ctx1 n) = int (length ([] :: cstr))"
    "has_flg HTTP_SNOOPING_FLG_CACHE_BUF_ALLOC (url_base ctx1 n)"
    "data_buf_free_list ctx1 = drop (bufs_for (nat (data_len con))) (data_buf_free_list ctx)"
    "url_res_len (url_base ctx1 n) = data_len con" "url_encoding (url_base ctx1 n) = url_encoding (url_base ctx n)"
    "has_flg HTTP_SNOOPING_FLG_RES_WRITE (url_base ctx1 n) = has_flg HTTP_SNOOPING_FLG_RES_WRITE (url_base ctx n)"
    using cache_buf_start_ok [OF rdy con(3) v(1-3)] v(4,5) by (auto simp: bs_def)
  have call: "ngx_http_snooping_cache_buf ef l con chain ctx = do {
      ctx2 \<leftarrow> cache_pkts ef l hdr True n (chain_head chain) ctx1;
      Some (if url_data_len (url_base ctx2 n) \<ge> data_len con + int hdr
            then (con\<lparr>res_state := HTTP_SP_STATE_DONE\<rparr>, upd_url ctx2 n (\<lambda>v. v\<lparr>url_data_len := url_data_len v - int hdr\<rparr>))
            else (con, ctx2)) }"
    unfolding hdr_def using con v(5) ch(1) 1(1,6) by (simp add: ngx_http_snooping_cache_buf_def)
  note enough = bufs_for_enough(1) [of "nat (data_len con)"]
  show "ngx_http_snooping_cache_buf ef l con chain ctx = None"
    if "length (payload ef ps) > hdr + bufs_for (nat (data_len con)) * HTTP_SP_BUF_LEN_MAX"
  proof -
    have "length (drop hdr ([] @ payload ef ps)) > room ctx1 bs + length (drop hdr ([] :: cstr))" using that 1(4) by simp
    from cache_pkts_overflow [OF ch(2) 1(2,5,3) this] call show ?thesis by simp
  qed
  show ?A if le: "length (payload ef ps) \<le> hdr + nat (data_len con)"
  proof -
    have "length (drop hdr ([] @ payload ef ps)) \<le> room ctx1 bs + length (drop hdr ([] :: cstr))"
      using le 1(4) enough by simp
    from cache_pkts_saves [OF ch(2) 1(2,5,3) this] obtain ctx2 full' rest' where
      2: "cache_pkts ef l hdr True n (chain_head chain) ctx1 = Some ctx2" "fill_inv ctx2 n full' rest'" "full' @ rest' = bs"
      "url_data_len (url_base ctx2 n) = int (length (payload ef ps))" "stored ctx2 n = drop hdr (payload ef ps)"
      "only_data ctx1 n ctx2" by auto
    have keep: "url_flags (url_base ctx2 n) = url_flags (url_base ctx1 n)" "url_res_len (url_base ctx2 n) = data_len con"
      "url_encoding (url_base ctx2 n) = url_encoding (url_base ctx n)"
      "data_buf_free_list ctx2 = drop (bufs_for (nat (data_len con))) (data_buf_free_list ctx)"
      using 2(6) 1(7-9) by (auto simp: only_data_def)
    have flg: "has_flg f (url_base ctx2 n) = has_flg f (url_base ctx1 n)" for f by (simp add: has_flg_def keep)
    have dbl: "data_buf_list (url_base ctx2 n) = bs" using 2(2,3) by (simp add: fill_inv_def)
    define ctx3 where "ctx3 = (if length (payload ef ps) = hdr + nat (data_len con)
      then upd_url ctx2 n (\<lambda>v. v\<lparr>url_data_len := url_data_len v - int hdr\<rparr>) else ctx2)"
    have "url_data_len (url_base ctx2 n) \<ge> data_len con + int hdr \<longleftrightarrow> length (payload ef ps) = hdr + nat (data_len con)"
      using le con(3) 2(4) by linarith
    then have "ngx_http_snooping_cache_buf ef l con chain ctx
        = Some (if length (payload ef ps) = hdr + nat (data_len con) then con\<lparr>res_state := HTTP_SP_STATE_DONE\<rparr> else con, ctx3)"
      using call 2(1) by (simp add: ctx3_def)
    moreover have "stored ctx3 n = drop hdr (payload ef ps)" using 2(5) by (simp add: ctx3_def)
    moreover have "length (payload ef ps) = hdr + nat (data_len con) \<longrightarrow> url_data_len (url_base ctx3 n) = data_len con"
      using 2(4) con(3) by (simp add: ctx3_def)
    moreover have "has_flg f (url_base ctx3 n) = has_flg f (url_base ctx1 n)" for f
      using flg by (simp add: ctx3_def has_flg_def)
    moreover have "url_res_len (url_base ctx3 n) = data_len con" "data_buf_list (url_base ctx3 n) = bs"
      "url_encoding (url_base ctx3 n) = url_encoding (url_base ctx n)" "data_buf_free_list ctx3 = data_buf_free_list ctx2"
      using keep dbl by (simp_all add: ctx3_def)
    ultimately show ?thesis using keep(4) 1(6,10) by (intro exI [of _ ctx3]) simp
  qed
qed

end
