(* ===== verification/SnoopHttp.thy ===== *)
theory SnoopHttp
  imports SnoopBody
begin

text \<open>
  Facts on the packet path: the chains of packets, the search in header buffers, the parsers of requests and
  responses, the pool of connections, and the properties of \<^verbatim>\<open>http-snooping.c\<close> that follow.
\<close>

section \<open>Chains of packets\<close>

text \<open>A chain that holds a list of packets: the count, the links from the head and the tail agree. And what the code relies on of the packet library: an empty chain
  holds nothing; appending a packet puts it at the end and changes no link but those of the packets
  before it; copying gives the other chain.\<close>

definition holds :: "links \<Rightarrow> ef_buf_chain \<Rightarrow> nat list \<Rightarrow> bool" where
  "holds l c xs \<longleftrightarrow> chain_count c = length xs \<and> pkts l (length xs) (chain_head c) = Some xs \<and> distinct xs
     \<and> (xs \<noteq> [] \<longrightarrow> chain_tail c = Some (last xs))"

definition ef_laws :: "ef_lib \<Rightarrow> bool" where
  "ef_laws ef \<longleftrightarrow> chain_count (ef_buf_init_chain ef) = 0
     \<and> (\<forall>l c xs p l' c'. holds l c xs \<and> p \<notin> set xs \<and> ef_buf_efb_to_chain ef l c p = (l', c')
          \<longrightarrow> holds l' c' (xs @ [p]) \<and> (\<forall>q. q \<notin> set xs \<longrightarrow> l' q = l q))
     \<and> (\<forall>d s. ef_buf_copy_chain ef d s = s)"

lemma ef_laws_append:
  assumes "ef_laws ef" "holds l c xs" "p \<notin> set xs" "ef_buf_efb_to_chain ef l c p = (l', c')"
  shows "holds l' c' (xs @ [p])" "q \<notin> set xs \<Longrightarrow> l' q = l q"
  using assms unfolding ef_laws_def by blast+

lemma pkts_length: "pkts l k efb = Some xs \<Longrightarrow> length xs = k"
  by (induction k arbitrary: efb xs) (auto split: bind_splits)

lemma pkts_cong:
  "pkts l k efb = Some xs \<Longrightarrow> (\<And>q. q \<in> set xs \<Longrightarrow> l' q = l q) \<Longrightarrow> pkts l' k efb = Some xs"
proof (induction k arbitrary: efb xs)
  case (Suc k)
  then obtain p ps where "efb = Some p" "pkts l k (l p) = Some ps" "xs = p # ps" by (auto split: bind_splits)
  then show ?case using Suc.IH [of "l p" ps] Suc.prems(2) by simp
qed simp

lemma getn_loop_ok:
  assumes "ef_laws ef" "holds l dst ys" "pkts l m efb = Some xs" "distinct (ys @ xs)" "k \<le> m"
  shows "\<exists>l' dst' efb'. getn_loop ef k l dst efb = Some (l', dst', efb') \<and> holds l' dst' (ys @ take k xs)
    \<and> pkts l' (m - k) efb' = Some (drop k xs)"
  using assms
proof (induction k arbitrary: l dst efb xs ys m)
  case (Suc k)
  obtain m' p ps where p: "m = Suc m'" "efb = Some p" "pkts l m' (l p) = Some ps" "xs = p # ps"
    using Suc.prems(3,5) by (cases m) (auto split: bind_splits)
  obtain l1 dst1 where e: "ef_buf_efb_to_chain ef l dst p = (l1, dst1)" by fastforce
  have pn: "p \<notin> set ys" using Suc.prems(4) p by simp
  have 1: "holds l1 dst1 (ys @ [p])" "\<And>q. q \<notin> set ys \<Longrightarrow> l1 q = l q"
    by (fact ef_laws_append [OF Suc.prems(1,2) pn e])+
  have "pkts l1 m' (l1 p) = Some ps"
    using pkts_cong [OF p(3), of l1] 1(2) Suc.prems(4) p(4) pn by auto
  from Suc.IH [OF Suc.prems(1) 1(1) this] Suc.prems(4,5) p show ?case by (auto simp: e)
qed simp

lemma ef_getn_ok:
  assumes "ef_laws ef" "holds l src xs"
  shows "token < length xs \<Longrightarrow> \<exists>l' dst' src'.
      ngx_http_ef_getn ef l (ef_buf_init_chain ef) src token = Some (l', dst', src')
      \<and> holds l' dst' (take token xs) \<and> chain_count src' = length xs - token
      \<and> pkts l' (length xs - token - 1) (chain_head src') = Some (drop (Suc token) xs)"
    and "length xs \<le> token \<Longrightarrow>
      ngx_http_ef_getn ef l (ef_buf_init_chain ef) src token = Some (l, src, ef_buf_init_chain ef)"
proof -
  have c: "chain_count src = length xs" "pkts l (length xs) (chain_head src) = Some xs"
    using assms(2) by (simp_all add: holds_def)
  have dist: "distinct xs" using assms(2) by (simp add: holds_def)
  have "chain_count (ef_buf_init_chain ef) = 0" using assms(1) unfolding ef_laws_def by blast
  then have h0: "holds l (ef_buf_init_chain ef) []" by (simp add: holds_def)
  show "\<exists>l' dst' src'. ngx_http_ef_getn ef l (ef_buf_init_chain ef) src token = Some (l', dst', src')
      \<and> holds l' dst' (take token xs) \<and> chain_count src' = length xs - token
      \<and> pkts l' (length xs - token - 1) (chain_head src') = Some (drop (Suc token) xs)" if t: "token < length xs"
  proof -
    obtain l1 dst1 efb1 where 1: "getn_loop ef token l (ef_buf_init_chain ef) (chain_head src) = Some (l1, dst1, efb1)"
      "holds l1 dst1 (take token xs)" "pkts l1 (length xs - token) efb1 = Some (drop token xs)"
      using getn_loop_ok [OF assms(1) h0 c(2), of token] dist t by auto
    define m where "m = length xs - token - 1"
    have d: "drop token xs = xs ! token # drop (Suc token) xs" "length xs - token = Suc m"
      using t by (simp_all add: Cons_nth_drop_Suc m_def)
    have efb1: "efb1 = Some (xs ! token)" "pkts l1 (length xs - token - 1) (l1 (xs ! token)) = Some (drop (Suc token) xs)"
      using 1(3) unfolding d m_def [symmetric] by (auto split: bind_splits)
    define l2 where "l2 = l1(xs ! token := None)"
    have "distinct (take token xs @ xs ! token # drop (Suc token) xs)"
      using dist id_take_nth_drop [OF t] by simp
    then have nin: "xs ! token \<notin> set (take token xs)" "xs ! token \<notin> set (drop (Suc token) xs)" by auto
    have p2: "pkts l2 (length xs - token - 1) (l1 (xs ! token)) = Some (drop (Suc token) xs)"
      using nin(2) by (intro pkts_cong [OF efb1(2)]) (auto simp: l2_def)
    have "pkts l1 token (chain_head dst1) = Some (take token xs)" using 1(2) t by (simp add: holds_def)
    then have "pkts l2 token (chain_head dst1) = Some (take token xs)"
      by (rule pkts_cong) (use nin(1) in \<open>auto simp: l2_def\<close>)
    then have "holds l2 dst1 (take token xs)" using 1(2) t by (simp add: holds_def)
    moreover have "ngx_http_ef_getn ef l (ef_buf_init_chain ef) src token = Some (l2, dst1,
        src\<lparr>chain_head := l1 (xs ! token), chain_count := length xs - token\<rparr>)"
      unfolding ngx_http_ef_getn_def using 1(1) c(1) t efb1(1) by (simp add: l2_def)
    ultimately show ?thesis using p2 by simp
  qed
  show "ngx_http_ef_getn ef l (ef_buf_init_chain ef) src token = Some (l, src, ef_buf_init_chain ef)"
    if "length xs \<le> token"
    using that c(1) assms(1) by (simp add: ngx_http_ef_getn_def ef_laws_def)
qed

section \<open>Searching\<close>

lemma c_strstr_append:
  assumes "\<And>i. i < length pre \<Longrightarrow> take (length pat) (drop i (pre @ pat)) \<noteq> pat" "pat \<noteq> []"
  shows "c_strstr (pre @ pat @ s) pat = Some (length pre)"
  using assms(1)
proof (induction pre)
  case Nil
  have "take (length pat) (pat @ s) = pat" by simp
  then show ?case using assms(2) by (cases "pat @ s") (auto simp del: append_eq_conv_conj)
next
  case (Cons c pre)
  have "take (length pat) (drop i (pre @ pat)) \<noteq> pat" if "i < length pre" for i
    using Cons.prems [of "Suc i"] that by simp
  moreover have "take (length pat) (c # pre @ pat @ s) = take (length pat) (c # pre @ pat)"
    using take_append [of "length pat" "c # pre @ pat" s] by simp
  then have "take (length pat) (c # pre @ pat @ s) \<noteq> pat" using Cons.prems [of 0] by simp
  ultimately show ?case using Cons.IH by simp
qed

lemma c_strstr_None: "c \<in> set pat \<Longrightarrow> c \<notin> set s \<Longrightarrow> c_strstr s pat = None"
proof (induction s)
  case (Cons x s)
  have "take (length pat) (x # s) \<noteq> pat"
    using Cons.prems by (metis in_set_takeD)
  then show ?case using Cons by simp
qed auto

lemma c_strstr_line: "CR \<notin> set s \<Longrightarrow> c_strstr (s @ http_new_line @ t) http_new_line = Some (length s)"
proof (rule c_strstr_append)
  fix i assume "CR \<notin> set s" "i < length s"
  then show "take (length http_new_line) (drop i (s @ http_new_line)) \<noteq> http_new_line"
    by (simp add: http_new_line_def Cons_nth_drop_Suc [symmetric]) (metis nth_mem)
qed (simp add: http_new_line_def)

lemma str_index_append: "c \<notin> set s \<Longrightarrow> str_index c (s @ c # t) = Some (length s)"
  by (induction s) auto

lemma str_at_append: "NUL \<notin> set s \<Longrightarrow> str_at (pre @ s @ NUL # t) (length pre) = Some s"
  by (simp add: str_at_def c_str_def) (subst takeWhile_append2; auto)

text \<open>The request line and host of a GET request.\<close>

lemma request_line_get_ok:
  assumes b: "current_request_header_buf con = ''GET '' @ url @ '' '' @ pre @ http_host @ hst @ http_new_line @ post @ NUL # rest"
    and nn: "NUL \<notin> set (url @ pre @ hst @ post)" and url: "CHR '' '' \<notin> set url" "length url < HTTP_SP_URL_LEN_MAX"
    and pre: "\<And>i. i < length pre \<Longrightarrow> take (length http_host) (drop i (pre @ http_host)) \<noteq> http_host"
    and hst: "CR \<notin> set hst"
  shows "request_line con = Some (con\<lparr>req_method := HTTP_SP_METHOD_GET, res_url := (4, length url),
      server_name := (4 + length url + 1 + length pre + length http_host, length hst)\<rparr>,
      Some (4 + length url + 1 + length pre + length http_host + length hst + length http_new_line))"
proof -
  define buf where "buf = current_request_header_buf con"
  have nl: "NUL \<notin> set http_host" "NUL \<notin> set http_new_line" "http_host \<noteq> []"
    by (simp_all add: http_host_def http_new_line_def)
  have m: "request_method buf = Some (HTTP_SP_METHOD_GET, 4)" by (simp add: buf_def b request_method_def)
  have s1: "str_at buf 4 = Some (url @ CHR '' '' # pre @ http_host @ hst @ http_new_line @ post)"
    using str_at_append [of "url @ CHR '' '' # pre @ http_host @ hst @ http_new_line @ post" "''GET ''" rest] nn nl
    by (simp add: buf_def b numeral_eq_Suc)
  have s2: "str_at buf (4 + length url + 1) = Some (pre @ http_host @ hst @ http_new_line @ post)"
    using str_at_append [of "pre @ http_host @ hst @ http_new_line @ post" "''GET '' @ url @ '' ''" rest] nn nl
    by (simp add: buf_def b numeral_eq_Suc)
  have s3: "str_at buf (4 + length url + 1 + length pre + length http_host) = Some (hst @ http_new_line @ post)"
    using str_at_append [of "hst @ http_new_line @ post" "''GET '' @ url @ '' '' @ pre @ http_host" rest] nn nl
    by (simp add: buf_def b numeral_eq_Suc add.assoc)
  show ?thesis
    unfolding request_line_def buf_def [symmetric] Let_def m option.simps prod.case s1 Option.bind.simps
      str_index_append [OF url(1)] s2 c_strstr_append [OF pre nl(3)] s3 c_strstr_line [OF hst]
    using url(2) by (simp add: s2 [simplified] s3 [simplified] c_strstr_append [OF pre nl(3)] c_strstr_line [OF hst])
qed

section \<open>A packet library\<close>

text \<open>A packet library for the examples: chains are linked through the tail; the payload of the packets is
  an argument.\<close>

definition demo_append :: "links \<Rightarrow> ef_buf_chain \<Rightarrow> nat \<Rightarrow> links \<times> ef_buf_chain" where
  "demo_append l c p =
     (if chain_count c = 0 then (l, \<lparr>chain_head = Some p, chain_tail = Some p, chain_count = 1\<rparr>)
      else ((case chain_tail c of None \<Rightarrow> l | Some q \<Rightarrow> l(q := Some p)),
            c\<lparr>chain_tail := Some p, chain_count := chain_count c + 1\<rparr>))"

definition demo_ef :: "(nat \<Rightarrow> cstr) \<Rightarrow> ef_lib" where
  "demo_ef pay = \<lparr>tcp_data_get = pay, ef_buf_init_chain = chain0, ef_buf_efb_to_chain = demo_append,
     ef_buf_chain2chain = (\<lambda>l d s. if chain_count d = 0 then (l, s) else if chain_count s = 0 then (l, d)
       else ((case chain_tail d of None \<Rightarrow> l | Some q \<Rightarrow> l(q := chain_head s)),
             \<lparr>chain_head = chain_head d, chain_tail = chain_tail s, chain_count = chain_count d + chain_count s\<rparr>)),
     ef_buf_copy_chain = (\<lambda>d s. s)\<rparr>"

definition demo_st :: sp_state where
  "demo_st = \<lparr>sp_ctx = ngx_http_snooping_ctx_init 0 0, sp_links = (\<lambda>_. None), http_homepage_hash = (\<lambda>_. 0), sp_events = []\<rparr>"

lemma pkts_snoc:
  "pkts l k efb = Some xs \<Longrightarrow> distinct xs \<Longrightarrow> p \<notin> set xs \<Longrightarrow> xs \<noteq> [] \<Longrightarrow>
     pkts (l(last xs := Some p)) (Suc k) efb = Some (xs @ [p])"
proof (induction k arbitrary: efb xs)
  case (Suc k)
  obtain q ps where q: "efb = Some q" "pkts l k (l q) = Some ps" "xs = q # ps"
    using Suc.prems(1) by (auto split: bind_splits)
  show ?case
  proof (cases "ps = []")
    case True
    then show ?thesis using q pkts_length [OF q(2)] by simp
  next
    case False
    then have "last ps \<noteq> q" using Suc.prems(2) q(3) last_in_set by fastforce
    then have l: "(l(last ps := Some p)) q = l q" by simp
    have ih: "pkts (l(last ps := Some p)) (Suc k) (l q) = Some (ps @ [p])"
      by (rule Suc.IH [OF q(2)]) (use Suc.prems q(3) False in auto)
    have "last xs = last ps" using q(3) False by simp
    then show ?thesis unfolding pkts.simps(2) [of _ "Suc k"] q(1) by (simp only: l ih q(3) Option.bind.simps append_Cons)
  qed
qed simp

lemma demo_ef_laws: "ef_laws (demo_ef pay)"
proof -
  have "holds l' c' (xs @ [p]) \<and> (\<forall>q. q \<notin> set xs \<longrightarrow> l' q = l q)"
    if h: "holds l c xs" "p \<notin> set xs" and e: "demo_append l c p = (l', c')" for l c xs p l' c'
  proof (cases "xs = []")
    case True
    then show ?thesis using h e by (auto simp: holds_def demo_append_def)
  next
    case False
    then have "l' = l(last xs := Some p)" "c' = c\<lparr>chain_tail := Some p, chain_count := chain_count c + 1\<rparr>"
      using h e by (auto simp: holds_def demo_append_def)
    then show ?thesis using h False pkts_snoc [of l "length xs" "chain_head c" xs p] by (auto simp: holds_def)
  qed
  then show ?thesis unfolding ef_laws_def by (auto simp: demo_ef_def chain0_def)
qed

section \<open>Handing on packets\<close>

text \<open>C34. Handing on a limited number of packets. When the chain has more packets than the other side has room
  for, \<open>ngx_http_ef_getn\<close> hands on the first \<open>token\<close> packets, but the packet behind them is in neither
  chain afterwards, and the count of the rest says one packet more than there is. When there is room for all
  packets, all of them are handed on and none is left.\<close>

theorem ef_getn_loses_packet:
  assumes "ef_laws ef" "holds l src xs"
  shows "if token < length xs then \<exists>l' dst' src'.
      ngx_http_ef_getn ef l (ef_buf_init_chain ef) src token = Some (l', dst', src')
      \<and> holds l' dst' (take token xs)
      \<and> pkts l' (length xs - token - 1) (chain_head src') = Some (drop (Suc token) xs)
      \<and> xs ! token \<notin> set (take token xs) \<union> set (drop (Suc token) xs)
      \<and> chain_count src' = length (drop (Suc token) xs) + 1
    else ngx_http_ef_getn ef l (ef_buf_init_chain ef) src token = Some (l, src, ef_buf_init_chain ef)"
proof (cases "token < length xs")
  case t: True
  have "distinct xs" using assms(2) by (simp add: holds_def)
  then have "xs ! token \<notin> set (take token xs) \<union> set (drop (Suc token) xs)"
    using id_take_nth_drop [OF t] by (metis Un_iff disjoint_insert(2) distinct.simps(2) distinct_append list.set(2))
  then show ?thesis using ef_getn_ok(1) [OF assms t] t by fastforce
qed (use ef_getn_ok(2) [OF assms] in simp)

theorem ef_getn_loses_packet_witness:
  "\<exists>l' dst' src'. ngx_http_ef_getn (demo_ef (\<lambda>_. [])) (\<lambda>p. Some (p + 1)) chain0
        \<lparr>chain_head = Some 0, chain_tail = Some 2, chain_count = 3\<rparr> 1 = Some (l', dst', src')
     \<and> holds l' dst' [0] \<and> pkts l' 1 (chain_head src') = Some [2] \<and> chain_count src' = 2"
proof -
  have "holds (\<lambda>p. Some (p + 1)) \<lparr>chain_head = Some 0, chain_tail = Some 2, chain_count = 3\<rparr> [0, 1, 2]"
    by (simp add: holds_def numeral_eq_Suc)
  from ef_getn_loses_packet [OF demo_ef_laws this, of 1] show ?thesis
    by (simp add: demo_ef_def numeral_eq_Suc)
qed

section \<open>The loops of the parsers\<close>

text \<open>C18. The loops of both parsers end. From every state, the loop over the states of a request makes at most
  two rounds and the one over the states of a response at most three rounds before the round that ends it,
  and the result of the loop is the result of that round.\<close>

theorem parser_loops_end:
  "(\<exists>j s'. j \<le> 2 \<and> ((\<lambda>a b. request_step tree te ef h k token a = Some (b, True)) ^^ j) (con, out, st) s'
     \<and> (request_step tree te ef h k token s' = None \<and> request_loop tree te ef h k token (con, out, st) = None
        \<or> (\<exists>r. request_step tree te ef h k token s' = Some (r, False)
             \<and> request_loop tree te ef h k token (con, out, st) = Some r)))
   \<and> (\<exists>j s'. j \<le> 3 \<and> ((\<lambda>a b. response_step te ef h k token n a = Some (b, True)) ^^ j) (con, out, st) s'
     \<and> (response_step te ef h k token n s' = None \<and> response_loop te ef h k token n (con, out, st) = None
        \<or> (\<exists>r. response_step te ef h k token n s' = Some (r, False)
             \<and> response_loop te ef h k token n (con, out, st) = Some r)))"
proof
  obtain j s' where "j \<le> req_rank con" "((\<lambda>a b. request_step tree te ef h k token a = Some (b, True)) ^^ j) (con, out, st) s'"
    "request_step tree te ef h k token s' = None \<and> request_loop tree te ef h k token (con, out, st) = None
        \<or> (\<exists>r. request_step tree te ef h k token s' = Some (r, False)
             \<and> request_loop tree te ef h k token (con, out, st) = Some r)"
    using req.loop_ends [of "(con, out, st)" tree te ef h k token] unfolding prod.case by blast
  moreover have "req_rank con \<le> 2" by (simp add: req_rank_def)
  ultimately show "\<exists>j s'. j \<le> 2 \<and> ((\<lambda>a b. request_step tree te ef h k token a = Some (b, True)) ^^ j) (con, out, st) s'
     \<and> (request_step tree te ef h k token s' = None \<and> request_loop tree te ef h k token (con, out, st) = None
        \<or> (\<exists>r. request_step tree te ef h k token s' = Some (r, False)
             \<and> request_loop tree te ef h k token (con, out, st) = Some r))" using order_trans by blast
  obtain j s' where "j \<le> res_rank con" "((\<lambda>a b. response_step te ef h k token n a = Some (b, True)) ^^ j) (con, out, st) s'"
    "response_step te ef h k token n s' = None \<and> response_loop te ef h k token n (con, out, st) = None
        \<or> (\<exists>r. response_step te ef h k token n s' = Some (r, False)
             \<and> response_loop te ef h k token n (con, out, st) = Some r)"
    using res.loop_ends [of "(con, out, st)" te ef h k token n] unfolding prod.case by blast
  moreover have "res_rank con \<le> 3" by (simp add: res_rank_def)
  ultimately show "\<exists>j s'. j \<le> 3 \<and> ((\<lambda>a b. response_step te ef h k token n a = Some (b, True)) ^^ j) (con, out, st) s'
     \<and> (response_step te ef h k token n s' = None \<and> response_loop te ef h k token n (con, out, st) = None
        \<or> (\<exists>r. response_step te ef h k token n s' = Some (r, False)
             \<and> response_loop te ef h k token n (con, out, st) = Some r))" using order_trans by blast
qed

section \<open>Long headers\<close>

definition stalled :: "http_sp_connection \<Rightarrow> bool" where
  "stalled con \<longleftrightarrow> req_state con = HTTP_SP_STATE_INIT_DATA
     \<and> length (current_request_header_buf con) = HTTP_SP_REQ_HEAD_LEN_MAX
     \<and> parse_req_pos con = HTTP_SP_REQ_HEAD_LEN_MAX - 1
     \<and> c_strstr (c_str (sl (current_request_header_buf con) 0 (HTTP_SP_REQ_HEAD_LEN_MAX - 1))) http_end = None"

lemma c_str_terminated: "n < length b \<Longrightarrow> b ! n = NUL \<Longrightarrow> c_str b = c_str (sl b 0 n)"
proof -
  assume n: "n < length b" "b ! n = NUL"
  then have "b = take n b @ NUL # drop (Suc n) b" using id_take_nth_drop [of n b] by simp
  then have "takeWhile (\<lambda>c. c \<noteq> NUL) b = takeWhile (\<lambda>c. c \<noteq> NUL) (take n b)"
    using takeWhile_tail [of "\<lambda>c. c \<noteq> NUL" NUL "take n b" "drop (Suc n) b"] by simp
  then show ?thesis by (simp add: c_str_def sl_def)
qed

text \<open>The text in a header buffer after the new packets have been gathered.\<close>

lemma collect_text:
  fixes ef :: ef_lib
  assumes "pkts l k efb = Some ps" "length b = mx" "pos \<le> mx - 1" "0 < mx"
  defines "t \<equiv> sl b 0 pos @ take (mx - 1 - pos) (payload ef ps)"
  obtains b1 b2 where "collect ef l mx k efb b pos = Some (b1, min (mx - 1) (pos + length (payload ef ps)))"
    "wr b1 (min (mx - 1) (pos + length (payload ef ps))) NUL = Some b2" "length b2 = mx"
    "sl b2 0 (min (mx - 1) (pos + length (payload ef ps))) = t" "str_at b2 0 = Some (c_str t)"
proof -
  define m where "m = min (mx - 1) (pos + length (payload ef ps))"
  have m: "m < mx" using assms(4) by (simp add: m_def)
  obtain b1 where b1: "collect ef l mx k efb b pos = Some (b1, m)" "length b1 = mx" "sl b1 0 m = t"
    using collect_spec [OF assms(1-4), of ef] by (auto simp: m_def t_def)
  define b2 where "b2 = b1[m := NUL]"
  have b2: "wr b1 m NUL = Some b2" "length b2 = mx" "sl b2 0 m = t" "b2 ! m = NUL"
    using b1 m by (simp_all add: b2_def wr_def)
  then have "NUL \<in> set b2" using m by (metis nth_mem)
  then have "str_at b2 0 = Some (c_str t)" using c_str_terminated [of m b2] b2 m by (simp add: str_at_def)
  then show ?thesis using that b1(1) b2 by (simp add: m_def)
qed

lemma request_collect_stalls:
  assumes st: "stalled con" and p: "pkts l k h = Some ps"
  shows "\<exists>con'. request_collect ef l h k con = Some (con', False) \<and> stalled con'
    \<and> request_pkt_chain con' = request_pkt_chain con"
proof -
  define mx where "mx = HTTP_SP_REQ_HEAD_LEN_MAX"
  define b where "b = current_request_header_buf con"
  have mx: "0 < mx" "length b = mx" "parse_req_pos con = mx - 1" "req_state con = HTTP_SP_STATE_INIT_DATA"
    "c_strstr (c_str (sl b 0 (mx - 1))) http_end = None"
    using st by (simp_all add: stalled_def mx_def b_def HTTP_SP_REQ_HEAD_LEN_MAX_def)
  obtain b1 b2 where b: "collect ef l mx k h b (mx - 1) = Some (b1, mx - 1)" "wr b1 (mx - 1) NUL = Some b2" "length b2 = mx"
    "sl b2 0 (mx - 1) = sl b 0 (mx - 1)" "str_at b2 0 = Some (c_str (sl b 0 (mx - 1)))"
    using collect_text [OF p mx(2) _ mx(1), of "mx - 1" ef] by auto
  have ns: "HTTP_SP_STATE_INIT_DATA \<noteq> HTTP_SP_STATE_INIT" by (simp add: http_sp_state_defs)
  define con' where "con' = con\<lparr>current_request_header_buf := b2, parse_req_pos := mx - 1, req_state := HTTP_SP_STATE_INIT_DATA\<rparr>"
  have "request_collect ef l h k con = Some (con', False)"
    unfolding request_collect_def Let_def mx_def [symmetric] mx(4) using ns
    by (simp add: mx(3,5) [simplified] b_def [symmetric] b [simplified] con'_def)
  moreover have "stalled con'" using b mx(5) by (simp add: stalled_def con'_def mx_def)
  ultimately show ?thesis by (simp add: con'_def)
qed

definition demo_te :: tp_env where
  "demo_te = \<lparr>write_queue_free_space = (\<lambda>_. 1), r_ef_buf_alloc = (\<lambda>_. True), tp_pkt_room = 1500,
     tp_ip_text = (\<lambda>_. ''1.2.3.4''), tp_HZ = 100, tp_str_addr = (\<lambda>_. 0), tp_mime_tree = NULL,
     tp_file_stack = replicate 600 NUL, tp_para_stack = replicate 600 NUL\<rparr>"

text \<open>C35. A long request header stalls the requests of its connection. When the request buffer is full and holds no end of the
  header, a call of \<open>ngx_http_snooping_request_parse\<close> keeps the new packets behind the held ones, hands on
  nothing, sends no event and leaves the connection stalled as it was, so the next such call does the same:
  the check for a full buffer asks for a position that is never reached (\<open>>\<close> where the parser of responses has
  \<open>>=\<close>). This is about calls for requests alone: a response on the connection sets \<open>req_state\<close> and
  \<open>parse_req_pos\<close> back (\<open>ngx_http_snooping_response_parse\<close>) and ends the stall.\<close>

theorem long_request_header_stalls:
  assumes "stalled con" "ef_buf_chain2chain ef (sp_links st) (request_pkt_chain con) efb_chain = (l, chain)"
    and "pkts l (chain_count efb_chain) (chain_head efb_chain) = Some ps"
  shows "\<exists>con' st'. ngx_http_snooping_request_parse tree te ef con efb_chain token st = Some (con', ef_buf_init_chain ef, st')
    \<and> stalled con' \<and> request_pkt_chain con' = chain \<and> sp_events st' = sp_events st"
proof -
  define con1 where "con1 = con\<lparr>req_rec_pkt := req_rec_pkt con + of_nat (chain_count efb_chain), request_pkt_chain := chain\<rparr>"
  have con1: "stalled con1" "request_pkt_chain con1 = chain" using assms(1) by (simp_all add: con1_def stalled_def)
  obtain con2 where c: "request_collect ef l (chain_head efb_chain) (chain_count efb_chain) con1 = Some (con2, False)"
    "stalled con2" "request_pkt_chain con2 = chain"
    using request_collect_stalls [OF con1(1) assms(3), of ef] con1(2) by auto
  have "req_state con1 = HTTP_SP_STATE_INIT_DATA" using con1(1) by (simp add: stalled_def)
  then have "request_loop tree te ef (chain_head efb_chain) (chain_count efb_chain) token
      (con1, ef_buf_init_chain ef, st\<lparr>sp_links := l\<rparr>) = Some (con2, ef_buf_init_chain ef, st\<lparr>sp_links := l\<rparr>)"
    using c by (subst request_loop.simps) (simp add: request_step_def)
  moreover have "stalled (con2\<lparr>req_snd_pkt := x\<rparr>)" for x using c(2) by (simp add: stalled_def)
  ultimately show ?thesis
    unfolding ngx_http_snooping_request_parse_def assms(2) Let_def prod.case con1_def [symmetric]
    using con1 c(3) by auto
qed

theorem long_request_header_stalls_witness:
  "\<exists>con' st'. ngx_http_snooping_request_parse http_cache_host_tree demo_te (demo_ef (\<lambda>_. ''abc''))
       (con0\<lparr>req_state := HTTP_SP_STATE_INIT_DATA, parse_req_pos := HTTP_SP_REQ_HEAD_LEN_MAX - 1,
             current_request_header_buf := replicate HTTP_SP_REQ_HEAD_LEN_MAX (CHR ''x'')\<rparr>)
       \<lparr>chain_head = Some 0, chain_tail = Some 0, chain_count = 1\<rparr> 5 demo_st = Some (con', chain0, st')
     \<and> stalled con'"
proof -
  define con where "con = con0\<lparr>req_state := HTTP_SP_STATE_INIT_DATA, parse_req_pos := HTTP_SP_REQ_HEAD_LEN_MAX - 1,
             current_request_header_buf := replicate HTTP_SP_REQ_HEAD_LEN_MAX (CHR ''x'')\<rparr>"
  have s: "set (c_str (sl (replicate HTTP_SP_REQ_HEAD_LEN_MAX (CHR ''x'')) 0 (HTTP_SP_REQ_HEAD_LEN_MAX - 1))) \<subseteq> {CHR ''x''}"
    by (auto simp: c_str_def sl_def dest: set_takeWhileD)
  then have "CR \<notin> set (c_str (sl (replicate HTTP_SP_REQ_HEAD_LEN_MAX (CHR ''x'')) 0 (HTTP_SP_REQ_HEAD_LEN_MAX - 1)))"
    by auto
  then have "stalled con" by (simp add: con_def stalled_def c_strstr_None [of CR] http_end_def)
  from long_request_header_stalls [OF this, of "demo_ef (\<lambda>_. ''abc'')" demo_st "\<lparr>chain_head = Some 0, chain_tail = Some 0, chain_count = 1\<rparr>"
      "sp_links demo_st" "\<lparr>chain_head = Some 0, chain_tail = Some 0, chain_count = 1\<rparr>" "[0]" http_cache_host_tree demo_te 5]
  show ?thesis by (auto simp: con_def demo_ef_def con0_def chain0_def numeral_eq_Suc)
qed

text \<open>A long response header is handed on unparsed. The connection waits for the header of a response (state \<open>INIT\<close> with
  nothing gathered yet, or \<open>INIT_DATA\<close> with the first \<open>pos\<close> bytes gathered), the URL is not saved yet, and the other side has
  room for all packets held and new. If the header fills the buffer and its end is not among the
  gathered bytes, the parser gives up: all packets held back so far and the new ones are handed on in order, and the
  connection is in the error state, in which packets pass through.\<close>

theorem long_response_header_passes:
  assumes wf: "length (current_response_header_buf con) = HTTP_SP_RES_HEAD_LEN_MAX" "pos \<le> HTTP_SP_RES_HEAD_LEN_MAX - 1"
    and s: "res_state con = HTTP_SP_STATE_INIT \<and> pos = 0 \<or> res_state con = HTTP_SP_STATE_INIT_DATA \<and> pos = parse_res_pos con"
      "con_url con = Some n" "req_state con \<noteq> HTTP_SP_STATE_REQUEST_HEADER_ERROR"
    and c: "ef_buf_chain2chain ef (sp_links st) (response_pkt_chain con) efb_chain = (l, chain)"
    and p: "pkts l (chain_count efb_chain) (chain_head efb_chain) = Some ps"
    and long: "HTTP_SP_RES_HEAD_LEN_MAX - 1 \<le> pos + length (payload ef ps)"
    and no: "c_strstr (c_str (sl (current_response_header_buf con) 0 pos
        @ take (HTTP_SP_RES_HEAD_LEN_MAX - 1 - pos) (payload ef ps))) http_end = None"
    and ef: "ef_laws ef" "holds l chain xs" "0 < length xs" "length xs \<le> token"
    and rule: "\<not> has_flg HTTP_SNOOPING_FLG_RES_WRITE (url_base (sp_ctx st) n)"
  shows "\<exists>con' st'. ngx_http_snooping_response_parse te ef con efb_chain token st = Some (con', chain, st')
    \<and> res_state con' = HTTP_SP_STATE_REQUEST_HEADER_ERROR \<and> sp_ctx st' = sp_ctx st"
proof -
  define mx where "mx = HTTP_SP_RES_HEAD_LEN_MAX"
  define con1 where "con1 = con\<lparr>res_rec_pkt := res_rec_pkt con + of_nat (chain_count efb_chain), response_pkt_chain := chain\<rparr>"
  define con1' where "con1' = (if res_state con1 = HTTP_SP_STATE_INIT
    then con1\<lparr>parse_res_pos := 0, parse_req_pos := 0, rec_req_data_len := 0, req_data_len := 0,
              req_state := HTTP_SP_STATE_INIT\<rparr> else con1)"
  define st1 where "st1 = st\<lparr>sp_links := l\<rparr>"
  define t where "t = sl (current_response_header_buf con) 0 pos @ take (mx - 1 - pos) (payload ef ps)"
  have mx: "0 < mx" by (simp add: mx_def HTTP_SP_RES_HEAD_LEN_MAX_def)
  have full: "min (mx - 1) (pos + length (payload ef ps)) = mx - 1" using long by (simp add: mx_def)
  obtain b1 b2 where b: "collect ef l mx (chain_count efb_chain) (chain_head efb_chain) (current_response_header_buf con) pos
      = Some (b1, mx - 1)" "wr b1 (mx - 1) NUL = Some b2" "str_at b2 0 = Some (c_str t)"
    using collect_text [OF p wf mx [unfolded mx_def], of ef] unfolding mx_def [symmetric] full t_def by metis
  have ns: "HTTP_SP_STATE_INIT_DATA \<noteq> HTTP_SP_STATE_INIT" by (simp add: http_sp_state_defs)
  have no': "c_strstr (c_str t) http_end = None" using no by (simp add: t_def mx_def)
  define con2 where "con2 = res_error (con1'\<lparr>current_response_header_buf := b2, parse_res_pos := mx - 1\<rparr>)"
  have con1': "current_response_header_buf con1' = current_response_header_buf con" "parse_res_pos con1' = pos"
    "response_pkt_chain con1' = chain"
    using s(1) ns by (auto simp: con1'_def con1_def)
  have col: "response_collect ef l (chain_head efb_chain) (chain_count efb_chain) con1 = Some (con2, True)"
    unfolding response_collect_def Let_def mx_def [symmetric] con1'_def [symmetric] con1' using no'
    by (simp add: b [simplified] con2_def)
  have getn: "ngx_http_ef_getn ef l (ef_buf_init_chain ef) chain token = Some (l, chain, ef_buf_init_chain ef)"
    by (rule ef_getn_ok(2) [OF ef(1,2,4)])
  have c0: "chain_count (ef_buf_init_chain ef) = 0" using ef(1) unfolding ef_laws_def by blast
  have rs: "res_state con1 = HTTP_SP_STATE_INIT \<or> res_state con1 = HTTP_SP_STATE_INIT_DATA" and links: "sp_links st1 = l"
    using s(1) by (auto simp: con1_def st1_def)
  define con3 where "con3 = con2\<lparr>response_pkt_chain := ef_buf_init_chain ef, parse_res_pos := 0\<rparr>"
  have "response_loop te ef (chain_head efb_chain) (chain_count efb_chain) token n (con2, ef_buf_init_chain ef, st1)
      = Some (con3, chain, st1)"
    by (subst response_loop.simps)
      (simp add: response_step_def response_forward_def con2_def con1' con3_def st1_def getn c0 http_sp_state_defs)
  then have loop: "response_loop te ef (chain_head efb_chain) (chain_count efb_chain) token n (con1, ef_buf_init_chain ef, st1)
      = Some (con3, chain, st1)"
    using col rs by (subst response_loop.simps) (simp add: response_step_def links)
  have "0 < chain_count chain" "0 < token" using ef(2-4) by (auto simp: holds_def simp del: length_greater_0_conv)
  then have "ngx_http_snooping_response_parse te ef con efb_chain token st
      = Some (con3\<lparr>res_snd_pkt := res_snd_pkt con3 + of_nat (chain_count chain)\<rparr>, chain, st1)"
    unfolding ngx_http_snooping_response_parse_def c Let_def prod.case con1_def [symmetric] st1_def [symmetric]
    using s(2,3) loop rule by (simp add: con1_def st1_def response_drop_def split: option.splits)
  then show ?thesis by (auto simp: con3_def con2_def st1_def)
qed

theorem long_response_header_passes_witness:
  "\<exists>con' st'. ngx_http_snooping_response_parse demo_te (demo_ef (\<lambda>_. ''abc''))
       (con0\<lparr>res_state := HTTP_SP_STATE_INIT_DATA, parse_res_pos := HTTP_SP_RES_HEAD_LEN_MAX - 2, con_url := Some 0,
             current_response_header_buf := replicate HTTP_SP_RES_HEAD_LEN_MAX (CHR ''x'')\<rparr>)
       \<lparr>chain_head = Some 0, chain_tail = Some 0, chain_count = 1\<rparr> 5
       (demo_st\<lparr>sp_ctx := demo_ctx 0\<rparr>)
     = Some (con', \<lparr>chain_head = Some 0, chain_tail = Some 0, chain_count = 1\<rparr>, st')
     \<and> res_state con' = HTTP_SP_STATE_REQUEST_HEADER_ERROR"
proof -
  define con where "con = con0\<lparr>res_state := HTTP_SP_STATE_INIT_DATA, parse_res_pos := HTTP_SP_RES_HEAD_LEN_MAX - 2,
     con_url := Some 0, current_response_header_buf := replicate HTTP_SP_RES_HEAD_LEN_MAX (CHR ''x'')\<rparr>"
  define ch where "ch = \<lparr>chain_head = Some (0 :: nat), chain_tail = Some 0, chain_count = 1\<rparr>"
  have con: "current_response_header_buf con = replicate HTTP_SP_RES_HEAD_LEN_MAX (CHR ''x'')" "parse_res_pos con = 1022"
    "res_state con = HTTP_SP_STATE_INIT_DATA" "con_url con = Some 0" "req_state con = 0" "response_pkt_chain con = chain0"
    by (simp_all add: con_def con0_def HTTP_SP_RES_HEAD_LEN_MAX_def)
  have set: "CR \<notin> set (sl (replicate HTTP_SP_RES_HEAD_LEN_MAX (CHR ''x'')) 0 1022 @ [CHR ''a''])"
    by (auto simp: sl_def)
  have "c_strstr (c_str (sl (replicate HTTP_SP_RES_HEAD_LEN_MAX (CHR ''x'')) 0 1022 @ [CHR ''a''])) http_end = None"
    by (rule c_strstr_None [of CR]) (use set in \<open>auto simp: http_end_def c_str_def dest: set_takeWhileD\<close>)
  then have no: "c_strstr (c_str (sl (current_response_header_buf con) 0 (parse_res_pos con)
      @ take (HTTP_SP_RES_HEAD_LEN_MAX - 1 - parse_res_pos con) (payload (demo_ef (\<lambda>_. ''abc'')) [0]))) http_end = None"
    unfolding con by (simp add: demo_ef_def HTTP_SP_RES_HEAD_LEN_MAX_def)
  have h: "holds (sp_links demo_st) ch [0]" by (simp add: holds_def ch_def)
  have c: "ef_buf_chain2chain (demo_ef (\<lambda>_. ''abc'')) (sp_links (demo_st\<lparr>sp_ctx := demo_ctx 0\<rparr>)) (response_pkt_chain con) ch
      = (sp_links demo_st, ch)" by (simp add: demo_ef_def con chain0_def)
  have "\<exists>con' st'. ngx_http_snooping_response_parse demo_te (demo_ef (\<lambda>_. ''abc'')) con ch 5 (demo_st\<lparr>sp_ctx := demo_ctx 0\<rparr>)
      = Some (con', ch, st') \<and> res_state con' = HTTP_SP_STATE_REQUEST_HEADER_ERROR
      \<and> sp_ctx st' = sp_ctx (demo_st\<lparr>sp_ctx := demo_ctx 0\<rparr>)"
    by (rule long_response_header_passes [OF _ _ _ con(4) _ c _ _ no demo_ef_laws h])
      (auto simp: con ch_def demo_ef_def demo_ctx_def demo_node_def demo_st_def HTTP_SP_RES_HEAD_LEN_MAX_def http_sp_state_defs
        has_flg_def HTTP_SNOOPING_FLG_RES_WRITE_def HTTP_SNOOPING_FLG_RES_CACHE_def HTTP_SNOOPING_FLG_CACHE_BUF_ALLOC_def)
  then show ?thesis unfolding con_def ch_def by blast
qed

end
