(* ===== verification/SnoopRequest.thy ===== *)
theory SnoopRequest
  imports SnoopHttp
begin

text \<open>
  GET requests on the packet path of \<^verbatim>\<open>http-snooping.c\<close>, from the packets to the answer: gathering and parsing of
  the header, the answer 302 for a saved URL, and the requests that pass.
\<close>

section \<open>A GET request\<close>

text \<open>A GET request whose text is in the new packets of a connection that waits for one.\<close>

definition get_text :: "cstr \<Rightarrow> cstr \<Rightarrow> cstr \<Rightarrow> cstr \<Rightarrow> cstr" where
  "get_text url pre hst post = ''GET '' @ url @ '' '' @ pre @ http_host @ hst @ http_new_line @ post"

definition get_ok :: "cstr \<Rightarrow> cstr \<Rightarrow> cstr \<Rightarrow> cstr \<Rightarrow> bool" where
  "get_ok url pre hst post \<longleftrightarrow> NUL \<notin> set (get_text url pre hst post) \<and> CHR '' '' \<notin> set url
     \<and> length url < HTTP_SP_URL_LEN_MAX \<and> CR \<notin> set hst
     \<and> (\<forall>i < length pre. take (length http_host) (drop i (pre @ http_host)) \<noteq> http_host)
     \<and> length (get_text url pre hst post) \<le> HTTP_SP_REQ_HEAD_LEN_MAX - 1
     \<and> c_strstr (get_text url pre hst post) http_end \<noteq> None"

lemma get_ok_parts:
  assumes "get_ok url pre hst post"
  shows "NUL \<notin> set (url @ pre @ hst @ post)" "CHR '' '' \<notin> set url" "length url < HTTP_SP_URL_LEN_MAX" "CR \<notin> set hst"
    "\<And>i. i < length pre \<Longrightarrow> take (length http_host) (drop i (pre @ http_host)) \<noteq> http_host"
  using assms by (auto simp: get_ok_def get_text_def)

lemma request_collect_get:
  assumes ok: "get_ok url pre hst post" and p: "pkts l k h = Some ps" "payload ef ps = get_text url pre hst post"
    and con: "req_state con = HTTP_SP_STATE_INIT" "length (current_request_header_buf con) = HTTP_SP_REQ_HEAD_LEN_MAX"
  obtains rest pos hl where "request_collect ef l h k con = Some (con\<lparr>res_state := HTTP_SP_STATE_INIT, parse_res_pos := 0,
      rec_res_data_len := 0, parse_req_pos := pos, req_data_len := 0,
      current_request_header_buf := get_text url pre hst post @ NUL # rest,
      req_state := HTTP_SP_STATE_REQUEST_HEADER, request_header_len := hl\<rparr>, True)"
proof -
  define t where "t = get_text url pre hst post"
  define mx where "mx = HTTP_SP_REQ_HEAD_LEN_MAX"
  have t: "length t \<le> mx - 1" "NUL \<notin> set t" using ok by (simp_all add: get_ok_def t_def mx_def)
  obtain n where n: "c_strstr t http_end = Some n" using ok by (auto simp: get_ok_def t_def)
  have mx: "0 < mx" "length (current_request_header_buf con) = mx" by (simp_all add: con mx_def HTTP_SP_REQ_HEAD_LEN_MAX_def)
  obtain b1 b2 where b: "collect ef l mx k h (current_request_header_buf con) 0 = Some (b1, length t)"
    "wr b1 (length t) NUL = Some b2" "length b2 = mx" "sl b2 0 (length t) = t" "str_at b2 0 = Some t"
    using collect_text [OF p(1) mx(2) _ mx(1), of 0 ef] t by (auto simp: p(2) t_def [symmetric] c_str_id sl_def)
  have "b2 ! length t = NUL" "length t < length b2" using b(2) by (auto simp: wr_def split: if_splits)
  then have "b2 = t @ NUL # drop (Suc (length t)) b2"
    using b(4) id_take_nth_drop [of "length t" b2] by (simp add: sl_def)
  moreover have "request_collect ef l h k con = Some (con\<lparr>res_state := HTTP_SP_STATE_INIT, parse_res_pos := 0,
      rec_res_data_len := 0, parse_req_pos := length t, req_data_len := 0, current_request_header_buf := b2,
      req_state := HTTP_SP_STATE_REQUEST_HEADER, request_header_len := n + length http_end\<rparr>, True)"
    unfolding request_collect_def Let_def mx_def [symmetric] using con(1) b n by simp
  ultimately show ?thesis using that unfolding t_def by metis
qed

lemma request_header_get:
  assumes ok: "get_ok url pre hst post"
    and b: "current_request_header_buf con = get_text url pre hst post @ NUL # rest"
  obtains o1 o2 where "request_header tree te ef con st
      = request_get tree te ef (con\<lparr>req_method := HTTP_SP_METHOD_GET, res_url := (o1, length url), server_name := (o2, length hst)\<rparr>) st"
    "mem_read (current_request_header_buf con) o1 (length url) = Some url"
    "mem_read (current_request_header_buf con) o2 (length hst) = Some hst"
proof -
  define o2 where "o2 = 4 + length url + 1 + length pre + length http_host"
  note parts = get_ok_parts [OF ok]
  have line: "request_line con = Some (con\<lparr>req_method := HTTP_SP_METHOD_GET, res_url := (4, length url),
      server_name := (o2, length hst)\<rparr>, Some (o2 + length hst + length http_new_line))"
    unfolding o2_def
    by (rule request_line_get_ok [where pre = pre and post = post and rest = rest])
      (use b parts in \<open>auto simp: get_text_def\<close>)
  have "mem_read (current_request_header_buf con) 4 (length url) = Some url"
    unfolding b get_text_def mem_read_def by (simp add: numeral_eq_Suc)
  moreover have "mem_read (current_request_header_buf con) o2 (length hst) = Some hst"
    unfolding b get_text_def mem_read_def o2_def by (simp add: numeral_eq_Suc)
  ultimately show ?thesis using that line by (simp add: request_header_def)
qed

text \<open>The first two rounds of the loop on a GET request: what is left is \<open>request_get\<close> on the URL and the
  host of the request, and one more round.\<close>

lemma get_request_loop:
  assumes ok: "get_ok url pre hst post" and p: "pkts (sp_links st) k h = Some ps" "payload ef ps = get_text url pre hst post"
    and con: "req_state con = HTTP_SP_STATE_INIT" "length (current_request_header_buf con) = HTTP_SP_REQ_HEAD_LEN_MAX"
  obtains con2 where "request_loop tree te ef h k token (con, out, st)
      = do { (con3, st3) \<leftarrow> request_get tree te ef con2 st; request_loop tree te ef h k token (con3, out, st3) }"
    "mem_read (current_request_header_buf con2) (fst (server_name con2)) (snd (server_name con2)) = Some hst"
    "mem_read (current_request_header_buf con2) (fst (res_url con2)) (snd (res_url con2)) = Some url"
    "post_fix con2 = post_fix con" "local_server_addr con2 = local_server_addr con" "client_addr con2 = client_addr con"
    "request_pkt_chain con2 = request_pkt_chain con"
proof -
  obtain rest pos hl where c0: "request_collect ef (sp_links st) h k con = Some (con\<lparr>res_state := HTTP_SP_STATE_INIT, parse_res_pos := 0,
      rec_res_data_len := 0, parse_req_pos := pos, req_data_len := 0,
      current_request_header_buf := get_text url pre hst post @ NUL # rest,
      req_state := HTTP_SP_STATE_REQUEST_HEADER, request_header_len := hl\<rparr>, True)" (is "_ = Some (?con1, True)")
    by (rule request_collect_get [OF ok p con])
  define con1 where "con1 = ?con1"
  have c1: "request_collect ef (sp_links st) h k con = Some (con1, True)" using c0 by (simp only: con1_def)
  have 1: "request_loop tree te ef h k token (con, out, st) = request_loop tree te ef h k token (con1, out, st)"
    using con(1) c1 by (subst request_loop.simps) (simp add: request_step_def)
  have b: "current_request_header_buf con1 = get_text url pre hst post @ NUL # rest"
    and s: "req_state con1 = HTTP_SP_STATE_REQUEST_HEADER" by (simp_all add: con1_def)
  obtain o1 o2 con2 where con2: "con2 = con1\<lparr>req_method := HTTP_SP_METHOD_GET, res_url := (o1, length url), server_name := (o2, length hst)\<rparr>"
    and 2: "request_header tree te ef con1 st = request_get tree te ef con2 st"
    and m: "mem_read (current_request_header_buf con1) o1 (length url) = Some url"
      "mem_read (current_request_header_buf con1) o2 (length hst) = Some hst"
    using request_header_get [OF ok b, of tree te ef st] by blast
  have "request_loop tree te ef h k token (con1, out, st)
      = do { (con3, st3) \<leftarrow> request_header tree te ef con1 st; request_loop tree te ef h k token (con3, out, st3) }"
    using s by (subst request_loop.simps) (simp add: request_step_def http_sp_state_defs split: bind_splits prod.splits)
  with 1 2 m show ?thesis by (intro that [of con2]) (simp_all add: con2 con1_def)
qed

lemma request_get_record:
  assumes "mem_read (current_request_header_buf con) (fst (server_name con)) (snd (server_name con)) = Some hst"
    and "mem_read (current_request_header_buf con) (fst (res_url con)) (snd (res_url con)) = Some url"
    and "ngx_http_snooping_url_record tree (sp_ctx st) hst url (post_fix con) = Some (sp_url, pf, ctx1)"
  shows "request_get tree te ef con st = do {
    (con2, st2) \<leftarrow> (case sp_url of None \<Rightarrow> Some (con\<lparr>con_url := None, post_fix := pf\<rparr>, st\<lparr>sp_ctx := ctx1\<rparr>)
      | Some n \<Rightarrow> do {
          r \<leftarrow> pcache_rule (url_base ctx1 n);
          if cache_flg r AND HTTP_CACHE_URL_FORBIDEN \<noteq> 0
          then ngx_http_snooping_url_forbidden te ef (con\<lparr>con_url := Some n, post_fix := pf\<rparr>) (st\<lparr>sp_ctx := ctx1\<rparr>)
          else if has_flg HTTP_SNOOPING_FLG_RES_WRITE (url_base ctx1 n) \<or> cache_flg r AND HTTP_CACHE_URL_HOMEPAGE_POLL \<noteq> 0
          then ngx_http_snooping_url_redirect te ef (con\<lparr>con_url := Some n, post_fix := pf\<rparr>) (st\<lparr>sp_ctx := ctx1\<rparr>)
          else Some (con\<lparr>con_url := Some n, post_fix := pf\<rparr>, st\<lparr>sp_ctx := ctx1\<rparr>) });
    Some (con2\<lparr>req_state := HTTP_SP_STATE_DONE\<rparr>, st2) }"
  using assms by (cases sp_url) (simp_all add: request_get_def Let_def)

lemma request_loop_done:
  assumes "req_state con = HTTP_SP_STATE_DONE"
  shows "request_loop tree te ef h k token (con, out, st) = request_forward ef token con out st"
  using assms by (subst request_loop.simps) (simp add: request_step_def http_sp_state_defs split: bind_splits)

lemma request_forward_empty:
  assumes "ef_laws ef" "request_pkt_chain con = ef_buf_init_chain ef"
  shows "request_forward ef token con (ef_buf_init_chain ef) st = Some (con, ef_buf_init_chain ef, st)"
proof -
  have 0: "chain_count (ef_buf_init_chain ef) = 0" using assms(1) unfolding ef_laws_def by blast
  then have "holds (sp_links st) (ef_buf_init_chain ef) []" by (simp add: holds_def)
  from ef_getn_ok(2) [OF assms(1) this, of token] assms(2) 0 show ?thesis
    by (simp add: request_forward_def)
qed

text \<open>The location line of the answer for a saved URL.\<close>

definition redirect_answer :: "tp_env \<Rightarrow> http_cache_url \<Rightarrow> http_snooping_url \<Rightarrow> u32 \<Rightarrow> cstr \<Rightarrow> cstr \<Rightarrow> cstr" where
  "redirect_answer te r v local url name =
     http_redirect_302_str
     @ (if cache_flg r AND HTTP_CACHE_URL_CON_CLOSE \<noteq> 0 then ''Connection: close'' else ''Connection: Keep-Alive'') @ [CR, LF]
     @ ''Location: http://'' @ tp_ip_text te (if redirect_addr v \<noteq> 0 then redirect_addr v else local) @ '':8080/'' @ name
     @ (if cache_flg r AND HTTP_CACHE_URL_REDIRECT_PARA \<noteq> 0 then dropWhile (\<lambda>c. c \<noteq> CHR ''?'') url else [])
     @ [CR, LF, CR, LF]"

lemma redirect_ok:
  assumes v: "con_url con = Some n" "pcache_rule (url_base (sp_ctx st) n) = Some r" "cache_flg r AND HTTP_CACHE_URL_HOMEPAGE_POLL = 0"
    and te: "write_queue_free_space te (sp_events st) \<noteq> 0" "r_ef_buf_alloc te (sp_events st)"
    and m: "mem_read (current_request_header_buf con) (fst (res_url con)) (snd (res_url con)) = Some url"
    and f: "redirect_file te (url_base (sp_ctx st) n) = Some name"
    and room: "length (redirect_answer te r (url_base (sp_ctx st) n) (local_server_addr con) url name) \<le> tp_pkt_room te"
  shows "ngx_http_snooping_url_redirect te ef con st = Some (drop_request ef con
    (emit (EvSendmsg (redirect_answer te r (url_base (sp_ctx st) n) (local_server_addr con) url name)) st))"
proof -
  define v where "v = url_base (sp_ctx st) n"
  have "redirect_text te r v con = Some (redirect_answer te r v (local_server_addr con) url name)"
    unfolding redirect_text_def redirect_answer_def Let_def using v(3) m f
    by (simp add: v_def http_con_str_def)
  then show ?thesis using v te room
    by (simp add: ngx_http_snooping_url_redirect_def Let_def v_def)
qed

text \<open>C3. A saved URL is answered by the program itself. A GET request for a URL that is recorded and whose
  file is saved is not handed on: the client gets the answer 302, whose location is the local file on port
  8080 (with the parameters of the URL if the rule asks for them), and the packets of the request are freed.\<close>

theorem saved_url_redirected:
  assumes ok: "get_ok url pre hst post"
    and con: "req_state con = HTTP_SP_STATE_INIT" "length (current_request_header_buf con) = HTTP_SP_REQ_HEAD_LEN_MAX"
    and c: "ef_buf_chain2chain ef (sp_links st) (request_pkt_chain con) efb_chain = (l, chain)"
    and p: "pkts l (chain_count efb_chain) (chain_head efb_chain) = Some ps" "payload ef ps = get_text url pre hst post"
    and ef: "ef_laws ef" "0 < chain_count chain" "0 < token"
    and rec: "ngx_http_snooping_url_record tree (sp_ctx st) hst url (post_fix con) = Some (Some n, pf, ctx1)"
    and v: "pcache_rule (url_base ctx1 n) = Some r" "cache_flg r AND HTTP_CACHE_URL_FORBIDEN = 0"
      "cache_flg r AND HTTP_CACHE_URL_HOMEPAGE_POLL = 0" "has_flg HTTP_SNOOPING_FLG_RES_WRITE (url_base ctx1 n)"
    and te: "write_queue_free_space te (sp_events st) \<noteq> 0" "r_ef_buf_alloc te (sp_events st)"
    and f: "redirect_file te (url_base ctx1 n) = Some name"
    and room: "length (redirect_answer te r (url_base ctx1 n) (local_server_addr con) url name) \<le> tp_pkt_room te"
  shows "\<exists>con' st'. ngx_http_snooping_request_parse tree te ef con efb_chain token st = Some (con', ef_buf_init_chain ef, st')
    \<and> req_state con' = HTTP_SP_STATE_DONE \<and> request_pkt_chain con' = ef_buf_init_chain ef
    \<and> sp_events st' = sp_events st
        @ [EvSendmsg (redirect_answer te r (url_base ctx1 n) (local_server_addr con) url name), EvFree chain]"
proof -
  define con1 where "con1 = con\<lparr>req_rec_pkt := req_rec_pkt con + of_nat (chain_count efb_chain), request_pkt_chain := chain\<rparr>"
  define st1 where "st1 = st\<lparr>sp_links := l\<rparr>"
  define ans where "ans = redirect_answer te r (url_base ctx1 n) (local_server_addr con) url name"
  have p1: "pkts (sp_links st1) (chain_count efb_chain) (chain_head efb_chain) = Some ps" using p(1) by (simp add: st1_def)
  have i1: "req_state con1 = HTTP_SP_STATE_INIT" "length (current_request_header_buf con1) = HTTP_SP_REQ_HEAD_LEN_MAX"
    using con by (simp_all add: con1_def)
  have k1: "post_fix con1 = post_fix con" "local_server_addr con1 = local_server_addr con" "request_pkt_chain con1 = chain"
    by (simp_all add: con1_def)
  obtain con2 where loop: "request_loop tree te ef (chain_head efb_chain) (chain_count efb_chain) token (con1, ef_buf_init_chain ef, st1)
      = do { (con3, st3) \<leftarrow> request_get tree te ef con2 st1;
             request_loop tree te ef (chain_head efb_chain) (chain_count efb_chain) token (con3, ef_buf_init_chain ef, st3) }"
    and m: "mem_read (current_request_header_buf con2) (fst (server_name con2)) (snd (server_name con2)) = Some hst"
      "mem_read (current_request_header_buf con2) (fst (res_url con2)) (snd (res_url con2)) = Some url"
    and k: "post_fix con2 = post_fix con" "local_server_addr con2 = local_server_addr con" "request_pkt_chain con2 = chain"
    using get_request_loop [OF ok p1 p(2) i1, of tree te token "ef_buf_init_chain ef"] k1 by metis
  define con3 where "con3 = con2\<lparr>con_url := Some n, post_fix := pf\<rparr>"
  define st2 where "st2 = st1\<lparr>sp_ctx := ctx1\<rparr>"
  have red: "ngx_http_snooping_url_redirect te ef con3 st2 = Some (drop_request ef con3 (emit (EvSendmsg ans) st2))"
    unfolding ans_def using redirect_ok [of con3 n st2 r te url name ef] v(1,3) te m(2) f room k(2)
    by (simp add: con3_def st2_def st1_def)
  have rec1: "ngx_http_snooping_url_record tree (sp_ctx st1) hst url (post_fix con2) = Some (Some n, pf, ctx1)"
    using rec k(1) by (simp add: st1_def)
  define con4 where "con4 = con3\<lparr>request_pkt_chain := ef_buf_init_chain ef, req_state := HTTP_SP_STATE_DONE\<rparr>"
  define st3 where "st3 = emit (EvFree chain) (emit (EvSendmsg ans) st2)"
  have "request_get tree te ef con2 st1 = Some (con4, st3)"
    unfolding request_get_record [OF m rec1] using v red k(3)
    by (simp add: con3_def [symmetric] st2_def [symmetric] drop_request_def con4_def st3_def) (simp add: con3_def)
  moreover have "request_loop tree te ef (chain_head efb_chain) (chain_count efb_chain) token (con4, ef_buf_init_chain ef, st3)
      = Some (con4, ef_buf_init_chain ef, st3)"
    by (subst request_loop_done) (simp_all add: con4_def request_forward_empty [OF ef(1)])
  ultimately have "ngx_http_snooping_request_parse tree te ef con efb_chain token st
      = Some (con4\<lparr>req_snd_pkt := req_snd_pkt con4 + of_nat (chain_count (ef_buf_init_chain ef))\<rparr>, ef_buf_init_chain ef, st3)"
    unfolding ngx_http_snooping_request_parse_def c Let_def prod.case con1_def [symmetric] st1_def [symmetric]
    using loop ef(2,3) by simp
  then show ?thesis by (simp add: con4_def st3_def st2_def st1_def emit_def ans_def)
qed

text \<open>An example: a request for a file that is saved.\<close>

definition saved_node :: http_snooping_url where
  "saved_node = (demo_node 0)\<lparr>file_key_name := ''/youku/x.flv'',
     url_flags := HTTP_SNOOPING_FLG_RES OR HTTP_SNOOPING_FLG_RES_WRITE\<rparr>"

definition saved_ctx :: http_snooping_ctx where
  "saved_ctx = (demo_ctx 0)\<lparr>url_base := (\<lambda>_. saved_node), url_hash := (\<lambda>_. [0])\<rparr>"

lemma saved_node_simps:
  "pcache_rule saved_node = Some (http_cache_file ! 0)" "has_flg HTTP_SNOOPING_FLG_RES_WRITE saved_node"
  by (simp_all add: saved_node_def demo_node_def c_simps bit_or_iff)

lemma saved_record:
  "ngx_http_snooping_url_record http_cache_host_tree saved_ctx ''1.2.3.4'' ''/youku/x.flv'' 0
     = Some (Some 0, 0, upd_url saved_ctx 0 (\<lambda>v. v\<lparr>url_access_num := url_access_num v + 1\<rparr>))"
proof -
  have "ngx_http_snooping_url_hash_find saved_ctx ''/youku/x.flv'' = Some 0"
    by (simp add: ngx_http_snooping_url_hash_find_def saved_ctx_def saved_node_def)
  then show ?thesis
    using youku_flv_rule youku_flv_key
    by (simp add: ngx_http_snooping_url_record_def url_record_find_def HTTP_SP_URL_LEN_MAX_def HTTP_SP_LFILE_LEN_MAX_def)
qed

lemma demo_get_ok: "get_ok ''/youku/x.flv'' (''HTTP/1.1'' @ [CR, LF]) ''1.2.3.4'' [CR, LF]"
  by code_simp

lemma demo_redirect_file: "redirect_file demo_te (saved_node\<lparr>url_access_num := x\<rparr>) = Some ''1_2_3_4/youku_x.flv''"
  by code_simp

theorem saved_url_redirected_witness:
  "\<exists>con' st'. ngx_http_snooping_request_parse http_cache_host_tree demo_te
       (demo_ef (\<lambda>_. get_text ''/youku/x.flv'' (''HTTP/1.1'' @ [CR, LF]) ''1.2.3.4'' [CR, LF]))
       (con0\<lparr>req_state := HTTP_SP_STATE_INIT\<rparr>) \<lparr>chain_head = Some 0, chain_tail = Some 0, chain_count = 1\<rparr> 5
       (demo_st\<lparr>sp_ctx := saved_ctx\<rparr>) = Some (con', chain0, st')
     \<and> sp_events st' = [EvSendmsg (http_redirect_302_str @ ''Connection: close'' @ [CR, LF]
           @ ''Location: http://1.2.3.4:8080/1_2_3_4/youku_x.flv'' @ [CR, LF, CR, LF]),
         EvFree \<lparr>chain_head = Some 0, chain_tail = Some 0, chain_count = 1\<rparr>]"
proof -
  define ef where "ef = demo_ef (\<lambda>_. get_text ''/youku/x.flv'' (''HTTP/1.1'' @ [CR, LF]) ''1.2.3.4'' [CR, LF])"
  define ch where "ch = \<lparr>chain_head = Some (0 :: nat), chain_tail = Some 0, chain_count = 1\<rparr>"
  define con where "con = con0\<lparr>req_state := HTTP_SP_STATE_INIT\<rparr>"
  define st where "st = demo_st\<lparr>sp_ctx := saved_ctx\<rparr>"
  define ctx1 where "ctx1 = upd_url saved_ctx 0 (\<lambda>v. v\<lparr>url_access_num := url_access_num v + 1\<rparr>)"
  have v: "url_base ctx1 0 = saved_node\<lparr>url_access_num := url_access_num saved_node + 1\<rparr>"
    by (simp add: ctx1_def upd_url_def saved_ctx_def)
  have ans: "redirect_answer demo_te (http_cache_file ! 0) (url_base ctx1 0) (local_server_addr con) ''/youku/x.flv'' ''1_2_3_4/youku_x.flv''
      = http_redirect_302_str @ ''Connection: close'' @ [CR, LF]
           @ ''Location: http://1.2.3.4:8080/1_2_3_4/youku_x.flv'' @ [CR, LF, CR, LF]"
    by (simp add: redirect_answer_def demo_te_def http_cache_file_def rule_def http_cache_flag_defs)
  have fl: "cache_flg (http_cache_file ! 0) AND HTTP_CACHE_URL_FORBIDEN = 0"
    "cache_flg (http_cache_file ! 0) AND HTTP_CACHE_URL_HOMEPAGE_POLL = 0"
    by (simp_all add: http_cache_file_def rule_def http_cache_flag_defs)
  have w: "pcache_rule (url_base ctx1 0) = Some (http_cache_file ! 0)" "has_flg HTTP_SNOOPING_FLG_RES_WRITE (url_base ctx1 0)"
    using saved_node_simps by (simp_all add: v has_flg_def)
  have c: "ef_buf_chain2chain ef (sp_links st) (request_pkt_chain con) ch = (sp_links demo_st, ch)"
    by (simp add: ef_def demo_ef_def con_def con0_def chain0_def st_def)
  have p: "pkts (sp_links demo_st) (chain_count ch) (chain_head ch) = Some [0]"
    "payload ef [0] = get_text ''/youku/x.flv'' (''HTTP/1.1'' @ [CR, LF]) ''1.2.3.4'' [CR, LF]"
    by (simp_all add: ch_def ef_def demo_ef_def)
  have f: "redirect_file demo_te (url_base ctx1 0) = Some ''1_2_3_4/youku_x.flv''" unfolding v by (rule demo_redirect_file)
  have r: "ngx_http_snooping_url_record http_cache_host_tree (sp_ctx st) ''1.2.3.4'' ''/youku/x.flv'' (post_fix con) = Some (Some 0, 0, ctx1)"
    using saved_record by (simp add: con_def con0_def st_def ctx1_def)
  have "\<exists>con' st'. ngx_http_snooping_request_parse http_cache_host_tree demo_te ef con ch 5 st = Some (con', ef_buf_init_chain ef, st')
      \<and> req_state con' = HTTP_SP_STATE_DONE \<and> request_pkt_chain con' = ef_buf_init_chain ef
      \<and> sp_events st' = sp_events st @ [EvSendmsg (redirect_answer demo_te (http_cache_file ! 0) (url_base ctx1 0)
          (local_server_addr con) ''/youku/x.flv'' ''1_2_3_4/youku_x.flv''), EvFree ch]"
    by (rule saved_url_redirected [OF demo_get_ok _ _ c p _ _ _ r w(1) fl w(2) _ _ f])
      (simp_all add: con_def con0_def ch_def ef_def demo_ef_laws demo_te_def HTTP_SP_REQ_HEAD_LEN_MAX_def ans [unfolded con_def con0_def demo_te_def, simplified] http_redirect_302_str_def)
  moreover have "ef_buf_init_chain ef = chain0" "sp_events st = []" by (simp_all add: ef_def demo_ef_def st_def demo_st_def)
  ultimately show ?thesis unfolding ans unfolding ef_def [symmetric] ch_def [symmetric] con_def [symmetric] st_def [symmetric] by auto
qed

text \<open>C13. Other GET requests pass. A request for a URL that no rule wants recorded, or that is recorded but is
  neither forbidden nor polled nor saved yet, is handed on: all packets held for the request go to the server in order, the
  client gets no answer, and the connection remembers the node of the URL for the response.\<close>

theorem unsaved_url_passes:
  assumes ok: "get_ok url pre hst post"
    and con: "req_state con = HTTP_SP_STATE_INIT" "length (current_request_header_buf con) = HTTP_SP_REQ_HEAD_LEN_MAX"
    and c: "ef_buf_chain2chain ef (sp_links st) (request_pkt_chain con) efb_chain = (l, chain)"
    and p: "pkts l (chain_count efb_chain) (chain_head efb_chain) = Some ps" "payload ef ps = get_text url pre hst post"
    and ef: "ef_laws ef" "holds l chain xs" "0 < length xs" "length xs \<le> token"
    and rec: "ngx_http_snooping_url_record tree (sp_ctx st) hst url (post_fix con) = Some (sp_url, pf, ctx1)"
    and v: "\<And>n. sp_url = Some n \<Longrightarrow> \<exists>r. pcache_rule (url_base ctx1 n) = Some r
      \<and> cache_flg r AND HTTP_CACHE_URL_FORBIDEN = 0 \<and> cache_flg r AND HTTP_CACHE_URL_HOMEPAGE_POLL = 0
      \<and> \<not> has_flg HTTP_SNOOPING_FLG_RES_WRITE (url_base ctx1 n)"
  shows "\<exists>con' st'. ngx_http_snooping_request_parse tree te ef con efb_chain token st = Some (con', chain, st')
    \<and> req_state con' = HTTP_SP_STATE_DONE \<and> con_url con' = sp_url \<and> request_pkt_chain con' = ef_buf_init_chain ef
    \<and> sp_events st' = sp_events st \<and> sp_ctx st' = ctx1"
proof -
  define con1 where "con1 = con\<lparr>req_rec_pkt := req_rec_pkt con + of_nat (chain_count efb_chain), request_pkt_chain := chain\<rparr>"
  define st1 where "st1 = st\<lparr>sp_links := l\<rparr>"
  have p1: "pkts (sp_links st1) (chain_count efb_chain) (chain_head efb_chain) = Some ps" using p(1) by (simp add: st1_def)
  have i1: "req_state con1 = HTTP_SP_STATE_INIT" "length (current_request_header_buf con1) = HTTP_SP_REQ_HEAD_LEN_MAX"
    and k1: "post_fix con1 = post_fix con" "request_pkt_chain con1 = chain"
    using con by (simp_all add: con1_def)
  obtain con2 where loop: "request_loop tree te ef (chain_head efb_chain) (chain_count efb_chain) token (con1, ef_buf_init_chain ef, st1)
      = do { (con3, st3) \<leftarrow> request_get tree te ef con2 st1;
             request_loop tree te ef (chain_head efb_chain) (chain_count efb_chain) token (con3, ef_buf_init_chain ef, st3) }"
    and m: "mem_read (current_request_header_buf con2) (fst (server_name con2)) (snd (server_name con2)) = Some hst"
      "mem_read (current_request_header_buf con2) (fst (res_url con2)) (snd (res_url con2)) = Some url"
    and k: "post_fix con2 = post_fix con" "request_pkt_chain con2 = chain"
    using get_request_loop [OF ok p1 p(2) i1, of tree te token "ef_buf_init_chain ef"] k1 by metis
  have rec1: "ngx_http_snooping_url_record tree (sp_ctx st1) hst url (post_fix con2) = Some (sp_url, pf, ctx1)"
    using rec k(1) by (simp add: st1_def)
  define con3 where "con3 = con2\<lparr>con_url := sp_url, post_fix := pf, req_state := HTTP_SP_STATE_DONE\<rparr>"
  define st2 where "st2 = st1\<lparr>sp_ctx := ctx1\<rparr>"
  have get: "request_get tree te ef con2 st1 = Some (con3, st2)"
    unfolding request_get_record [OF m rec1] using v by (cases sp_url) (auto simp: con3_def st2_def)
  have c0: "chain_count (ef_buf_init_chain ef) = 0" using ef(1) unfolding ef_laws_def by blast
  define con4 where "con4 = con3\<lparr>request_pkt_chain := ef_buf_init_chain ef\<rparr>"
  have "request_loop tree te ef (chain_head efb_chain) (chain_count efb_chain) token (con3, ef_buf_init_chain ef, st2)
      = Some (con4, chain, st2)"
    using ef_getn_ok(2) [OF ef(1,2,4)] k(2) c0
    by (subst request_loop_done) (simp_all add: request_forward_def con4_def con3_def st2_def st1_def)
  moreover have "0 < chain_count chain" "0 < token" using ef(2-4) by (auto simp: holds_def simp del: length_greater_0_conv)
  ultimately have "ngx_http_snooping_request_parse tree te ef con efb_chain token st
      = Some (con4\<lparr>req_snd_pkt := req_snd_pkt con4 + of_nat (chain_count chain)\<rparr>, chain, st2)"
    unfolding ngx_http_snooping_request_parse_def c Let_def prod.case con1_def [symmetric] st1_def [symmetric]
    using loop get by simp
  then show ?thesis by (simp add: con4_def con3_def st2_def st1_def)
qed

theorem unsaved_url_passes_witness:
  "\<exists>con' st'. ngx_http_snooping_request_parse http_cache_host_tree demo_te
       (demo_ef (\<lambda>_. get_text ''/x.html'' (''HTTP/1.1'' @ [CR, LF]) ''1.2.3.4'' [CR, LF]))
       (con0\<lparr>req_state := HTTP_SP_STATE_INIT\<rparr>) \<lparr>chain_head = Some 0, chain_tail = Some 0, chain_count = 1\<rparr> 5 demo_st
     = Some (con', \<lparr>chain_head = Some 0, chain_tail = Some 0, chain_count = 1\<rparr>, st')
     \<and> con_url con' = None \<and> sp_events st' = []"
proof -
  define ef where "ef = demo_ef (\<lambda>_. get_text ''/x.html'' (''HTTP/1.1'' @ [CR, LF]) ''1.2.3.4'' [CR, LF])"
  define ch where "ch = \<lparr>chain_head = Some (0 :: nat), chain_tail = Some 0, chain_count = 1\<rparr>"
  define con where "con = con0\<lparr>req_state := HTTP_SP_STATE_INIT\<rparr>"
  have ok: "get_ok ''/x.html'' (''HTTP/1.1'' @ [CR, LF]) ''1.2.3.4'' [CR, LF]" by code_simp
  have c: "ef_buf_chain2chain ef (sp_links demo_st) (request_pkt_chain con) ch = (sp_links demo_st, ch)"
    by (simp add: ef_def demo_ef_def con_def con0_def chain0_def)
  have p: "pkts (sp_links demo_st) (chain_count ch) (chain_head ch) = Some [0]"
    "payload ef [0] = get_text ''/x.html'' (''HTTP/1.1'' @ [CR, LF]) ''1.2.3.4'' [CR, LF]"
    by (simp_all add: ch_def ef_def demo_ef_def)
  have h: "holds (sp_links demo_st) ch [0]" by (simp add: holds_def ch_def)
  have "ngx_http_url_rule_get http_cache_host_tree ''1.2.3.4/x.html'' = None" by code_simp
  then have r: "ngx_http_snooping_url_record http_cache_host_tree (sp_ctx demo_st) ''1.2.3.4'' ''/x.html'' (post_fix con)
      = Some (None, 0, sp_ctx demo_st)"
    by (simp add: ngx_http_snooping_url_record_def con_def con0_def HTTP_SP_URL_LEN_MAX_def)
  have "\<exists>con' st'. ngx_http_snooping_request_parse http_cache_host_tree demo_te ef con ch 5 demo_st = Some (con', ch, st')
      \<and> req_state con' = HTTP_SP_STATE_DONE \<and> con_url con' = None \<and> request_pkt_chain con' = ef_buf_init_chain ef
      \<and> sp_events st' = sp_events demo_st \<and> sp_ctx st' = sp_ctx demo_st"
    by (rule unsaved_url_passes [OF ok _ _ c p _ h _ _ r])
      (simp_all add: con_def con0_def ef_def demo_ef_laws)
  then show ?thesis by (auto simp: ef_def ch_def con_def demo_st_def)
qed

end
