(* ===== verification/SnoopResponse.thy ===== *)
theory SnoopResponse
  imports SnoopRequest
begin

text \<open>
  Responses on the packet path of \<^verbatim>\<open>http-snooping.c\<close>, from the packets to the data buffers: the header of a
  response, the caching of its body, and the conversion of the content length.
\<close>

section \<open>Fields of a header\<close>

text \<open>The pattern occurs for the first time behind \<open>pre\<close>; the first field of a name has the value \<open>v\<close>.\<close>

definition fresh :: "cstr \<Rightarrow> cstr \<Rightarrow> bool" where
  "fresh pat pre \<longleftrightarrow> (\<forall>i < length pre. take (length pat) (drop i (pre @ pat)) \<noteq> pat)"

definition field :: "cstr \<Rightarrow> cstr \<Rightarrow> cstr \<Rightarrow> bool" where
  "field t name v \<longleftrightarrow> (\<exists>pre post. t = pre @ name @ v @ http_new_line @ post \<and> fresh name pre \<and> CR \<notin> set v)"

lemma c_strstr_fresh: "fresh pat pre \<Longrightarrow> pat \<noteq> [] \<Longrightarrow> c_strstr (pre @ pat @ s) pat = Some (length pre)"
  unfolding fresh_def by (rule c_strstr_append) auto

lemma str_at_drop:
  assumes "str_at b 0 = Some t" "o1 \<le> length t"
  shows "str_at b o1 = Some (drop o1 t)"
proof -
  have t: "t = c_str b" "NUL \<in> set b" using assms(1) by (auto simp: str_at_def split: if_splits)
  obtain ys rest where b: "b = ys @ NUL # rest" "NUL \<notin> set ys" using split_list_first [OF t(2)] by blast
  have "t = c_str ys" unfolding t(1) b(1) c_str_def by (simp add: takeWhile_tail)
  then have ys: "t = ys" using c_str_id [OF b(2)] by simp
  have "NUL \<notin> set (drop o1 t)" using b(2) ys by (auto dest: in_set_dropD)
  from str_at_append [OF this, of "take o1 t" rest] assms(2) show ?thesis
    by (simp add: b(1) ys append_assoc [symmetric] del: append_assoc)
qed

lemma field_find:
  assumes "field t name v" "name \<noteq> []" "str_at b 0 = Some t"
  obtains n where "c_strstr t name = Some n" "str_at b (n + length name) = Some (drop (n + length name) t)"
    "c_strstr (drop (n + length name) t) http_new_line = Some (length v)" "take (length v) (drop (n + length name) t) = v"
proof -
  obtain pre post where t: "t = pre @ name @ v @ http_new_line @ post" "fresh name pre" "CR \<notin> set v"
    using assms(1) by (auto simp: field_def)
  have d: "drop (length pre + length name) t = v @ http_new_line @ post" by (simp add: t(1))
  show ?thesis
  proof (rule that)
    show "c_strstr t name = Some (length pre)" unfolding t(1) by (rule c_strstr_fresh [OF t(2) assms(2)])
    show "str_at b (length pre + length name) = Some (drop (length pre + length name) t)"
      by (rule str_at_drop [OF assms(3)]) (simp add: t(1))
    show "c_strstr (drop (length pre + length name) t) http_new_line = Some (length v)"
      unfolding d by (rule c_strstr_line [OF t(3)])
    show "take (length v) (drop (length pre + length name) t) = v" by (simp add: d)
  qed
qed

section \<open>The header of a response\<close>

text \<open>A header that the parser accepts: status 200, a content type, a content length of at most 20 bytes whose
  value is \<open>n\<close>, no chunked transfer.\<close>

definition response_ok :: "cstr \<Rightarrow> cstr \<Rightarrow> cstr \<Rightarrow> int \<Rightarrow> bool" where
  "response_ok t ty len n \<longleftrightarrow>
     (\<exists>ver post. t = ver @ '' 200 '' @ post \<and> CHR '' '' \<notin> set ver)
     \<and> field t http_content_type ty \<and> field t http_content_len len
     \<and> c_strstr t http_trans_encoding_type_chunked = None \<and> length len \<le> 20 \<and> ngx_atoi len = n \<and> n \<noteq> -1"

lemma response_status_ok:
  assumes "str_at (current_response_header_buf con) 0 = Some (ver @ '' 200 '' @ post)" "CHR '' '' \<notin> set ver"
  shows "response_status_parse con = Some (con\<lparr>response_status := (length ver + 1, 3)\<rparr>, True)"
proof -
  define b where "b = current_response_header_buf con"
  have s1: "str_at b (length ver + 1) = Some (''200 '' @ post)"
    using str_at_drop [OF assms(1), of "length ver + 1"] by (simp add: b_def)
  have i0: "str_index (CHR '' '') (ver @ '' 200 '' @ post) = Some (length ver)"
    using str_index_append [OF assms(2), of "''200 '' @ post"] by simp
  have i1: "str_index (CHR '' '') (''200 '' @ post) = Some 3"
    using str_index_append [of "CHR '' ''" "''200''" post] by simp
  show ?thesis
    unfolding response_status_parse_def b_def [symmetric] Let_def
    using assms(1) [folded b_def] i0 i1 s1 by simp
qed

lemma response_type_ok:
  assumes t: "str_at (current_response_header_buf con) 0 = Some t" and f: "field t http_content_type ty"
  shows "\<exists>ct ctx'. response_type_parse te con n ctx = Some (con\<lparr>content_type := ct\<rparr>, ctx', True)
    \<and> (\<exists>m. ctx' = upd_url ctx n (\<lambda>v. v\<lparr>node_mime := m v\<rparr>) \<and> (post_fix con = 0 \<longrightarrow> m = node_mime))"
proof -
  define b where "b = current_response_header_buf con"
  have "http_content_type \<noteq> []" by (simp add: http_content_type_def)
  from field_find [OF f this t [folded b_def]] obtain k where k: "c_strstr t http_content_type = Some k"
    "str_at b (k + length http_content_type) = Some (drop (k + length http_content_type) t)"
    "c_strstr (drop (k + length http_content_type) t) http_new_line = Some (length ty)" by blast
  obtain ct mime where e: "response_type_parse te con n ctx = Some (con\<lparr>content_type := ct\<rparr>,
      if post_fix con \<noteq> 0 then upd_url ctx n (\<lambda>v. v\<lparr>node_mime := mime\<rparr>) else ctx, True)"
    unfolding response_type_parse_def b_def [symmetric] Let_def
    using t [folded b_def] k by (auto simp: add.commute)
  have "\<exists>m. (if post_fix con \<noteq> 0 then upd_url ctx n (\<lambda>v. v\<lparr>node_mime := mime\<rparr>) else ctx)
      = upd_url ctx n (\<lambda>v. v\<lparr>node_mime := m v\<rparr>) \<and> (post_fix con = 0 \<longrightarrow> m = node_mime)"
    by (rule exI [of _ "if post_fix con = 0 then node_mime else (\<lambda>_. mime)"]) (simp add: upd_url_def)
  with e show ?thesis by blast
qed

lemma response_len_ok:
  assumes t: "str_at (current_response_header_buf con) 0 = Some t" and f: "field t http_content_len len"
    and v: "c_strstr t http_trans_encoding_type_chunked = None" "length len \<le> 20" "ngx_atoi len \<noteq> -1"
  shows "\<exists>cl. response_len_parse con n ctx = Some (con\<lparr>trans_encoding_type := 0, content_len := cl, data_len := ngx_atoi len\<rparr>,
    upd_url ctx n (\<lambda>u. u\<lparr>url_res_len := ngx_atoi len\<rparr>), True)"
proof -
  define b where "b = current_response_header_buf con"
  have "http_content_len \<noteq> []" by (simp add: http_content_len_def)
  from field_find [OF f this t [folded b_def]] obtain k where k: "c_strstr t http_content_len = Some k"
    "str_at b (k + length http_content_len) = Some (drop (k + length http_content_len) t)"
    "c_strstr (drop (k + length http_content_len) t) http_new_line = Some (length len)"
    "take (length len) (drop (k + length http_content_len) t) = len" by blast
  show ?thesis
    unfolding response_len_parse_def b_def [symmetric] Let_def
    using t [folded b_def] k v by (auto simp: add.commute)
qed

text \<open>What the header leaves in the connection and in the node.\<close>

lemma response_header_ok:
  assumes t: "str_at (current_response_header_buf con) 0 = Some t" and ok: "response_ok t ty len k"
  obtains con' ctx' enc m where "response_header te con n ctx = Some (con', ctx')"
    "res_state con' = HTTP_SP_STATE_DATA_LINE" "data_len con' = k" "trans_encoding_type con' = 0" "con_url con' = con_url con"
    "response_header_len con' = response_header_len con" "response_pkt_chain con' = response_pkt_chain con"
    "ctx' = upd_url ctx n (\<lambda>v. set_flg HTTP_SNOOPING_FLG_RES_LFB (v\<lparr>node_mime := m v, url_res_len := k,
       data_start := 0, url_encoding := enc, url_data_len := 0\<rparr>))"
    "response_encoding_parse con = Some enc" "post_fix con = 0 \<longrightarrow> m = node_mime"
proof -
  obtain ver post where t1: "t = ver @ '' 200 '' @ post" "CHR '' '' \<notin> set ver" using ok by (auto simp: response_ok_def)
  define con1 where "con1 = con\<lparr>response_status := (length ver + 1, 3)\<rparr>"
  have 1: "response_status_parse con = Some (con1, True)"
    unfolding con1_def by (rule response_status_ok [OF t [unfolded t1(1)] t1(2)])
  have "str_at (current_response_header_buf con1) 0 = Some t" using t by (simp add: con1_def)
  moreover have "field t http_content_type ty" using ok by (simp add: response_ok_def)
  ultimately obtain ct m where
    2: "response_type_parse te con1 n ctx = Some (con1\<lparr>content_type := ct\<rparr>, upd_url ctx n (\<lambda>v. v\<lparr>node_mime := m v\<rparr>), True)"
    and m1: "post_fix con1 = 0 \<longrightarrow> m = node_mime"
    using response_type_ok [of con1 t ty te n ctx] by blast
  have m: "post_fix con = 0 \<longrightarrow> m = node_mime" using m1 by (simp add: con1_def)
  define con2 where "con2 = con1\<lparr>content_type := ct\<rparr>"
  have "str_at (current_response_header_buf con2) 0 = Some t" using t by (simp add: con1_def con2_def)
  note len = response_len_ok [OF this, of len n "upd_url ctx n (\<lambda>v. v\<lparr>node_mime := m v\<rparr>)"]
  have "field t http_content_len len" "c_strstr t http_trans_encoding_type_chunked = None" "length len \<le> 20" "ngx_atoi len \<noteq> -1"
    "ngx_atoi len = k" using ok by (simp_all add: response_ok_def)
  from len [OF this(1-4)] this(5) obtain cl where
    3: "response_len_parse con2 n (upd_url ctx n (\<lambda>v. v\<lparr>node_mime := m v\<rparr>))
      = Some (con2\<lparr>trans_encoding_type := 0, content_len := cl, data_len := k\<rparr>,
      upd_url (upd_url ctx n (\<lambda>v. v\<lparr>node_mime := m v\<rparr>)) n (\<lambda>u. u\<lparr>url_res_len := k\<rparr>), True)" by auto
  define con3 where "con3 = con2\<lparr>trans_encoding_type := 0, content_len := cl, data_len := k\<rparr>"
  have enc: "response_encoding_parse con3 = response_encoding_parse con"
    by (simp add: response_encoding_parse_def con3_def con2_def con1_def)
  obtain enc where e: "response_encoding_parse con = Some enc" using t by (simp add: response_encoding_parse_def)
  have "response_header te con n ctx = Some (con3\<lparr>encoding_type := enc, res_state := HTTP_SP_STATE_DATA_LINE\<rparr>,
      upd_url ctx n (\<lambda>v. set_flg HTTP_SNOOPING_FLG_RES_LFB (v\<lparr>node_mime := m v, url_res_len := k,
       data_start := 0, url_encoding := enc, url_data_len := 0\<rparr>)))"
    unfolding response_header_def using 1 2 [folded con2_def] 3 [folded con3_def] e enc by (simp add: upd_url_def)
  then show ?thesis by (rule that) (use e m in \<open>simp_all add: con3_def con2_def con1_def\<close>)
qed

section \<open>A whole response\<close>

lemma linked_pkts: "linked l h ps \<Longrightarrow> pkts l (length ps) h = Some ps"
  by (induction ps arbitrary: h) auto

lemma c_str_append: "NUL \<notin> set s \<Longrightarrow> c_str (s @ u) = s @ c_str u"
  unfolding c_str_def by (subst takeWhile_append2) auto

lemma c_strstr_end:
  assumes "fresh http_end h0" "NUL \<notin> set h0" "length (h0 @ http_end) \<le> m"
  shows "c_strstr (c_str (take m (h0 @ http_end @ body))) http_end = Some (length h0)"
proof -
  define s where "s = h0 @ http_end"
  have s: "NUL \<notin> set s" "length s \<le> m" using assms(2,3) by (simp_all add: s_def http_end_def)
  have "c_str (take m (s @ body)) = s @ c_str (take (m - length s) body)" using c_str_append [OF s(1)] s(2) by simp
  then have "c_str (take m (h0 @ http_end @ body)) = h0 @ http_end @ c_str (take (m - length s) body)" by (simp add: s_def)
  moreover have "http_end \<noteq> []" by (simp add: http_end_def)
  ultimately show ?thesis using c_strstr_fresh [OF assms(1)] by metis
qed

lemma response_collect_ok:
  assumes p: "pkts l k h = Some ps" "payload ef ps = h0 @ http_end @ body"
    and con: "res_state con = HTTP_SP_STATE_INIT" "length (current_response_header_buf con) = HTTP_SP_RES_HEAD_LEN_MAX"
    and h0: "fresh http_end h0" "NUL \<notin> set h0" "length (h0 @ http_end) \<le> HTTP_SP_RES_HEAD_LEN_MAX - 1"
  obtains con' where "response_collect ef l h k con = Some (con', True)" "res_state con' = HTTP_SP_STATE_REQUEST_HEADER"
    "response_header_len con' = length (h0 @ http_end)" "con_url con' = con_url con"
    "response_pkt_chain con' = response_pkt_chain con" "post_fix con' = post_fix con"
    "str_at (current_response_header_buf con') 0 = Some (c_str (take (HTTP_SP_RES_HEAD_LEN_MAX - 1) (h0 @ http_end @ body)))"
proof -
  define mx where "mx = HTTP_SP_RES_HEAD_LEN_MAX"
  define t where "t = c_str (take (mx - 1) (h0 @ http_end @ body))"
  define m where "m = min (mx - 1) (0 + length (payload ef ps))"
  have mx: "0 < mx" "length (current_response_header_buf con) = mx" using con(2) by (simp_all add: mx_def HTTP_SP_RES_HEAD_LEN_MAX_def)
  obtain b1 b2 where b: "collect ef l mx k h (current_response_header_buf con) 0 = Some (b1, m)" "wr b1 m NUL = Some b2"
    "length b2 = mx" "sl b2 0 m = sl (current_response_header_buf con) 0 0 @ take (mx - 1 - 0) (payload ef ps)"
    "str_at b2 0 = Some (c_str (sl (current_response_header_buf con) 0 0 @ take (mx - 1 - 0) (payload ef ps)))"
    unfolding m_def by (rule collect_text [OF p(1) mx(2) _ mx(1), of 0 ef]) simp
  have bt: "str_at b2 0 = Some t" using b(5) unfolding p(2) t_def sl_def by simp
  have e: "c_strstr t http_end = Some (length h0)" unfolding t_def mx_def by (rule c_strstr_end [OF h0])
  define con' where "con' = con\<lparr>parse_req_pos := 0, rec_req_data_len := 0, req_data_len := 0,
    req_state := HTTP_SP_STATE_INIT, current_response_header_buf := b2, parse_res_pos := m,
    res_state := HTTP_SP_STATE_REQUEST_HEADER, response_header_len := length h0 + length http_end\<rparr>"
  have "response_collect ef l h k con = Some (con', True)"
    unfolding response_collect_def Let_def mx_def [symmetric] using con(1) b(1,2) bt e by (simp add: con'_def)
  then show ?thesis by (rule that) (use bt in \<open>simp_all add: con'_def t_def mx_def\<close>)
qed

text \<open>The rounds of the loop from the body on.\<close>

lemma response_loop_body:
  assumes con: "res_state con = HTTP_SP_STATE_DATA_LINE" "con_url con = Some n" "trans_encoding_type con = 0" "data_len con = int k"
    and p: "holds (sp_links st) chain ps" "linked (sp_links st) (chain_head chain) ps" "0 < length ps" "length ps \<le> token" "ef_laws ef"
      "response_pkt_chain con = chain"
    and pay: "length (payload ef ps) = response_header_len con + k" "0 < k"
    and v: "pcache_rule (url_base (sp_ctx st) n) = Some r" "cache_flg r AND HTTP_CACHE_URL_SP_WRITE \<noteq> 0"
      "data_start (url_base (sp_ctx st) n) = 0" "url_data_len (url_base (sp_ctx st) n) = 0" "url_res_len (url_base (sp_ctx st) n) = int k"
    and rdy: "bufs_ready (sp_ctx st) k"
  obtains con' ctx' where "response_loop te ef h j token n (con, ef_buf_init_chain ef, st)
      = Some (con', chain, st\<lparr>sp_ctx := upd_url ctx' n (set_flg HTTP_SNOOPING_FLG_RES_CACHE)\<rparr>)"
    "res_state con' = HTTP_SP_STATE_DONE" "stored ctx' n = drop (response_header_len con) (payload ef ps)"
    "data_buf_list (url_base ctx' n) = take (bufs_for k) (data_buf_free_list (sp_ctx st))"
    "data_buf_free_list ctx' = drop (bufs_for k) (data_buf_free_list (sp_ctx st))"
    "url_data_len (url_base ctx' n) = int k" "url_res_len (url_base ctx' n) = int k"
    "has_flg HTTP_SNOOPING_FLG_CACHE_BUF_ALLOC (url_base ctx' n)"
    "has_flg HTTP_SNOOPING_FLG_RES_WRITE (url_base ctx' n) = has_flg HTTP_SNOOPING_FLG_RES_WRITE (url_base (sp_ctx st) n)"
    "url_encoding (url_base ctx' n) = url_encoding (url_base (sp_ctx st) n)"
    "file_id (url_base ctx' n) = file_id (url_base (sp_ctx st) n)"
proof -
  define con1 where "con1 = con\<lparr>response_pkt_chain := ef_buf_init_chain ef\<rparr>"
  have c1: "con_url con1 = Some n" "trans_encoding_type con1 = 0" "data_len con1 = int k" "0 < data_len con1"
    "response_header_len con1 = response_header_len con" using con pay(2) by (simp_all add: con1_def)
  have c0: "chain_count (ef_buf_init_chain ef) = 0" using p(5) unfolding ef_laws_def by blast
  have cc: "chain_count chain \<noteq> 0" using p(1,3) by (auto simp: holds_def)
  have getn: "ngx_http_ef_getn ef (sp_links st) (ef_buf_init_chain ef) chain token = Some (sp_links st, chain, ef_buf_init_chain ef)"
    by (rule ef_getn_ok(2) [OF p(5,1,4)])
  have k: "nat (data_len con1) = k" by (simp add: c1(3))
  have le: "length (payload ef ps) \<le> response_header_len con1 + nat (data_len con1)" by (simp add: k c1(5) pay(1))
  obtain ctx' where ctx': "ngx_http_snooping_cache_buf ef (sp_links st) con1 chain (sp_ctx st)
      = Some (con1\<lparr>res_state := HTTP_SP_STATE_DONE\<rparr>, ctx')"
    "stored ctx' n = drop (response_header_len con) (payload ef ps)" "url_data_len (url_base ctx' n) = int k"
    "has_flg HTTP_SNOOPING_FLG_CACHE_BUF_ALLOC (url_base ctx' n)"
    "has_flg HTTP_SNOOPING_FLG_RES_WRITE (url_base ctx' n) = has_flg HTTP_SNOOPING_FLG_RES_WRITE (url_base (sp_ctx st) n)"
    "url_res_len (url_base ctx' n) = int k" "url_encoding (url_base ctx' n) = url_encoding (url_base (sp_ctx st) n)"
    "data_buf_list (url_base ctx' n) = take (bufs_for k) (data_buf_free_list (sp_ctx st))"
    "data_buf_free_list ctx' = drop (bufs_for k) (data_buf_free_list (sp_ctx st))"
    using cache_buf_first(1) [OF c1(1,2,4) v(3,1,2,4) _ _ cc p(2) le] v(5) rdy unfolding k c1(3,5) by (auto simp: pay(1))
  have id: "file_id (url_base ctx' n) = file_id (url_base (sp_ctx st) n)" by (rule fid.cache_buf_inv [OF refl ctx'(1)])
  define con2 where "con2 = con1\<lparr>res_state := HTTP_SP_STATE_DONE\<rparr>"
  have "response_loop te ef h j token n (con, ef_buf_init_chain ef, st) = response_loop te ef h j token n (con2, chain, st\<lparr>sp_ctx := ctx'\<rparr>)"
    using con(1) p(6) getn ctx'(1) c0
    by (subst response_loop.simps) (simp add: response_step_def con1_def [symmetric] con2_def [symmetric] http_sp_state_defs, simp add: con2_def HTTP_SP_STATE_DONE_def)
  moreover have "response_loop te ef h j token n (con2, chain, st\<lparr>sp_ctx := ctx'\<rparr>)
      = Some (con2, chain, st\<lparr>sp_ctx := upd_url ctx' n (set_flg HTTP_SNOOPING_FLG_RES_CACHE)\<rparr>)"
    by (subst response_loop.simps) (simp add: response_step_def con2_def http_sp_state_defs)
  ultimately have "response_loop te ef h j token n (con, ef_buf_init_chain ef, st)
      = Some (con2, chain, st\<lparr>sp_ctx := upd_url ctx' n (set_flg HTTP_SNOOPING_FLG_RES_CACHE)\<rparr>)" by simp
  then show ?thesis by (rule that) (use ctx' id in \<open>simp_all add: con2_def\<close>)
qed

lemma response_cached:
  assumes con: "res_state con = HTTP_SP_STATE_INIT" "length (current_response_header_buf con) = HTTP_SP_RES_HEAD_LEN_MAX"
      "con_url con = Some n" "req_state con \<noteq> HTTP_SP_STATE_REQUEST_HEADER_ERROR"
    and c: "ef_buf_chain2chain ef (sp_links st) (response_pkt_chain con) efb_chain = (l, efb_chain)"
    and p: "holds l efb_chain ps" "linked l (chain_head efb_chain) ps" "0 < length ps" "length ps \<le> token" "ef_laws ef"
    and pay: "payload ef ps = h0 @ http_end @ body" "length body = k" "0 < k"
    and h0: "fresh http_end h0" "NUL \<notin> set h0" "length (h0 @ http_end) \<le> HTTP_SP_RES_HEAD_LEN_MAX - 1"
    and ok: "response_ok (c_str (take (HTTP_SP_RES_HEAD_LEN_MAX - 1) (h0 @ http_end @ body))) ty len (int k)"
    and v: "pcache_rule (url_base (sp_ctx st) n) = Some r" "cache_flg r AND HTTP_CACHE_URL_SP_WRITE \<noteq> 0"
      "\<not> has_flg HTTP_SNOOPING_FLG_RES_WRITE (url_base (sp_ctx st) n)"
    and rdy: "bufs_ready (sp_ctx st) k"
  shows "\<exists>con' st'. ngx_http_snooping_response_parse te ef con efb_chain token st = Some (con', efb_chain, st')
    \<and> res_state con' = HTTP_SP_STATE_DONE \<and> stored (sp_ctx st') n = body
    \<and> data_buf_list (url_base (sp_ctx st') n) = take (bufs_for k) (data_buf_free_list (sp_ctx st))
    \<and> data_buf_free_list (sp_ctx st') = drop (bufs_for k) (data_buf_free_list (sp_ctx st))
    \<and> url_data_len (url_base (sp_ctx st') n) = int k \<and> url_res_len (url_base (sp_ctx st') n) = int k
    \<and> has_flg HTTP_SNOOPING_FLG_RES_CACHE (url_base (sp_ctx st') n)
    \<and> has_flg HTTP_SNOOPING_FLG_CACHE_BUF_ALLOC (url_base (sp_ctx st') n)
    \<and> \<not> has_flg HTTP_SNOOPING_FLG_RES_WRITE (url_base (sp_ctx st') n)
    \<and> (c_strstr (c_str (take (HTTP_SP_RES_HEAD_LEN_MAX - 1) (h0 @ http_end @ body))) http_content_encoding_type = None
        \<longrightarrow> url_encoding (url_base (sp_ctx st') n) = HTTP_ECODING_TYPE_NONE)
    \<and> (post_fix con = 0 \<longrightarrow> file_id (url_base (sp_ctx st') n) = file_id (url_base (sp_ctx st) n))"
proof -
  define con1 where "con1 = con\<lparr>res_rec_pkt := res_rec_pkt con + of_nat (chain_count efb_chain), response_pkt_chain := efb_chain\<rparr>"
  define st1 where "st1 = st\<lparr>sp_links := l\<rparr>"
  define t where "t = c_str (take (HTTP_SP_RES_HEAD_LEN_MAX - 1) (h0 @ http_end @ body))"
  have st1: "sp_links st1 = l" "sp_ctx st1 = sp_ctx st" by (simp_all add: st1_def)
  have i1: "res_state con1 = HTTP_SP_STATE_INIT" "length (current_response_header_buf con1) = HTTP_SP_RES_HEAD_LEN_MAX"
    "con_url con1 = Some n" "response_pkt_chain con1 = efb_chain" "req_state con1 = req_state con"
    using con by (simp_all add: con1_def)
  have cnt: "chain_count efb_chain = length ps" "0 < token" using p(1,3,4) by (auto simp: holds_def simp del: length_greater_0_conv)
  have pk: "pkts l (length ps) (chain_head efb_chain) = Some ps" using p(1) by (simp add: holds_def)
  obtain con2 where c2: "response_collect ef l (chain_head efb_chain) (length ps) con1 = Some (con2, True)"
    "res_state con2 = HTTP_SP_STATE_REQUEST_HEADER" "response_header_len con2 = length (h0 @ http_end)" "con_url con2 = con_url con1"
    "response_pkt_chain con2 = response_pkt_chain con1" "post_fix con2 = post_fix con1"
    "str_at (current_response_header_buf con2) 0 = Some t"
    unfolding t_def by (rule response_collect_ok [OF pk pay(1) i1(1,2) h0])
  obtain con3 ctx3 enc m where c3: "response_header te con2 n (sp_ctx st1) = Some (con3, ctx3)"
    "res_state con3 = HTTP_SP_STATE_DATA_LINE" "data_len con3 = int k" "trans_encoding_type con3 = 0" "con_url con3 = con_url con2"
    "response_header_len con3 = response_header_len con2" "response_pkt_chain con3 = response_pkt_chain con2"
    "ctx3 = upd_url (sp_ctx st1) n (\<lambda>v. set_flg HTTP_SNOOPING_FLG_RES_LFB (v\<lparr>node_mime := m v, url_res_len := int k,
       data_start := 0, url_encoding := enc, url_data_len := 0\<rparr>))" "response_encoding_parse con2 = Some enc"
    "post_fix con2 = 0 \<longrightarrow> m = node_mime"
    by (rule response_header_ok [OF c2(7) ok [folded t_def]])
  define st2 where "st2 = st1\<lparr>sp_ctx := ctx3\<rparr>"
  have st2: "sp_links st2 = l" "sp_ctx st2 = ctx3" by (simp_all add: st2_def st1_def)
  have loop2: "response_loop te ef (chain_head efb_chain) (length ps) token n (con1, ef_buf_init_chain ef, st1)
      = response_loop te ef (chain_head efb_chain) (length ps) token n (con3, ef_buf_init_chain ef, st2)"
    using i1(1) c2(1,2) c3(1) st1(1)
    by (subst response_loop.simps, simp add: response_step_def) (subst response_loop.simps, simp add: response_step_def st2_def http_sp_state_defs)
  have v3: "pcache_rule (url_base ctx3 n) = Some r" "data_start (url_base ctx3 n) = 0" "url_data_len (url_base ctx3 n) = 0"
    "url_res_len (url_base ctx3 n) = int k" "data_buf_free_list ctx3 = data_buf_free_list (sp_ctx st)"
    "\<not> has_flg HTTP_SNOOPING_FLG_RES_WRITE (url_base ctx3 n)" "bufs_ready ctx3 k"
    using v rdy by (simp_all add: c3(8) st1(2) set_flg_def bufs_ready_def c_simps bit_or_iff)
  have len: "length (payload ef ps) = response_header_len con3 + k" using c2(3) c3(6) pay by simp
  have cu: "con_url con3 = Some n" "response_pkt_chain con3 = efb_chain" using c3(5,7) c2(4,5) i1(3,4) by simp_all
  obtain con' ctx' where f: "response_loop te ef (chain_head efb_chain) (length ps) token n (con3, ef_buf_init_chain ef, st2)
      = Some (con', efb_chain, st2\<lparr>sp_ctx := upd_url ctx' n (set_flg HTTP_SNOOPING_FLG_RES_CACHE)\<rparr>)"
    "res_state con' = HTTP_SP_STATE_DONE" "stored ctx' n = drop (response_header_len con3) (payload ef ps)"
    "data_buf_list (url_base ctx' n) = take (bufs_for k) (data_buf_free_list (sp_ctx st2))"
    "data_buf_free_list ctx' = drop (bufs_for k) (data_buf_free_list (sp_ctx st2))"
    "url_data_len (url_base ctx' n) = int k" "url_res_len (url_base ctx' n) = int k"
    "has_flg HTTP_SNOOPING_FLG_CACHE_BUF_ALLOC (url_base ctx' n)"
    "has_flg HTTP_SNOOPING_FLG_RES_WRITE (url_base ctx' n) = has_flg HTTP_SNOOPING_FLG_RES_WRITE (url_base (sp_ctx st2) n)"
    "url_encoding (url_base ctx' n) = url_encoding (url_base (sp_ctx st2) n)"
    "file_id (url_base ctx' n) = file_id (url_base (sp_ctx st2) n)"
    by (rule response_loop_body [OF c3(2) cu(1) c3(4,3) _ _ p(3,4,5) cu(2) len pay(3) _ v(2), of st2]) (use p(1,2) v3 in \<open>simp_all add: st2\<close>)
  define st' where "st' = st2\<lparr>sp_ctx := upd_url ctx' n (set_flg HTTP_SNOOPING_FLG_RES_CACHE)\<rparr>"
  have st': "stored (sp_ctx st') n = stored ctx' n" by (simp add: st'_def stored_def buf_bytes_def [abs_def])
  have node: "url_base (sp_ctx st') n = set_flg HTTP_SNOOPING_FLG_RES_CACHE (url_base ctx' n)"
    "data_buf_free_list (sp_ctx st') = data_buf_free_list ctx'" by (simp_all add: st'_def)
  have nw: "\<not> has_flg HTTP_SNOOPING_FLG_RES_WRITE (url_base (sp_ctx st') n)"
    using f(9) v3(6) by (simp add: node st2 c_simps bit_or_iff)
  have "response_drop ef n efb_chain st' = (efb_chain, st')" using nw by (simp add: response_drop_def split: option.split)
  then have "ngx_http_snooping_response_parse te ef con efb_chain token st
      = Some (con'\<lparr>res_snd_pkt := res_snd_pkt con' + of_nat (chain_count efb_chain)\<rparr>, efb_chain, st')"
    unfolding ngx_http_snooping_response_parse_def c Let_def prod.case con1_def [symmetric] st1_def [symmetric]
    using con(4) i1(3,5) cnt p(3) loop2 f(1) by (simp add: st'_def)
  moreover have "stored (sp_ctx st') n = body" using st' f(3) c2(3) c3(6) pay(1) by simp
  moreover have "url_encoding (url_base (sp_ctx st') n) = HTTP_ECODING_TYPE_NONE" if "c_strstr t http_content_encoding_type = None"
    using that c3(9) c2(7) f(10) by (simp add: response_encoding_parse_def node st2 c3(8) set_flg_def)
  moreover have "file_id (url_base (sp_ctx st') n) = file_id (url_base (sp_ctx st) n)" if "post_fix con = 0"
    using f(11) c3(10) c2(6) that by (simp add: node st2 c3(8) st1(2) file_id_def set_flg_def con1_def)
  ultimately show ?thesis using f(2,4-8) nw v3(5) unfolding t_def
    by (simp add: node st2 c_simps bit_or_iff) (simp add: set_flg_def)
qed

text \<open>C14. The body of a response is cached. A response that arrives as a whole for a recorded URL whose rule lets
  the program save files and that is not saved yet, with status 200, a content type and the length of its
  body, not chunked, is handed on to the client unchanged, and the data buffers of the node hold exactly its
  body: the buffers are the first ones of the free list, as many as the length needs. The node is marked as
  complete for the write task.\<close>

theorem response_body_cached:
  assumes con: "res_state con = HTTP_SP_STATE_INIT" "length (current_response_header_buf con) = HTTP_SP_RES_HEAD_LEN_MAX"
      "con_url con = Some n" "req_state con \<noteq> HTTP_SP_STATE_REQUEST_HEADER_ERROR"
    and c: "ef_buf_chain2chain ef (sp_links st) (response_pkt_chain con) efb_chain = (l, efb_chain)"
    and p: "holds l efb_chain ps" "linked l (chain_head efb_chain) ps" "0 < length ps" "length ps \<le> token" "ef_laws ef"
    and pay: "payload ef ps = h0 @ http_end @ body" "length body = k" "0 < k"
    and h0: "fresh http_end h0" "NUL \<notin> set h0" "length (h0 @ http_end) \<le> HTTP_SP_RES_HEAD_LEN_MAX - 1"
    and ok: "response_ok (c_str (take (HTTP_SP_RES_HEAD_LEN_MAX - 1) (h0 @ http_end @ body))) ty len (int k)"
    and v: "pcache_rule (url_base (sp_ctx st) n) = Some r" "cache_flg r AND HTTP_CACHE_URL_SP_WRITE \<noteq> 0"
      "\<not> has_flg HTTP_SNOOPING_FLG_RES_WRITE (url_base (sp_ctx st) n)"
    and rdy: "bufs_ready (sp_ctx st) k"
  shows "\<exists>con' st'. ngx_http_snooping_response_parse te ef con efb_chain token st = Some (con', efb_chain, st')
    \<and> res_state con' = HTTP_SP_STATE_DONE \<and> stored (sp_ctx st') n = body
    \<and> data_buf_list (url_base (sp_ctx st') n) = take (bufs_for k) (data_buf_free_list (sp_ctx st))
    \<and> data_buf_free_list (sp_ctx st') = drop (bufs_for k) (data_buf_free_list (sp_ctx st))
    \<and> url_data_len (url_base (sp_ctx st') n) = int k \<and> url_res_len (url_base (sp_ctx st') n) = int k
    \<and> has_flg HTTP_SNOOPING_FLG_RES_CACHE (url_base (sp_ctx st') n)
    \<and> has_flg HTTP_SNOOPING_FLG_CACHE_BUF_ALLOC (url_base (sp_ctx st') n)
    \<and> \<not> has_flg HTTP_SNOOPING_FLG_RES_WRITE (url_base (sp_ctx st') n)"
  using response_cached [OF assms, of te] by blast

text \<open>An example: a response of five bytes for a recorded URL.\<close>

definition demo_head :: cstr where
  "demo_head = ''HTTP/1.1 200 OK'' @ [CR, LF] @ ''Content-Type: video/x'' @ [CR, LF] @ ''Content-Length: 5''"

text \<open>The rule for Flash files that the table \<open>http_cache_file\<close> has commented out; the rules in force have
  \<open>HTTP_CACHE_URL_SP_WRITE\<close> cleared.\<close>

definition swf_rule :: http_cache_url where
  "swf_rule = rule (HTTP_CACHE_URL_POST_FILE OR HTTP_CACHE_URL_PARA OR HTTP_CACHE_URL_ACTION_CACHE_SP OR HTTP_CACHE_URL_SP_WRITE)
     HTTP_CACHE_KEY_ALL_XIEGAN [] [] [] ''.swf'' [] None None"

definition wait_ctx :: http_snooping_ctx where
  "wait_ctx = (ngx_http_snooping_ctx_init 0 0)\<lparr>
     url_base := (\<lambda>_. url_node0\<lparr>pcache_rule := Some swf_rule\<rparr>),
     buf_num := 1, data_buf_free_list := [4],
     data_buf := (\<lambda>_. \<lparr>buf_len = 0, buf_data = replicate HTTP_SP_BUF_LEN_MAX NUL\<rparr>)\<rparr>"

lemma demo_head_text:
  "c_str (take (HTTP_SP_RES_HEAD_LEN_MAX - 1) (demo_head @ http_end @ ''hello'')) = demo_head @ http_end @ ''hello''"
  by code_simp

lemma demo_response_ok: "response_ok (demo_head @ http_end @ ''hello'') ''video/x'' ''5'' 5"
proof -
  have 1: "demo_head @ http_end @ ''hello'' = ''HTTP/1.1'' @ '' 200 '' @ (''OK'' @ [CR, LF] @ ''Content-Type: video/x'' @ [CR, LF]
      @ ''Content-Length: 5'' @ http_end @ ''hello'')" by (simp add: demo_head_def)
  have 2: "demo_head @ http_end @ ''hello'' = (''HTTP/1.1 200 OK'' @ [CR, LF]) @ http_content_type @ ''video/x'' @ http_new_line
      @ (''Content-Length: 5'' @ http_end @ ''hello'')" by (simp add: demo_head_def http_content_type_def http_new_line_def)
  have 3: "demo_head @ http_end @ ''hello'' = (''HTTP/1.1 200 OK'' @ [CR, LF] @ ''Content-Type: video/x'' @ [CR, LF])
      @ http_content_len @ ''5'' @ http_new_line @ ([CR, LF] @ ''hello'')"
    by (simp add: demo_head_def http_content_len_def http_new_line_def http_end_def)
  have f2: "fresh http_content_type (''HTTP/1.1 200 OK'' @ [CR, LF])"
    and f3: "fresh http_content_len (''HTTP/1.1 200 OK'' @ [CR, LF] @ ''Content-Type: video/x'' @ [CR, LF])" by code_simp+
  have "field (demo_head @ http_end @ ''hello'') http_content_type ''video/x''"
    unfolding field_def by (intro exI conjI, rule 2, rule f2) simp
  moreover have "field (demo_head @ http_end @ ''hello'') http_content_len ''5''"
    unfolding field_def by (intro exI conjI, rule 3, rule f3) simp
  moreover have "c_strstr (demo_head @ http_end @ ''hello'') http_trans_encoding_type_chunked = None" "ngx_atoi ''5'' = 5" by code_simp+
  moreover have "\<exists>ver post. demo_head @ http_end @ ''hello'' = ver @ '' 200 '' @ post \<and> CHR '' '' \<notin> set ver"
    by (intro exI conjI, rule 1) simp
  ultimately show ?thesis unfolding response_ok_def by simp
qed

theorem response_body_cached_witness:
  "\<exists>con' st'. ngx_http_snooping_response_parse demo_te (demo_ef (\<lambda>_. demo_head @ http_end @ ''hello''))
       (con0\<lparr>res_state := HTTP_SP_STATE_INIT, con_url := Some 3\<rparr>)
       \<lparr>chain_head = Some 0, chain_tail = Some 0, chain_count = 1\<rparr> 5 (demo_st\<lparr>sp_ctx := wait_ctx\<rparr>)
     = Some (con', \<lparr>chain_head = Some 0, chain_tail = Some 0, chain_count = 1\<rparr>, st')
     \<and> stored (sp_ctx st') 3 = ''hello'' \<and> data_buf_list (url_base (sp_ctx st') 3) = [4]
     \<and> has_flg HTTP_SNOOPING_FLG_RES_CACHE (url_base (sp_ctx st') 3)"
proof -
  define ef where "ef = demo_ef (\<lambda>_. demo_head @ http_end @ ''hello'')"
  define ch where "ch = \<lparr>chain_head = Some (0 :: nat), chain_tail = Some 0, chain_count = 1\<rparr>"
  define con where "con = con0\<lparr>res_state := HTTP_SP_STATE_INIT, con_url := Some 3\<rparr>"
  define st where "st = demo_st\<lparr>sp_ctx := wait_ctx\<rparr>"
  have con: "res_state con = HTTP_SP_STATE_INIT" "length (current_response_header_buf con) = HTTP_SP_RES_HEAD_LEN_MAX"
    "con_url con = Some 3" "req_state con \<noteq> HTTP_SP_STATE_REQUEST_HEADER_ERROR"
    by (simp_all add: con_def con0_def http_sp_state_defs)
  have c: "ef_buf_chain2chain ef (sp_links st) (response_pkt_chain con) ch = (sp_links demo_st, ch)"
    by (simp add: ef_def demo_ef_def con_def con0_def chain0_def st_def)
  have p: "holds (sp_links demo_st) ch [0]" "linked (sp_links demo_st) (chain_head ch) [0]"
    by (simp_all add: holds_def ch_def demo_st_def)
  have pay: "payload ef [0] = demo_head @ http_end @ ''hello''" by (simp add: ef_def demo_ef_def)
  have h: "fresh http_end demo_head" "NUL \<notin> set demo_head" "length (demo_head @ http_end) \<le> HTTP_SP_RES_HEAD_LEN_MAX - 1"
    by code_simp+
  have ok: "response_ok (c_str (take (HTTP_SP_RES_HEAD_LEN_MAX - 1) (demo_head @ http_end @ ''hello''))) ''video/x'' ''5'' (int 5)"
    unfolding demo_head_text using demo_response_ok by simp
  have v: "pcache_rule (url_base (sp_ctx st) 3) = Some swf_rule"
    "cache_flg swf_rule AND HTTP_CACHE_URL_SP_WRITE \<noteq> 0"
    "\<not> has_flg HTTP_SNOOPING_FLG_RES_WRITE (url_base (sp_ctx st) 3)" "bufs_ready (sp_ctx st) 5"
    "data_buf_free_list (sp_ctx st) = [4]" "bufs_for 5 = 1"
    by (simp_all add: st_def wait_ctx_def swf_rule_def rule_def http_cache_flag_defs has_flg_def url_node0_def
        bufs_ready_def bufs_for_def HTTP_SP_BUF_LEN_MAX_def)
  have "\<exists>con' st'. ngx_http_snooping_response_parse demo_te ef con ch 5 st = Some (con', ch, st')
    \<and> res_state con' = HTTP_SP_STATE_DONE \<and> stored (sp_ctx st') 3 = ''hello''
    \<and> data_buf_list (url_base (sp_ctx st') 3) = take (bufs_for 5) (data_buf_free_list (sp_ctx st))
    \<and> data_buf_free_list (sp_ctx st') = drop (bufs_for 5) (data_buf_free_list (sp_ctx st))
    \<and> url_data_len (url_base (sp_ctx st') 3) = int 5 \<and> url_res_len (url_base (sp_ctx st') 3) = int 5
    \<and> has_flg HTTP_SNOOPING_FLG_RES_CACHE (url_base (sp_ctx st') 3)
    \<and> has_flg HTTP_SNOOPING_FLG_CACHE_BUF_ALLOC (url_base (sp_ctx st') 3)
    \<and> \<not> has_flg HTTP_SNOOPING_FLG_RES_WRITE (url_base (sp_ctx st') 3)"
    by (rule response_body_cached [OF con c p _ _ _ pay _ _ h ok v(1-4)]) (simp_all add: ef_def demo_ef_laws)
  then show ?thesis unfolding v(5,6) by (auto simp: ef_def ch_def con_def st_def)
qed

section \<open>The content length\<close>

text \<open>The value of a string of digits, without a bound.\<close>

definition dec_val :: "cstr \<Rightarrow> int" where
  "dec_val line = foldl (\<lambda>v c. v * 10 + (of_char c - of_char CHR ''0'')) 0 line"

lemma atoi_fold:
  "foldl (\<lambda>v c. v * 10 + (of_char c - of_char CHR ''0'')) (of_int a :: u32) line
     = of_int (foldl (\<lambda>v c. v * 10 + (of_char c - of_char CHR ''0'')) a line)"
proof (induction line arbitrary: a)
  case (Cons c line)
  have "of_int a * 10 + (of_char c - of_char CHR ''0'') = (of_int (a * 10 + (of_char c - of_char CHR ''0'')) :: u32)"
    by (simp only: of_int_add of_int_mult of_int_diff of_int_of_char of_int_numeral)
  then show ?case unfolding foldl_Cons by (simp only: Cons.IH)
qed simp

text \<open>C36. The content length wraps around. For a string of digits, \<open>ngx_atoi\<close> gives its value modulo 2 to the 32 when
  that is below 2 to the 31, and the error value otherwise: it is right up to 2147483647, but a length of ten
  or more digits, which the parser lets through, can turn into any small number.\<close>

theorem ngx_atoi_wraps:
  assumes "line \<noteq> []" "\<forall>c \<in> set line. CHR ''0'' \<le> c \<and> c \<le> CHR ''9''"
  shows "ngx_atoi line = (if dec_val line mod 2 ^ 32 < 2 ^ 31 then dec_val line mod 2 ^ 32 else -1)"
proof -
  define w :: u32 where "w = foldl (\<lambda>v c. v * 10 + (of_char c - of_char CHR ''0'')) 0 line"
  have "w = of_int (dec_val line)" using atoi_fold [of 0 line] by (simp add: w_def dec_val_def)
  then have u: "uint w = dec_val line mod 2 ^ 32" by (simp add: uint_word_of_int)
  have d: "\<not> (\<exists>c \<in> set line. c < CHR ''0'' \<or> c > CHR ''9'')" using assms(2) by (meson leD)
  have "ngx_atoi line = (if sint w < 0 then -1 else sint w)"
    unfolding ngx_atoi_def w_def [symmetric] Let_def using assms(1) d by simp
  moreover have "0 \<le> uint w" "uint w < 2 ^ 32" using uint_bounded [of w] by simp_all
  ultimately show ?thesis unfolding u [symmetric] sint_u32 by simp
qed

theorem ngx_atoi_wraps_witness: "ngx_atoi ''4294967301'' = 5"
proof -
  have "\<forall>c \<in> set ''4294967301''. CHR ''0'' \<le> c \<and> c \<le> CHR ''9''" by code_simp
  moreover have "dec_val ''4294967301'' = 4294967301" by code_simp
  ultimately show ?thesis using ngx_atoi_wraps [of "''4294967301''"] by simp
qed

end
