(* ===== verification/SnoopPool.thy ===== *)
theory SnoopPool
  imports SnoopResponse
begin

text \<open>
  What the packet path of \<^verbatim>\<open>http-snooping.c\<close> keeps: each routine of the parsers keeps the invariant of the
  URL table and the flags of the connection, and the callbacks of the proxy (\<open>create\<close>, \<open>data\<close>, \<open>shut\<close>)
  keep the invariant \<open>con_inv\<close> of the pool of connections.
\<close>

section \<open>The packet path keeps the URL table\<close>

lemma response_header_inv:
  assumes inv: "url_inv ctx" and r: "response_header te con n ctx = Some (con', ctx')"
  shows "url_inv ctx'"
proof -
  have t: "url_inv c'" if "response_type_parse te cn n c = Some (cn', c', ok)" "url_inv c" for cn c cn' c' ok
    using that by (auto simp: response_type_parse_def Let_def split: bind_splits option.splits if_splits
        intro!: url_inv_node keeps_data)
  have l: "url_inv c'" if "response_len_parse cn n c = Some (cn', c', ok)" "url_inv c" for cn c cn' c' ok
    using that by (auto simp: response_len_parse_def Let_def split: bind_splits option.splits if_splits
        intro!: url_inv_node keeps_data)
  have e: "url_inv (upd_url c n (\<lambda>v. set_flg HTTP_SNOOPING_FLG_RES_LFB
      (v\<lparr>data_start := 0, url_encoding := enc, url_data_len := 0\<rparr>)))" if "url_inv c" for c enc
    using that by (intro url_inv_node keeps_data)
  show ?thesis using r inv t l e
    by (auto simp: response_header_def split: bind_splits if_splits)
qed


section \<open>The packet path keeps the buffers of a connection\<close>

text \<open>What the header parsers leave alone: the flags, the sizes of the header buffers and the positions in
  them. And what every step of the packet path keeps: both header buffers have their size, and the positions
  leave room for the byte that terminates the text.\<close>

abbreviation con_dims :: "http_sp_connection \<Rightarrow> u32 \<times> nat \<times> nat \<times> nat \<times> nat" where
  "con_dims con \<equiv> (con_flags con, length (current_request_header_buf con), length (current_response_header_buf con),
     parse_req_pos con, parse_res_pos con)"

definition con_wf :: "http_sp_connection \<Rightarrow> bool" where
  "con_wf con \<longleftrightarrow> length (current_request_header_buf con) = HTTP_SP_REQ_HEAD_LEN_MAX
     \<and> length (current_response_header_buf con) = HTTP_SP_RES_HEAD_LEN_MAX
     \<and> parse_req_pos con \<le> HTTP_SP_REQ_HEAD_LEN_MAX - 1 \<and> parse_res_pos con \<le> HTTP_SP_RES_HEAD_LEN_MAX - 1"

definition con_fits :: "u32 \<Rightarrow> http_sp_connection \<Rightarrow> bool" where
  "con_fits f con \<longleftrightarrow> con_flags con = f \<and> con_wf con"

lemma con_fits_dims: "con_dims con' = con_dims con \<Longrightarrow> con_fits f con' = con_fits f con"
  by (simp add: con_fits_def con_wf_def)

lemma con_fits_update [simp]:
  "con_fits f (con\<lparr>res_state := a\<rparr>) = con_fits f con" "con_fits f (con\<lparr>req_state := b\<rparr>) = con_fits f con"
  "con_fits f (con\<lparr>request_pkt_chain := c\<rparr>) = con_fits f con" "con_fits f (con\<lparr>response_pkt_chain := c\<rparr>) = con_fits f con"
  "con_fits f (con\<lparr>req_rec_pkt := d\<rparr>) = con_fits f con" "con_fits f (con\<lparr>req_snd_pkt := d\<rparr>) = con_fits f con"
  "con_fits f (con\<lparr>res_rec_pkt := d\<rparr>) = con_fits f con" "con_fits f (con\<lparr>res_snd_pkt := d\<rparr>) = con_fits f con"
  "con_fits f (con\<lparr>con_url := u\<rparr>) = con_fits f con"
  "con_fits f con \<Longrightarrow> con_fits f (con\<lparr>parse_req_pos := 0\<rparr>)" "con_fits f con \<Longrightarrow> con_fits f (con\<lparr>parse_res_pos := 0\<rparr>)"
  by (auto simp: con_fits_def con_wf_def)

lemma collect_wf:
  "collect ef l mx k efb b pos = Some (b', pos') \<Longrightarrow> pos \<le> mx - 1 \<Longrightarrow> length b' = length b \<and> pos' \<le> mx - 1"
proof (induction k arbitrary: efb b pos)
  case (Suc k)
  then obtain p where p: "efb = Some p" by (auto split: bind_splits)
  define d where "d = tcp_data_get ef p"
  show ?case
  proof (cases "length d + pos > mx - 1")
    case True
    then show ?thesis using Suc.prems by (auto simp: p d_def [symmetric] Let_def split: bind_splits dest: mem_write_length)
  next
    case False
    then obtain b1 where b1: "mem_write b pos d = Some b1" "collect ef l mx k (l p) b1 (pos + length d) = Some (b', pos')"
      using Suc.prems by (auto simp: p d_def [symmetric] Let_def split: bind_splits)
    have "pos + length d \<le> mx - 1" using False by simp
    from Suc.IH [OF b1(2) this] mem_write_length [OF b1(1)] show ?thesis by simp
  qed
qed simp

lemma collect_wr_wf:
  assumes "collect ef l mx k efb b pos = Some (b1, pos1)" "wr b1 pos1 NUL = Some b2" "pos \<le> mx - 1"
  shows "length b2 = length b" "pos1 \<le> mx - 1"
  using collect_wf [OF assms(1,3)] assms(2) by (auto simp: wr_def split: if_splits)

lemma drop_request_simps [simp]:
  "con_dims (fst (drop_request ef con st)) = con_dims con" "sp_ctx (snd (drop_request ef con st)) = sp_ctx st"
  "sp_ctx (emit ev st) = sp_ctx st" "con_url (fst (drop_request ef con st)) = con_url con"
  by (simp_all add: drop_request_def emit_def)

lemma forbidden_keeps:
  "ngx_http_snooping_url_forbidden te ef con st = Some (con', st') \<Longrightarrow>
     con_dims con' = con_dims con \<and> sp_ctx st' = sp_ctx st"
  by (auto simp: ngx_http_snooping_url_forbidden_def drop_request_def emit_def split: if_splits)

lemma redirect_keeps:
  "ngx_http_snooping_url_redirect te ef con st = Some (con', st') \<Longrightarrow>
     con_dims con' = con_dims con \<and> sp_ctx st' = sp_ctx st"
  by (auto simp: ngx_http_snooping_url_redirect_def drop_request_def emit_def Let_def split: if_splits bind_splits)

lemma request_line_keeps: "request_line con = Some (con', off) \<Longrightarrow> con_dims con' = con_dims con"
  by (auto simp: request_line_def Let_def split: bind_splits option.splits if_splits prod.splits)

lemma request_body_keeps: "request_body_len con off = Some con' \<Longrightarrow> con_dims con' = con_dims con"
  by (auto simp: request_body_len_def Let_def split: bind_splits option.splits if_splits)

lemma request_get_keeps:
  assumes "request_get tree te ef con st = Some (con', st')"
  shows "con_dims con' = con_dims con" "url_inv (sp_ctx st) \<Longrightarrow> url_inv (sp_ctx st')"
proof -
  obtain sname res sp_url pf ctx1 where
    r: "ngx_http_snooping_url_record tree (sp_ctx st) sname res (post_fix con) = Some (sp_url, pf, ctx1)"
    and "con_dims con' = con_dims con \<and> sp_ctx st' = ctx1"
    using assms forbidden_keeps redirect_keeps
    by (fastforce simp: request_get_def Let_def split: bind_splits option.splits if_splits)
  then show "con_dims con' = con_dims con" "url_inv (sp_ctx st) \<Longrightarrow> url_inv (sp_ctx st')"
    using url_record_inv [OF _ r] by simp_all
qed

lemma request_header_keeps:
  assumes "request_header tree te ef con st = Some (con', st')"
  shows "con_dims con' = con_dims con" "url_inv (sp_ctx st) \<Longrightarrow> url_inv (sp_ctx st')"
proof -
  consider "request_line con = Some (con', None)" "st' = st"
    | con1 off where "request_line con = Some (con1, off)" "request_get tree te ef con1 st = Some (con', st')"
    | con1 off o1 where "request_line con = Some (con1, off)" "request_body_len con1 o1 = Some con'" "st' = st"
    using assms by (auto simp: request_header_def split: bind_splits option.splits if_splits)
  then have "con_dims con' = con_dims con \<and> (url_inv (sp_ctx st) \<longrightarrow> url_inv (sp_ctx st'))"
  proof cases
    case 1
    then show ?thesis using request_line_keeps by simp
  next
    case 2
    then show ?thesis using request_line_keeps [OF 2(1)] request_get_keeps [OF 2(2)] by simp
  next
    case 3
    then show ?thesis using request_line_keeps [OF 3(1)] request_body_keeps [OF 3(2)] by simp
  qed
  then show "con_dims con' = con_dims con" "url_inv (sp_ctx st) \<Longrightarrow> url_inv (sp_ctx st')" by auto
qed

lemma request_collect_keeps:
  assumes r: "request_collect ef l h k con = Some (con', go)" and fits: "con_fits f con"
  shows "con_fits f con'"
proof -
  obtain pos b1 pos1 b2 where
    c: "collect ef l HTTP_SP_REQ_HEAD_LEN_MAX k h (current_request_header_buf con) pos = Some (b1, pos1)" "wr b1 pos1 NUL = Some b2"
      "pos = 0 \<or> pos = parse_req_pos con"
    and con': "con_flags con' = con_flags con" "current_request_header_buf con' = b2" "parse_req_pos con' = pos1"
      "current_response_header_buf con' = current_response_header_buf con"
      "parse_res_pos con' = 0 \<or> parse_res_pos con' = parse_res_pos con"
    using r by (auto simp: request_collect_def Let_def split: bind_splits option.splits if_splits)
  have "pos \<le> HTTP_SP_REQ_HEAD_LEN_MAX - 1" using c(3) fits by (auto simp: con_fits_def con_wf_def)
  from collect_wr_wf [OF c(1,2) this] con' fits show ?thesis by (auto simp: con_fits_def con_wf_def)
qed

lemma request_forward_keeps:
  "request_forward ef token con out st = Some (con', out', st') \<Longrightarrow>
     con_dims con' = con_dims con \<and> sp_ctx st' = sp_ctx st"
  by (auto simp: request_forward_def split: bind_splits if_splits)

lemma request_forward_fits:
  "request_forward ef token con out st = Some (con', out', st') \<Longrightarrow>
     con_fits f con' = con_fits f con \<and> sp_ctx st' = sp_ctx st"
  using request_forward_keeps con_fits_dims by blast

lemma request_header_fits:
  "request_header tree te ef con st = Some (con', st') \<Longrightarrow>
     con_fits f con' = con_fits f con \<and> (url_inv (sp_ctx st) \<longrightarrow> url_inv (sp_ctx st'))"
  using request_header_keeps con_fits_dims by blast

lemma request_step_keeps:
  assumes "request_step tree te ef h k token (con, out, st) = Some ((con', out', st'), go)"
  shows "(con_fits f con \<longrightarrow> con_fits f con')" "url_inv (sp_ctx st) \<Longrightarrow> url_inv (sp_ctx st')"
proof -
  consider "request_collect ef (sp_links st) h k con = Some (con', go)" "st' = st"
    | "request_header tree te ef con st = Some (con', st')"
    | con1 where "request_forward ef token con out st = Some (con1, out', st')" "(con_fits f con1 \<longrightarrow> con_fits f con')"
    | "con' = con" "st' = st"
    using assms by (auto simp: request_step_def split: bind_splits if_splits)
  then have "(con_fits f con \<longrightarrow> con_fits f con') \<and> (url_inv (sp_ctx st) \<longrightarrow> url_inv (sp_ctx st'))"
    by cases (auto dest: request_collect_keeps request_forward_fits request_header_fits)
  then show "(con_fits f con \<longrightarrow> con_fits f con')" "url_inv (sp_ctx st) \<Longrightarrow> url_inv (sp_ctx st')" by auto
qed

text \<open>What every round keeps, the bounded loop keeps.\<close>

lemma run_keeps:
  assumes "\<And>s s' go. f s = Some (s', go) \<Longrightarrow> P s \<Longrightarrow> P s'"
  shows "run k f s = Some s' \<Longrightarrow> P s \<Longrightarrow> P s'"
  using assms by (induction k arbitrary: s) (auto split: bind_splits if_splits)

lemma request_loop_keeps:
  assumes "request_loop tree te ef h k token (con, out, st) = Some (con', out', st')" "url_inv (sp_ctx st)"
  shows "(con_fits f con \<longrightarrow> con_fits f con') \<and> url_inv (sp_ctx st')"
proof -
  define P where "P = (\<lambda>(c :: http_sp_connection, o1 :: ef_buf_chain, s :: sp_state). (con_fits f con \<longrightarrow> con_fits f c) \<and> url_inv (sp_ctx s))"
  have "run (Suc (req_rank con)) (request_step tree te ef h k token) (con, out, st) = Some (con', out', st')"
    using req.loop_run [of "(con, out, st)" "Suc (req_rank con)" tree te ef h k token] assms(1) by simp
  then have "P (con', out', st')"
    by (rule run_keeps [rotated]) (auto simp: P_def assms(2) request_step_keeps)
  then show ?thesis by (simp add: P_def)
qed

lemma request_parse_keeps:
  assumes r: "ngx_http_snooping_request_parse tree te ef con chain token st = Some (con', out, st')"
    and inv: "url_inv (sp_ctx st)"
  shows "(con_fits f con \<longrightarrow> con_fits f con') \<and> url_inv (sp_ctx st')"
proof -
  obtain l chain1 where c: "ef_buf_chain2chain ef (sp_links st) (request_pkt_chain con) chain = (l, chain1)" by fastforce
  define con1 where "con1 = con\<lparr>req_rec_pkt := req_rec_pkt con + of_nat (chain_count chain), request_pkt_chain := chain1\<rparr>"
  have con1: "con_fits f con1 = con_fits f con" by (simp add: con1_def)
  consider "con' = con1" "sp_ctx st' = sp_ctx st"
    | con2 where "request_loop tree te ef (chain_head chain) (chain_count chain) token
        (con1, ef_buf_init_chain ef, st\<lparr>sp_links := l\<rparr>) = Some (con2, out, st')"
        "con' = con2\<lparr>req_snd_pkt := req_snd_pkt con2 + of_nat (chain_count out)\<rparr>"
    using r unfolding ngx_http_snooping_request_parse_def c Let_def con1_def
    by (auto split: if_splits bind_splits)
  then show ?thesis
    by cases (use inv con1 in \<open>auto dest: request_loop_keeps\<close>)
qed

lemma response_status_keeps: "response_status_parse con = Some (con', ok) \<Longrightarrow> con_dims con' = con_dims con"
  by (auto simp: response_status_parse_def Let_def split: bind_splits option.splits if_splits)

lemma response_type_keeps: "response_type_parse te con n ctx = Some (con', ctx', ok) \<Longrightarrow> con_dims con' = con_dims con"
  by (auto simp: response_type_parse_def Let_def split: bind_splits option.splits if_splits)

lemma response_len_keeps: "response_len_parse con n ctx = Some (con', ctx', ok) \<Longrightarrow> con_dims con' = con_dims con"
  by (auto simp: response_len_parse_def Let_def split: bind_splits option.splits if_splits)

lemma response_header_keeps:
  assumes "response_header te con n ctx = Some (con', ctx')"
  shows "con_dims con' = con_dims con"
proof -
  obtain con1 ok1 where 1: "response_status_parse con = Some (con1, ok1)"
    using assms by (auto simp: response_header_def split: bind_splits)
  consider "con' = con1" | con2 ctx2 ok2 where "response_type_parse te con1 n ctx = Some (con2, ctx2, ok2)" "con' = con2"
    | con2 ctx2 ok2 con3 ctx3 ok3 where "response_type_parse te con1 n ctx = Some (con2, ctx2, ok2)"
      "response_len_parse con2 n ctx2 = Some (con3, ctx3, ok3)" "con_dims con' = con_dims con3"
    using assms 1 by (auto simp: response_header_def split: bind_splits if_splits)
  then show ?thesis
    by cases (simp_all add: response_status_keeps [OF 1] response_type_keeps response_len_keeps)
qed

lemma response_forward_keeps:
  "response_forward ef token con out st = Some (con', out', st') \<Longrightarrow>
     con_dims con' = con_dims con \<and> sp_ctx st' = sp_ctx st"
  by (auto simp: response_forward_def split: bind_splits if_splits)

lemma response_forward_fits:
  "response_forward ef token con out st = Some (con', out', st') \<Longrightarrow>
     con_fits f con' = con_fits f con \<and> sp_ctx st' = sp_ctx st"
  using response_forward_keeps con_fits_dims by blast

lemma response_collect_keeps:
  assumes r: "response_collect ef l h k con = Some (con', go)" and fits: "con_fits f con"
  shows "con_fits f con'"
proof -
  obtain pos b1 pos1 b2 where
    c: "collect ef l HTTP_SP_RES_HEAD_LEN_MAX k h (current_response_header_buf con) pos = Some (b1, pos1)" "wr b1 pos1 NUL = Some b2"
      "pos = 0 \<or> pos = parse_res_pos con"
    and con': "con_flags con' = con_flags con" "current_response_header_buf con' = b2" "parse_res_pos con' = pos1"
      "current_request_header_buf con' = current_request_header_buf con"
      "parse_req_pos con' = 0 \<or> parse_req_pos con' = parse_req_pos con"
    using r by (auto simp: response_collect_def Let_def split: bind_splits option.splits if_splits)
  have "pos \<le> HTTP_SP_RES_HEAD_LEN_MAX - 1" using c(3) fits by (auto simp: con_fits_def con_wf_def)
  from collect_wr_wf [OF c(1,2) this] con' fits show ?thesis by (auto simp: con_fits_def con_wf_def)
qed

lemma response_data_step:
  assumes r: "response_step te ef h k token n (con, out, st) = Some ((con', out', st'), go)"
    and s: "res_state con = HTTP_SP_STATE_DATA_LINE"
  shows "(con_fits f con \<longrightarrow> con_fits f con') \<and> (url_inv (sp_ctx st) \<longrightarrow> url_inv (sp_ctx st'))"
proof -
  obtain l src where
    c: "ngx_http_snooping_cache_buf ef l (con\<lparr>response_pkt_chain := src\<rparr>) out' (sp_ctx st) = Some (con', sp_ctx st')"
    using r s by (auto simp: response_step_def http_sp_state_defs split: bind_splits if_splits)
  then show ?thesis using cache_buf_state [OF c] inv.cache_buf_inv [OF _ c] by auto
qed

lemma response_step_keeps:
  assumes r: "response_step te ef h k token n (con, out, st) = Some ((con', out', st'), go)"
  shows "(con_fits f con \<longrightarrow> con_fits f con')" "url_inv (sp_ctx st) \<Longrightarrow> url_inv (sp_ctx st')"
proof -
  consider (init) "res_state con \<in> {HTTP_SP_STATE_INIT, HTTP_SP_STATE_INIT_DATA}"
    | (header) "res_state con = HTTP_SP_STATE_REQUEST_HEADER" | (fin) "res_state con = HTTP_SP_STATE_DONE"
    | (body) "res_state con = HTTP_SP_STATE_DATA_LINE"
    | (rest) "res_state con \<notin> {HTTP_SP_STATE_INIT, HTTP_SP_STATE_INIT_DATA, HTTP_SP_STATE_REQUEST_HEADER,
        HTTP_SP_STATE_DONE, HTTP_SP_STATE_DATA_LINE}" by blast
  then have "(con_fits f con \<longrightarrow> con_fits f con') \<and> (url_inv (sp_ctx st) \<longrightarrow> url_inv (sp_ctx st'))"
  proof cases
    case init
    then show ?thesis using r by (auto simp: response_step_def split: bind_splits dest: response_collect_keeps)
  next
    case header
    then obtain ctx1 where "response_header te con n (sp_ctx st) = Some (con', ctx1)" "sp_ctx st' = ctx1"
      using r by (auto simp: response_step_def http_sp_state_defs split: bind_splits)
    then show ?thesis using response_header_keeps response_header_inv con_fits_dims by blast
  next
    case fin
    then show ?thesis using r
      by (auto simp: response_step_def http_sp_state_defs intro!: url_inv_node keeps_data)
  next
    case body
    then show ?thesis using response_data_step [OF r] by simp
  next
    case rest
    then obtain con1 where "response_forward ef token con out st = Some (con1, out', st')" "(con_fits f con1 \<longrightarrow> con_fits f con')"
      using r by (auto simp: response_step_def split: bind_splits if_splits)
    then show ?thesis using response_forward_fits by fastforce
  qed
  then show "(con_fits f con \<longrightarrow> con_fits f con')" "url_inv (sp_ctx st) \<Longrightarrow> url_inv (sp_ctx st')" by auto
qed

lemma response_loop_keeps:
  assumes "response_loop te ef h k token n (con, out, st) = Some (con', out', st')" "url_inv (sp_ctx st)"
  shows "(con_fits f con \<longrightarrow> con_fits f con') \<and> url_inv (sp_ctx st')"
proof -
  define P where "P = (\<lambda>(c :: http_sp_connection, o1 :: ef_buf_chain, s :: sp_state).
    (con_fits f con \<longrightarrow> con_fits f c) \<and> url_inv (sp_ctx s))"
  have "run (Suc (res_rank con)) (response_step te ef h k token n) (con, out, st) = Some (con', out', st')"
    using res.loop_run [of "(con, out, st)" "Suc (res_rank con)" te ef h k token n] assms(1) by simp
  then have "P (con', out', st')"
    by (rule run_keeps [rotated]) (auto simp: P_def assms(2) response_step_keeps)
  then show ?thesis by (simp add: P_def)
qed

lemma response_drop_ctx [simp]: "response_drop ef n out st = (out', st') \<Longrightarrow> sp_ctx st' = sp_ctx st"
  by (auto simp: response_drop_def split: option.splits if_splits)

lemma response_parse_keeps:
  assumes "ngx_http_snooping_response_parse te ef con chain token st = Some (con', out, st')" "url_inv (sp_ctx st)"
  shows "(con_fits f con \<longrightarrow> con_fits f con') \<and> url_inv (sp_ctx st')"
proof -
  obtain l chain1 where c: "ef_buf_chain2chain ef (sp_links st) (response_pkt_chain con) chain = (l, chain1)" by fastforce
  define con1 where "con1 = con\<lparr>res_rec_pkt := res_rec_pkt con + of_nat (chain_count chain), response_pkt_chain := chain1\<rparr>"
  define st1 where "st1 = st\<lparr>sp_links := l\<rparr>"
  consider "con' = con1" "st' = st1"
    | con2 out2 where "response_forward ef token con1 (ef_buf_init_chain ef) st1 = Some (con2, out2, st')"
      "(con_fits f con2 \<longrightarrow> con_fits f con')"
    | n con2 out2 st2 where "response_loop te ef (chain_head chain) (chain_count chain) token n
        (con1, ef_buf_init_chain ef, st1) = Some (con2, out2, st2)" "(con_fits f con2 \<longrightarrow> con_fits f con')" "sp_ctx st' = sp_ctx st2"
    using assms(1) unfolding ngx_http_snooping_response_parse_def c Let_def con1_def st1_def
    by (auto split: if_splits bind_splits prod.splits)
  then show ?thesis
    by cases (use assms(2) in \<open>auto simp: con1_def st1_def dest!: response_forward_fits response_loop_keeps\<close>)
qed

section \<open>The pool of connections\<close>

definition con_inv :: "con_pool \<Rightarrow> bool" where
  "con_inv p \<longleftrightarrow> unat (con_num p) = length (con_use_list p)
     \<and> distinct (con_free_list p @ con_use_list p)
     \<and> set (con_free_list p @ con_use_list p) = {..<con_max}
     \<and> (\<forall>c < con_max. con_flags (con_base p c) AND HTTP_SNOOPING_FLG_RES \<noteq> 0 \<longleftrightarrow> c \<in> set (con_use_list p))
     \<and> (\<forall>c < con_max. con_wf (con_base p c))
     \<and> (\<forall>t c. wan_ta_app_cb (tps p t) = Some c \<longrightarrow> c < con_max)"

lemma con_inv_init: "(\<And>t. wan_ta_app_cb (tp t) = None) \<Longrightarrow> con_inv (con_pool_init tp)"
  by (auto simp: con_inv_def con_pool_init_def con0_def con_wf_def fold_Cons)

lemma con_inv_len:
  assumes "con_inv p"
  shows "length (con_free_list p) + length (con_use_list p) = con_max"
proof -
  have "card (set (con_free_list p @ con_use_list p)) = con_max" using assms by (simp add: con_inv_def)
  then show ?thesis using assms distinct_card [of "con_free_list p @ con_use_list p"] by (simp add: con_inv_def)
qed

lemma unat_con_num: "n < con_max \<Longrightarrow> unat w = n \<Longrightarrow> unat (w + 1 :: u16) = Suc n"
  by (simp add: con_max_def unat_word_ariths)


lemma con_release_inv:
  assumes inv: "con_inv p" and c: "c \<in> set (con_use_list p)" and r: "con_release ef p c st = (p', st')"
  shows "con_inv p'"
proof -
  have pos: "0 < length (con_use_list p)" using c by (cases "con_use_list p") auto
  have less: "length (con_use_list p) \<le> con_max" using con_inv_len [OF inv] by simp
  have "1 \<le> con_num p" using inv pos by (simp add: con_inv_def word_le_nat_alt Suc_leI)
  then have num: "unat (con_num p - 1) = length (con_use_list p) - 1"
    using inv by (simp add: con_inv_def unat_sub)
  have p': "con_num p' = con_num p - 1" "con_use_list p' = remove1 c (con_use_list p)"
    "con_free_list p' = c # con_free_list p" "tps p' = tps p"
    "\<And>d. con_flags (con_base p' d) = (if d = c then 0 else con_flags (con_base p d))"
    "\<And>d. con_wf (con_base p' d) = con_wf (con_base p d)"
    using r by (auto simp: con_release_def Let_def con_wf_def split: if_splits)
  have d: "distinct (con_use_list p)" "c \<notin> set (con_free_list p)" using inv c by (auto simp: con_inv_def)
  show ?thesis using inv c d num unfolding con_inv_def p'
    by (auto simp: length_remove1 set_remove1_eq)
qed

lemma upd_tp_simps [simp]:
  "con_num (upd_tp p t f) = con_num p" "con_use_list (upd_tp p t f) = con_use_list p"
  "con_free_list (upd_tp p t f) = con_free_list p" "con_base (upd_tp p t f) = con_base p"
  "tps (upd_tp p t f) = (tps p)(t := f (tps p t))"
  by (simp_all add: upd_tp_def)

lemma con_inv_tp:
  assumes "con_inv p" "\<And>c. wan_ta_app_cb (f (tps p t)) = Some c \<Longrightarrow> c < con_max"
  shows "con_inv (upd_tp p t f)"
  using assms by (auto simp: con_inv_def)

lemma shut_inv:
  assumes inv: "con_inv p" and r: "ngx_http_snooping_shut ef p t st = Some (p', st')"
  shows "con_inv p'"
proof -
  define p1 where "p1 = upd_tp p t (\<lambda>x. x\<lparr>wan_ta_app_type := WAN_TA_APP_NONE, wan_ta_app_cb := None\<rparr>)"
  have inv1: "con_inv p1" unfolding p1_def by (rule con_inv_tp [OF inv]) simp
  consider "p' = p" | "p' = p1"
    | c where "wan_ta_app_cb (tps p t) = Some c" "con_flags (con_base p1 c) AND HTTP_SNOOPING_FLG_RES \<noteq> 0"
        "con_release ef p1 c st = (p', st')"
    using r unfolding ngx_http_snooping_shut_def Let_def p1_def [symmetric]
    by (auto split: if_splits bind_splits)
  then show ?thesis
  proof cases
    case 3
    then have "c < con_max" using inv by (auto simp: con_inv_def)
    then have "c \<in> set (con_use_list p1)" using inv1 3(2) by (auto simp: con_inv_def)
    then show ?thesis using con_release_inv [OF inv1 _ 3(3)] by simp
  qed (use inv inv1 in auto)
qed

lemma create_inv:
  assumes inv: "con_inv p" and r: "ngx_http_snooping_create ef server p t = Some (m, p')"
  shows "con_inv p'"
proof -
  have take: "con_inv (p\<lparr>con_free_list := cs, con_num := con_num p + 1, con_use_list := c # con_use_list p,
      con_base := (con_base p)(c := con_start ef t tp (con_base p c))\<rparr>) \<and> c < con_max"
    if "con_free_list p = c # cs" "unat (con_num p) < con_max" for c cs tp
    using inv that unat_con_num [OF that(2) refl]
    by (auto simp: con_inv_def con_start_def con_wf_def HTTP_SNOOPING_FLG_RES_def)
  show ?thesis using r inv take unfolding ngx_http_snooping_create_def Let_def
    by (auto split: if_splits list.splits intro!: con_inv_tp) (auto simp: con_inv_def)
qed

lemma data_inv:
  assumes inv: "con_inv p" "url_inv (sp_ctx st)"
    and r: "ngx_http_snooping_data tree te ef fs rcv p t st = Some (p', st')"
  shows "con_inv p' \<and> url_inv (sp_ctx st')"
proof -
  obtain l chain where 1: "chain_up ef (sp_links st) (ef_buf_init_chain ef)
      (rcv (sp_events st) (fs (sp_events st))) = Some (l, chain)"
    using r by (auto simp: ngx_http_snooping_data_def Let_def split: bind_splits)
  obtain c where 2: "wan_ta_app_cb (tps p t) = Some c"
    using r 1 by (auto simp: ngx_http_snooping_data_def Let_def split: bind_splits)
  define res where "res = (if wan_ta_client_tp (con_base p c) = Some t
    then ngx_http_snooping_request_parse tree te ef (con_base p c) chain (fs (sp_events st)) (st\<lparr>sp_links := l\<rparr>)
    else ngx_http_snooping_response_parse te ef (con_base p c) chain (fs (sp_events st)) (st\<lparr>sp_links := l\<rparr>))"
  obtain con out st2 where 3: "res = Some (con, out, st2)"
    using r unfolding ngx_http_snooping_data_def Let_def 1 2 by (auto simp: res_def split: bind_splits)
  have p': "p' = p\<lparr>con_base := (con_base p)(c := con)\<rparr>" "sp_ctx st' = sp_ctx st2"
    using r 3 unfolding ngx_http_snooping_data_def Let_def 1 2
    by (auto simp: res_def [symmetric] split: bind_splits if_splits)
  define f where "f = con_flags (con_base p c)"
  have c: "c < con_max" using 2 inv(1) by (auto simp: con_inv_def)
  then have fits: "con_fits f (con_base p c)" using inv(1) by (simp add: con_inv_def con_fits_def f_def)
  have "con_fits f con \<and> url_inv (sp_ctx st2)"
    using 3 [unfolded res_def] inv(2) fits
      request_parse_keeps [of tree te ef "con_base p c" chain _ _ con out st2 f]
      response_parse_keeps [of te ef "con_base p c" chain _ _ con out st2 f]
    by (simp split: if_splits)
  then show ?thesis using inv p' by (auto simp: con_inv_def con_fits_def f_def)
qed

lemma shut_ctx:
  assumes "ngx_http_snooping_shut ef p t st = Some (p', st')" "url_inv (sp_ctx st)"
  shows "url_inv (sp_ctx st')"
proof -
  have f: "sp_ctx (free_chain ch s) = sp_ctx s" for ch s by (simp add: free_chain_def)
  have "url_inv (sp_ctx s)" if "con_release ef p1 c st = (q, s)" for p1 c q s
    using that assms(2) by (auto simp: con_release_def Let_def f split: option.splits intro!: url_inv_node keeps_data)
  then show ?thesis using assms by (auto simp: ngx_http_snooping_shut_def Let_def split: if_splits bind_splits)
qed

text \<open>Opening a connection takes the first free node of the pool.\<close>

lemma con_free_room:
  assumes "con_inv p" "con_free_list p = c # cs"
  shows "unat (con_num p) < con_max"
  using con_inv_len [OF assms(1)] assms by (simp add: con_inv_def)

lemma create_takes:
  assumes inv: "con_inv p" and tp: "in_addr_dst (tps p t) \<noteq> server" "in_port_dst (tps p t) = 8080 \<or> in_port_dst (tps p t) = 80"
    and free: "con_free_list p = c # cs"
  shows "ngx_http_snooping_create ef server p t = Some (WAN_TA_APP_MATCH,
    let bind_tp = (\<lambda>x. x\<lparr>wan_ta_app_cb := Some c, wan_ta_app_type := WAN_TA_APP_HTTP_SNOOPING\<rparr>) in
    upd_tp (upd_tp (p\<lparr>con_free_list := cs, con_num := con_num p + 1, con_use_list := c # con_use_list p,
      con_base := (con_base p)(c := con_start ef t (tps p t) (con_base p c))\<rparr>) t bind_tp) (pair (tps p t)) bind_tp)"
  using tp free con_free_room [OF inv free] unfolding ngx_http_snooping_create_def Let_def by simp

lemma shut_one_side:
  assumes "wan_ta_app_type (tps p t) = WAN_TA_APP_HTTP_SNOOPING" "pair (tps p t) = u" "u \<noteq> t"
    "wan_ta_app_type (tps p u) \<noteq> WAN_TA_APP_NONE"
  shows "ngx_http_snooping_shut ef p t st
    = Some (upd_tp p t (\<lambda>x. x\<lparr>wan_ta_app_type := WAN_TA_APP_NONE, wan_ta_app_cb := None\<rparr>), st)"
  using assms by (simp add: ngx_http_snooping_shut_def Let_def)

lemma shut_last_side:
  assumes "wan_ta_app_type (tps p t) = WAN_TA_APP_HTTP_SNOOPING" "pair (tps p t) = u" "u \<noteq> t"
    "wan_ta_app_type (tps p u) = WAN_TA_APP_NONE" "wan_ta_app_cb (tps p t) = Some c"
    "con_flags (con_base p c) AND HTTP_SNOOPING_FLG_RES \<noteq> 0"
  shows "ngx_http_snooping_shut ef p t st
    = Some (con_release ef (upd_tp p t (\<lambda>x. x\<lparr>wan_ta_app_type := WAN_TA_APP_NONE, wan_ta_app_cb := None\<rparr>)) c st)"
  using assms by (simp add: ngx_http_snooping_shut_def Let_def)

lemma con_release_idle:
  assumes "con_url (con_base p c) = None" "chain_count (request_pkt_chain (con_base p c)) = 0"
    "chain_count (response_pkt_chain (con_base p c)) = 0" "con_use_list p = c # us"
  shows "\<exists>p'. con_release ef p c st = (p', st) \<and> con_use_list p' = us \<and> con_free_list p' = c # con_free_list p
    \<and> con_num p' = con_num p - 1 \<and> tps p' = tps p"
  using assms by (simp add: con_release_def free_chain_def Let_def)

text \<open>C20. Opening and closing. When the proxy opens a connection to a web server and the pool has a free node,
  the connection is taken into the program's care; after both sides have been shut, in either order, the
  pool is as it was: the node is back at the head of the free list, the list of used nodes and the counter
  are as before, and neither side refers to a connection any more.\<close>

theorem create_shut_roundtrip:
  assumes inv: "con_inv p" and tp: "in_addr_dst (tps p t) \<noteq> server" "in_port_dst (tps p t) = 8080 \<or> in_port_dst (tps p t) = 80"
    and free: "con_free_list p \<noteq> []" and pair: "pair (tps p t) = u" "pair (tps p u) = t" "t \<noteq> u" "(a, b) = (t, u) \<or> (a, b) = (u, t)"
    and ef: "chain_count (ef_buf_init_chain ef) = 0"
  shows "\<exists>p1 p2 p3. ngx_http_snooping_create ef server p t = Some (WAN_TA_APP_MATCH, p1)
    \<and> con_num p1 = con_num p + 1
    \<and> wan_ta_app_cb (tps p1 t) = Some (hd (con_free_list p)) \<and> wan_ta_app_cb (tps p1 u) = Some (hd (con_free_list p))
    \<and> ngx_http_snooping_shut ef p1 a st = Some (p2, st) \<and> con_num p2 = con_num p + 1
    \<and> ngx_http_snooping_shut ef p2 b st = Some (p3, st)
    \<and> con_free_list p3 = con_free_list p \<and> con_use_list p3 = con_use_list p \<and> con_num p3 = con_num p
    \<and> wan_ta_app_cb (tps p3 t) = None \<and> wan_ta_app_cb (tps p3 u) = None"
proof -
  obtain c cs where f: "con_free_list p = c # cs" using free by (cases "con_free_list p") auto
  define bind_tp where "bind_tp = (\<lambda>x :: tcp_proxy_cb. x\<lparr>wan_ta_app_cb := Some c, wan_ta_app_type := WAN_TA_APP_HTTP_SNOOPING\<rparr>)"
  define close where "close = (\<lambda>x :: tcp_proxy_cb. x\<lparr>wan_ta_app_type := WAN_TA_APP_NONE, wan_ta_app_cb := None\<rparr>)"
  obtain p1 where p1: "ngx_http_snooping_create ef server p t = Some (WAN_TA_APP_MATCH, p1)"
    "con_free_list p1 = cs" "con_num p1 = con_num p + 1" "con_use_list p1 = c # con_use_list p"
    "con_base p1 c = con_start ef t (tps p t) (con_base p c)"
    "tps p1 t = bind_tp (tps p t)" "tps p1 u = bind_tp (tps p u)"
    using create_takes [OF inv tp f, of ef] pair(1,3) by (simp add: Let_def bind_tp_def)
  have ab: "a \<noteq> b" "pair (tps p1 a) = b" "pair (tps p1 b) = a" "wan_ta_app_type (tps p1 a) = WAN_TA_APP_HTTP_SNOOPING"
    "wan_ta_app_type (tps p1 b) = WAN_TA_APP_HTTP_SNOOPING" "wan_ta_app_cb (tps p1 b) = Some c"
    using pair p1(6,7) by (auto simp: bind_tp_def)
  define p2 where "p2 = upd_tp p1 a close"
  have s1: "ngx_http_snooping_shut ef p1 a st = Some (p2, st)"
    unfolding p2_def close_def by (rule shut_one_side [of _ _ b]) (use ab in auto)
  have s2: "ngx_http_snooping_shut ef p2 b st = Some (con_release ef (upd_tp p2 b close) c st)"
    unfolding close_def
    by (rule shut_last_side [of _ _ a])
      (use ab p1(5) in \<open>auto simp: p2_def close_def con_start_def HTTP_SNOOPING_FLG_RES_def\<close>)
  obtain p3 where p3: "con_release ef (upd_tp p2 b close) c st = (p3, st)" "con_use_list p3 = con_use_list p"
    "con_free_list p3 = c # cs" "con_num p3 = con_num p" "tps p3 = tps (upd_tp p2 b close)"
    using con_release_idle [of "upd_tp p2 b close" c "con_use_list p" ef st] p1(2-5) ef
    by (auto simp: p2_def con_start_def)
  have "wan_ta_app_cb (tps p3 t) = None \<and> wan_ta_app_cb (tps p3 u) = None"
    using pair(4) ab(1) by (auto simp: p3(5) p2_def close_def)
  then show ?thesis using p1 s1 s2 p3 f by (simp add: p2_def bind_tp_def)
qed

definition demo_tps :: "nat \<Rightarrow> tcp_proxy_cb" where
  "demo_tps t = \<lparr>in_addr_dst = 7, in_addr_src = 9, in_port_dst = 80, in_port_src = 5000, src_intf_ipaddr = 3,
     pair = 1 - t, wan_ta_app_type = WAN_TA_APP_NONE, wan_ta_app_cb = None\<rparr>"

theorem create_shut_roundtrip_witness:
  "\<exists>p1 p2 p3. ngx_http_snooping_create (demo_ef (\<lambda>_. [])) 1 (con_pool_init demo_tps) 0 = Some (WAN_TA_APP_MATCH, p1)
    \<and> ngx_http_snooping_shut (demo_ef (\<lambda>_. [])) p1 1 demo_st = Some (p2, demo_st)
    \<and> ngx_http_snooping_shut (demo_ef (\<lambda>_. [])) p2 0 demo_st = Some (p3, demo_st)
    \<and> con_free_list p3 = con_free_list (con_pool_init demo_tps) \<and> con_num p3 = 0"
proof -
  have inv: "con_inv (con_pool_init demo_tps)" by (rule con_inv_init) (simp add: demo_tps_def)
  have free: "con_free_list (con_pool_init demo_tps) \<noteq> []" by (simp add: con_pool_init_def con_max_def fold_Cons)
  have "chain_count (ef_buf_init_chain (demo_ef (\<lambda>_. []))) = 0" by (simp add: demo_ef_def chain0_def)
  from create_shut_roundtrip [OF inv _ _ free, of 0 1 1 1 0 "demo_ef (\<lambda>_. [])" demo_st] this show ?thesis
    by (auto simp: con_pool_init_def demo_tps_def)
qed

end
