(* ===== verification/SnoopTask.thy ===== *)
theory SnoopTask
  imports SnoopWrite
begin

text \<open>
  Progress of the write task of \<^verbatim>\<open>http-snooping.c\<close>: repeated calls of \<open>ngx_http_snooping_write_process\<close> take
  the waiting nodes off the wheel.
\<close>

section \<open>The wheel turns\<close>

fun write_calls :: "env \<Rightarrow> nat \<Rightarrow> http_snooping_ctx \<Rightarrow> io list \<Rightarrow> (http_snooping_ctx \<times> io list) option" where
  "write_calls e 0 ctx w = Some (ctx, w)"
| "write_calls e (Suc j) ctx w = do { (ctx1, w1) \<leftarrow> ngx_http_snooping_write_process e ctx w; write_calls e j ctx1 w1 }"

definition slot :: "http_snooping_ctx \<Rightarrow> nat \<Rightarrow> nat list" where
  "slot ctx j = url_cache_list ctx ((unat (ngx_write_tick ctx) + j) mod HTTP_CACHE_TIME_OUT)"

lemma cache_get_slot:
  assumes "unat (ngx_write_tick ctx) < 2 ^ 31"
  shows "slot ctx 0 = [] \<Longrightarrow> http_url_cache_get ctx = Some (None, ctx)"
    "slot ctx 0 = n # ns \<Longrightarrow> \<exists>ctx'. http_url_cache_get ctx = Some (Some n, ctx')"
proof -
  have "int (unat (ngx_write_tick ctx)) < 2 ^ 31"
    using assms of_nat_less_iff [of "unat (ngx_write_tick ctx)" "2 ^ 31", where 'a = int] by (simp only: of_nat_power of_nat_numeral)
  then have s: "sint (ngx_write_tick ctx) = int (unat (ngx_write_tick ctx))" using sint_u32 [of "ngx_write_tick ctx"] by simp
  have "int t smod int HTTP_CACHE_TIME_OUT = int (t mod HTTP_CACHE_TIME_OUT)" for t
    by (simp add: signed_modulo_int_def signed_divide_int_def zmod_int zdiv_int [symmetric] minus_div_mult_eq_mod HTTP_CACHE_TIME_OUT_def sgn_if)
  then have r: "sint (ngx_write_tick ctx) smod int HTTP_CACHE_TIME_OUT = int (unat (ngx_write_tick ctx) mod HTTP_CACHE_TIME_OUT)"
    by (simp only: s)
  show "slot ctx 0 = [] \<Longrightarrow> http_url_cache_get ctx = Some (None, ctx)"
    "slot ctx 0 = n # ns \<Longrightarrow> \<exists>ctx'. http_url_cache_get ctx = Some (Some n, ctx')"
    unfolding http_url_cache_get_def r Let_def by (simp_all add: slot_def)
qed

lemma write_process_idle:
  assumes "unat (ngx_write_tick ctx) < 2 ^ 31" "slot ctx 0 = []"
  shows "\<exists>w'. ngx_http_snooping_write_process e ctx w = Some (ctx\<lparr>ngx_write_tick := ngx_write_tick ctx + 1\<rparr>, w')"
proof -
  have "write_rounds e fd (Suc k) ctx w = Some (ctx\<lparr>ngx_write_tick := ngx_write_tick ctx + 1\<rparr>, w)" for fd k w
    using cache_get_slot(1) [OF assms] by simp
  then have "write_rounds e fd 32 ctx w = Some (ctx\<lparr>ngx_write_tick := ngx_write_tick ctx + 1\<rparr>, w)" for fd w
    by (metis numeral_eq_Suc)
  then show ?thesis by (simp add: ngx_http_snooping_write_process_def Let_def)
qed

lemma unat_tick_add: "unat (t :: u32) + j < 2 ^ 32 \<Longrightarrow> unat (t + of_nat j) = unat t + j"
  by (simp add: unat_word_ariths unat_of_nat)

lemma write_calls_idle:
  assumes "unat (ngx_write_tick ctx) + j < 2 ^ 31" "\<And>i. i < j \<Longrightarrow> slot ctx i = []"
  shows "\<exists>w'. write_calls e j ctx w = Some (ctx\<lparr>ngx_write_tick := ngx_write_tick ctx + of_nat j\<rparr>, w')"
  using assms
proof (induction j arbitrary: ctx w)
  case (Suc j)
  define ctx1 where "ctx1 = ctx\<lparr>ngx_write_tick := ngx_write_tick ctx + 1\<rparr>"
  have t: "unat (ngx_write_tick ctx1) = unat (ngx_write_tick ctx) + 1"
    using unat_tick_add [of "ngx_write_tick ctx" 1] Suc.prems(1) by (simp add: ctx1_def)
  obtain w1 where w1: "ngx_http_snooping_write_process e ctx w = Some (ctx1, w1)"
    using write_process_idle [of ctx e w] Suc.prems(1) Suc.prems(2) [of 0] by (auto simp: ctx1_def)
  have "slot ctx1 i = []" if "i < j" for i
    using Suc.prems(2) [of "Suc i"] that by (simp add: slot_def t) (simp add: ctx1_def)
  then obtain w' where "write_calls e j ctx1 w1 = Some (ctx1\<lparr>ngx_write_tick := ngx_write_tick ctx1 + of_nat j\<rparr>, w')"
    using Suc.IH [of ctx1 w1] Suc.prems(1) by (auto simp: t)
  then show ?case using w1 by (simp add: ctx1_def add.assoc)
qed simp

text \<open>C19. The write task reaches every node that waits. As long as a node is on the wheel, fewer than
  \<open>HTTP_CACHE_TIME_OUT\<close> idle calls of the task go by, each of which only advances the tick, before a call
  takes a node off the wheel (for tick counts below 2 to the 31, where the index of the wheel is positive).\<close>

theorem write_task_takes_node:
  assumes "wheel ctx \<noteq> []" "unat (ngx_write_tick ctx) + HTTP_CACHE_TIME_OUT < 2 ^ 31"
  shows "\<exists>j w' n ctx'. j < HTTP_CACHE_TIME_OUT
    \<and> write_calls e j ctx w = Some (ctx\<lparr>ngx_write_tick := ngx_write_tick ctx + of_nat j\<rparr>, w')
    \<and> n \<in> set (wheel ctx)
    \<and> http_url_cache_get (ctx\<lparr>ngx_write_tick := ngx_write_tick ctx + of_nat j\<rparr>) = Some (Some n, ctx')"
proof -
  define t where "t = unat (ngx_write_tick ctx)"
  obtain s where s: "s < HTTP_CACHE_TIME_OUT" "url_cache_list ctx s \<noteq> []" using assms(1) by (auto simp: wheel_def)
  have "(t + (s + 20 - t mod 20) mod 20) mod 20 = (t mod 20 + (s + 20 - t mod 20)) mod 20" by (simp only: mod_add_left_eq mod_add_right_eq)
  also have "t mod 20 + (s + 20 - t mod 20) = s + 20" using mod_less_divisor [of 20 t] by linarith
  finally have "\<exists>i < HTTP_CACHE_TIME_OUT. (t + i) mod HTTP_CACHE_TIME_OUT = s"
    using s(1) unfolding HTTP_CACHE_TIME_OUT_def by (intro exI [of _ "(s + 20 - t mod 20) mod 20"]) simp
  then have "\<exists>i. i < HTTP_CACHE_TIME_OUT \<and> slot ctx i \<noteq> []" using s(2) by (auto simp: slot_def t_def)
  then obtain j where j: "j < HTTP_CACHE_TIME_OUT" "slot ctx j \<noteq> []" "\<And>i. i < j \<Longrightarrow> slot ctx i = []"
    using exists_least_iff [of "\<lambda>i. i < HTTP_CACHE_TIME_OUT \<and> slot ctx i \<noteq> []"] by (metis order_less_trans)
  define ctx1 where "ctx1 = ctx\<lparr>ngx_write_tick := ngx_write_tick ctx + of_nat j\<rparr>"
  obtain w' where w': "write_calls e j ctx w = Some (ctx1, w')"
    using write_calls_idle [of ctx j e w] j(1,3) assms(2) by (auto simp: ctx1_def)
  have t1: "unat (ngx_write_tick ctx1) = t + j" using unat_tick_add [of "ngx_write_tick ctx" j] j(1) assms(2) by (simp add: ctx1_def t_def)
  have "slot ctx1 0 = slot ctx j" unfolding slot_def t1 by (simp add: t_def ctx1_def)
  moreover obtain n ns where n: "slot ctx j = n # ns" using j(2) by (cases "slot ctx j") auto
  ultimately obtain ctx' where "http_url_cache_get ctx1 = Some (Some n, ctx')"
    using cache_get_slot(2) [of ctx1 n ns] t1 j(1) assms(2) by (auto simp: t_def)
  moreover have "n \<in> set (wheel ctx)"
    using n by (auto simp: wheel_def slot_def HTTP_CACHE_TIME_OUT_def intro!: bexI [of _ "(unat (ngx_write_tick ctx) + j) mod 20"])
  ultimately show ?thesis using j(1) w' unfolding ctx1_def by blast
qed

theorem write_task_takes_node_witness:
  "\<exists>j w' n ctx'. j < HTTP_CACHE_TIME_OUT
    \<and> write_calls demo_env j ((demo_ctx 0)\<lparr>url_cache_list := (\<lambda>_. [])(7 := [5])\<rparr>) []
      = Some ((demo_ctx 0)\<lparr>url_cache_list := (\<lambda>_. [])(7 := [5]), ngx_write_tick := of_nat j\<rparr>, w')
    \<and> http_url_cache_get ((demo_ctx 0)\<lparr>url_cache_list := (\<lambda>_. [])(7 := [5]), ngx_write_tick := of_nat j\<rparr>) = Some (Some n, ctx')"
proof -
  define ctx where "ctx = (demo_ctx 0)\<lparr>url_cache_list := (\<lambda>_. [])(7 := [5])\<rparr>"
  have t: "ngx_write_tick ctx = 0" by (simp add: ctx_def demo_ctx_def ngx_http_snooping_ctx_init_def)
  have "5 \<in> set (wheel ctx)"
    by (auto simp: ctx_def wheel_def HTTP_CACHE_TIME_OUT_def intro!: bexI [of _ 7])
  then have "wheel ctx \<noteq> []" by auto
  from write_task_takes_node [OF this, of demo_env "[]"] show ?thesis
    unfolding t by (auto simp: HTTP_CACHE_TIME_OUT_def ctx_def)
qed

end
