(* ===== verification/SnoopInterleave.thy ===== *)
theory SnoopInterleave
  imports SnoopUrls
begin

text \<open>
  The operations on the URL table as tasks run them side by side. The locks of the code protect single sections, not whole
  operations: \<open>ngx_http_sp_url_handle\<close>, \<open>ngx_http_youku_url_add\<close> and \<open>ngx_http_snooping_url_record\<close> look the key up
  before they take \<open>url_lock\<close>, write the fields of a new node after they have released it, and put it on the wheel
  in a section of its own (\<open>url_cache_lock\<close>); the write task holds no lock between \<open>http_url_cache_get\<close> and the release of
  the node. Here a call is the sequence of these sections, the sections of any number of calls interleave
  in any order, and what a call found in the table may be out of date when it goes on. The invariant that all interleavings
  keep as long as no node is released is \<open>url_struct\<close>, all of \<open>url_inv\<close> but the difference of the keys; two theorems show
  that the rest is lost. A section is atomic here; a lookup that meets an insertion between
  its \<open>hash_add\<close> and its unlock, and single statements that are torn apart, are not modelled.
\<close>

section \<open>Calls and their sections\<close>

text \<open>A call of one of the three operations once its checks are done: the URL (or server name and resource), the
  rule and the key.\<close>

datatype call =
    Handle cstr http_cache_url cstr u8
  | Youku cstr http_cache_url cstr
  | Record cstr cstr http_cache_url cstr

fun call_key :: "call \<Rightarrow> cstr" where
  "call_key (Handle url r k a) = k"
| "call_key (Youku url r k) = k"
| "call_key (Record sname res r k) = k"

fun call_ok :: "host_tree \<Rightarrow> call \<Rightarrow> bool" where
  "call_ok tree (Handle url r k a) \<longleftrightarrow>
     length url \<le> HTTP_SP_URL_LEN_MAX - 1 \<and> ngx_http_url_rule_get tree url = Some r
     \<and> cache_flg r AND HTTP_CACHE_URL_ACTION_CACHE_UPSTREAM \<noteq> 0
     \<and> url_tmp_key HTTP_SP_URL_LEN_MAX url r = Some k \<and> length k < HTTP_SP_LFILE_LEN_MAX"
| "call_ok tree (Youku url r k) \<longleftrightarrow>
     length url + 1 \<le> HTTP_SP_URL_LEN_MAX - 1 \<and> ngx_http_url_rule_get tree url = Some r
     \<and> url_tmp_key (HTTP_SP_URL_LEN_MAX + 64) url r = Some k \<and> length k \<le> HTTP_SP_LFILE_LEN_MAX"
| "call_ok tree (Record sname res r k) \<longleftrightarrow>
     length sname + length res + 1 \<le> HTTP_SP_URL_LEN_MAX - 1 \<and> ngx_http_url_rule_get tree (sname @ res) = Some r
     \<and> url_tmp_key HTTP_SP_URL_LEN_MAX (sname @ res) r = Some k \<and> length k \<le> HTTP_SP_LFILE_LEN_MAX"

text \<open>Where a call stands: it has looked its key up; it has a node whose fields it is about to write; it is about to put
  the node on the wheel; it is about to set the type of the new node; it is about to count an access.\<close>

datatype stage = Found "nat option" | Fill nat | Queue nat u32 | Mime nat | Count nat

text \<open>The sections under \<open>url_lock\<close> that take a free node, and the fields that are written after them. The
  section of \<open>ngx_http_youku_url_add\<close> is \<open>youku_url_new\<close>.\<close>

definition handle_insert ::
  "http_snooping_ctx \<Rightarrow> http_cache_url \<Rightarrow> cstr \<Rightarrow> (nat option \<times> http_snooping_ctx) option" where
  "handle_insert ctx r k =
     (if url_free ctx > 0 then do {
        (n, ctx1) \<leftarrow> url_take ctx;
        let ctx2 = upd_url ctx1 n (\<lambda>v. v\<lparr>url_flags := 0, file_key_name := k,
                     pcache_rule := Some r, redirect_addr := ngx_server_addr ctx1,
                     url_encoding := HTTP_ECODING_TYPE_NONE\<rparr>);
        Some (Some n, upd_url (ngx_http_snooping_url_hash_add ctx2 n) n (\<lambda>v. set_flg HTTP_SNOOPING_FLG_RES v
                        \<lparr>write_error_num := 0, node_mime := http_mime_null\<rparr>))
      }
      else Some (None, ctx))"

definition handle_fill :: "http_snooping_ctx \<Rightarrow> cstr \<Rightarrow> nat \<Rightarrow> http_snooping_ctx" where
  "handle_fill ctx url n =
     upd_url ctx n (\<lambda>v. set_flg HTTP_SNOOPING_FLG_RES_LFB v
       \<lparr>pkt_send_tick := jiffies ctx, data_buf_list := [], url_buf := url,
         server_name_len := url_server_len url, res_url_len := length url - url_server_len url,
         url_access_num := 1\<rparr>)"

definition youku_fill :: "http_snooping_ctx \<Rightarrow> cstr \<Rightarrow> nat \<Rightarrow> http_snooping_ctx" where
  "youku_fill ctx url n =
     upd_url ctx n (\<lambda>v. set_flg (HTTP_SNOOPING_FLG_NGX_DOWN OR HTTP_SNOOPING_FLG_RES_LFB) v
       \<lparr>pkt_send_tick := jiffies ctx, data_buf_list := [], url_buf := url,
         server_name_len := url_server_len url, res_url_len := length url - url_server_len url,
         url_access_num := url_access_num v + 1\<rparr>)"

definition record_insert ::
  "http_snooping_ctx \<Rightarrow> http_cache_url \<Rightarrow> cstr \<Rightarrow> (nat option \<times> http_snooping_ctx) option" where
  "record_insert ctx r k =
     (if url_free ctx > 0 then do {
        (n, ctx1) \<leftarrow> url_take ctx;
        key \<leftarrow> key_buf_store k;
        let ctx2 = upd_url ctx1 n (\<lambda>v. v\<lparr>file_key_name := key, redirect_addr := 0,
                     write_error_num := 0, url_flags := HTTP_SNOOPING_FLG_RES\<rparr>);
        Some (Some n, upd_url (ngx_http_snooping_url_hash_add ctx2 n) n
                        (\<lambda>v. v\<lparr>pcache_rule := Some r, pkt_send_tick := jiffies ctx\<rparr>))
      }
      else Some (None, ctx))"

definition record_fill :: "http_snooping_ctx \<Rightarrow> cstr \<Rightarrow> cstr \<Rightarrow> nat \<Rightarrow> http_snooping_ctx" where
  "record_fill ctx sname res n =
     upd_url ctx n (\<lambda>v. v\<lparr>data_buf_list := [], url_buf := sname @ res,
       server_name_len := length sname, res_url_len := length res,
       url_access_num := 0, url_encoding := HTTP_ECODING_TYPE_NONE, url_action := HTTP_C2SP_ACTION_ADD\<rparr>)"

text \<open>One section of a call. The result is the stage of the call after it, \<open>None\<close> at its end, and the table.\<close>

fun call_section :: "call \<Rightarrow> stage \<Rightarrow> http_snooping_ctx \<Rightarrow> (stage option \<times> http_snooping_ctx) option" where
  "call_section (Handle url r k a) (Found found) ctx =
     (if a = HTTP_C2SP_ACTION_ADD then
        (case found of
           None \<Rightarrow> do { (u, c) \<leftarrow> handle_insert ctx r k; Some (map_option Fill u, c) }
         | Some n \<Rightarrow> Some (Some (Count n), ctx))
      else if a = HTTP_C2SP_ACTION_DELETE then
        (case found of
           None \<Rightarrow> Some (None, ctx)
         | Some n \<Rightarrow> Some (Some (Queue n 0), upd_url ctx n (\<lambda>v. v\<lparr>url_action := HTTP_C2SP_ACTION_DELETE\<rparr>)))
      else Some (None, ctx))"
| "call_section (Youku url r k) (Found found) ctx =
     (case found of
        None \<Rightarrow> do { (u, c) \<leftarrow> youku_url_new ctx r k; Some (map_option Fill u, c) }
      | Some n \<Rightarrow> Some (Some (Fill n), ctx))"
| "call_section (Record sname res r k) (Found found) ctx =
     (case found of
        None \<Rightarrow>
          if cache_flg r AND HTTP_CACHE_URL_ACTION_CACHE_SP \<noteq> 0
          then do { (u, c) \<leftarrow> record_insert ctx r k; Some (map_option Fill u, c) } else Some (None, ctx)
      | Some n \<Rightarrow> Some (Some (Count n), ctx))"
| "call_section (Handle url r k a) (Fill n) ctx = Some (None, handle_fill ctx url n)"
| "call_section (Youku url r k) (Fill n) ctx = Some (Some (Queue n 1), youku_fill ctx url n)"
| "call_section (Record sname res r k) (Fill n) ctx = Some (Some (Queue n 0), record_fill ctx sname res n)"
| "call_section (Record sname res r k) (Queue n t) ctx = Some (Some (Mime n), http_url_cache_data_add ctx n t)"
| "call_section c (Queue n t) ctx = Some (None, http_url_cache_add ctx n t)"
| "call_section c (Mime n) ctx = Some (Some (Count n), upd_url ctx n (\<lambda>v. v\<lparr>node_mime := http_mime_null\<rparr>))"
| "call_section c (Count n) ctx = Some (None, upd_url ctx n (\<lambda>v. v\<lparr>url_access_num := url_access_num v + 1\<rparr>))"

text \<open>A call that runs to its end without being interrupted, with a bound on the number of its sections.\<close>

fun finish :: "nat \<Rightarrow> call \<Rightarrow> stage \<Rightarrow> http_snooping_ctx \<Rightarrow> http_snooping_ctx option" where
  "finish 0 c st ctx = None"
| "finish (Suc m) c st ctx =
     do {
       (st', ctx') \<leftarrow> call_section c st ctx;
       case st' of None \<Rightarrow> Some ctx' | Some st'' \<Rightarrow> finish m c st'' ctx'
     }"

fun call_op :: "host_tree \<Rightarrow> call \<Rightarrow> http_snooping_ctx \<Rightarrow> http_snooping_ctx option" where
  "call_op tree (Handle url r k a) ctx = map_option snd (ngx_http_sp_url_handle tree ctx url a)"
| "call_op tree (Youku url r k) ctx = ngx_http_youku_url_add tree ctx url"
| "call_op tree (Record sname res r k) ctx = map_option (snd \<circ> snd) (ngx_http_snooping_url_record tree ctx sname res 0)"

section \<open>Interleavings\<close>

text \<open>The state: the table, the calls that are under way, and the node that the write task has in its hands.\<close>

record conc =
  tab :: http_snooping_ctx
  calls :: "nat \<Rightarrow> (call \<times> stage) option"
  writer :: "nat option"

definition conc_init :: "conc \<Rightarrow> bool" where
  "conc_init s \<longleftrightarrow> (\<exists>server ticks. tab s = ngx_http_snooping_ctx_init server ticks)
     \<and> calls s = (\<lambda>_. None) \<and> writer s = None"

text \<open>The steps: a task starts a call and looks its key up; a call goes on by one section; the write task takes a node from
  the wheel, finds none, is done with its node, or, if \<open>del\<close> allows it, releases it. The write task, the packet path and the
  messages also write fields of nodes that do not concern the lists (\<open>touch\<close>) and put nodes on the wheel
  (\<open>queue\<close>).\<close>

inductive conc_step :: "bool \<Rightarrow> host_tree \<Rightarrow> conc \<Rightarrow> conc \<Rightarrow> bool" for del tree where
  look: "calls s t = None \<Longrightarrow> call_ok tree c \<Longrightarrow>
    conc_step del tree s
      (s\<lparr>calls := (calls s)(t := Some (c, Found (ngx_http_snooping_url_hash_find (tab s) (call_key c))))\<rparr>)"
| go: "calls s t = Some (c, st) \<Longrightarrow> call_section c st (tab s) = Some (st', ctx') \<Longrightarrow>
    conc_step del tree s (s\<lparr>tab := ctx', calls := (calls s)(t := map_option (Pair c) st')\<rparr>)"
| take_node: "writer s = None \<Longrightarrow> http_url_cache_get (tab s) = Some (Some n, ctx') \<Longrightarrow>
    conc_step del tree s (s\<lparr>tab := ctx', writer := Some n\<rparr>)"
| idle: "writer s = None \<Longrightarrow> http_url_cache_get (tab s) = Some (None, ctx') \<Longrightarrow>
    conc_step del tree s (s\<lparr>tab := ctx'\<lparr>ngx_write_tick := ngx_write_tick ctx' + 1\<rparr>\<rparr>)"
| leave: "writer s = Some n \<Longrightarrow> conc_step del tree s (s\<lparr>writer := None\<rparr>)"
| release: "del \<Longrightarrow> writer s = Some n \<Longrightarrow> url_action (url_base (tab s) n) = HTTP_C2SP_ACTION_DELETE \<Longrightarrow>
    conc_step del tree s (s\<lparr>tab := url_release (tab s) n, writer := None\<rparr>)"
| touch: "n \<in> set (url_use_list (tab s)) \<Longrightarrow> keeps f (url_base (tab s) n) \<Longrightarrow>
    conc_step del tree s (s\<lparr>tab := upd_url (tab s) n f\<rparr>)"
| queue: "n \<in> set (url_use_list (tab s)) \<Longrightarrow>
    conc_step del tree s (s\<lparr>tab := http_url_cache_add (tab s) n tick\<rparr>)"
| time: "conc_step del tree s (s\<lparr>tab := (tab s)\<lparr>jiffies := j\<rparr>\<rparr>)"

section \<open>An uninterrupted call is the operation\<close>

lemma url_handle_new_sections:
  "url_handle_new ctx url r k =
     do { (u, c) \<leftarrow> handle_insert ctx r k; Some (case u of None \<Rightarrow> (-1, c) | Some n \<Rightarrow> (int n, handle_fill c url n)) }"
  by (auto simp: url_handle_new_def handle_insert_def handle_fill_def Let_def split: option.splits prod.splits bind_splits)

lemma youku_url_touch_sections: "youku_url_touch ctx url n = http_url_cache_add (youku_fill ctx url n) n 1"
  by (simp add: youku_url_touch_def youku_fill_def)

lemma upd_url_twice: "upd_url (upd_url ctx n f) n g = upd_url ctx n (\<lambda>v. g (f v))"
  by (simp add: upd_url_def)

lemma hash_add_jiffies [simp]: "jiffies (ngx_http_snooping_url_hash_add ctx n) = jiffies ctx"
  by (simp add: ngx_http_snooping_url_hash_add_def Let_def)

lemma url_take_jiffies: "url_take ctx = Some (n, ctx1) \<Longrightarrow> jiffies ctx1 = jiffies ctx"
  by (auto simp: url_take_def split: list.splits)

lemma url_record_new_sections:
  "url_record_new ctx sname res pf r k =
     (if cache_flg r AND HTTP_CACHE_URL_ACTION_CACHE_SP \<noteq> 0
      then do {
        (u, c) \<leftarrow> record_insert ctx r k;
        Some (case u of
                None \<Rightarrow> (None, pf, c)
              | Some n \<Rightarrow> (Some n, if length (tail_xiegan r) = 1 then 1 else 0,
                  upd_url (http_url_cache_data_add (record_fill c sname res n) n 0) n (\<lambda>v. v\<lparr>node_mime := http_mime_null\<rparr>)))
      }
      else Some (None, pf, ctx))"
  by (auto simp: url_record_new_def record_insert_def record_fill_def Let_def upd_url_twice url_take_jiffies
      split: option.splits prod.splits bind_splits)

lemma handle_uninterrupted:
  assumes "call_ok tree (Handle url r k a)"
  shows "map_option snd (ngx_http_sp_url_handle tree ctx url a)
    = finish 5 (Handle url r k a) (Found (ngx_http_snooping_url_hash_find ctx k)) ctx"
proof -
  have "ngx_http_sp_url_handle tree ctx url a = url_handle_action ctx url r k a"
    using assms by (simp add: ngx_http_sp_url_handle_def)
  then show ?thesis
    by (cases "ngx_http_snooping_url_hash_find ctx k")
      (auto simp: url_handle_action_def url_handle_new_sections numeral_eq_Suc split: option.splits bind_splits)
qed

lemma youku_uninterrupted:
  assumes "call_ok tree (Youku url r k)"
  shows "ngx_http_youku_url_add tree ctx url
    = finish 5 (Youku url r k) (Found (ngx_http_snooping_url_hash_find ctx k)) ctx"
  using assms by (cases "ngx_http_snooping_url_hash_find ctx k")
    (auto simp: ngx_http_youku_url_add_def youku_url_find_def youku_url_touch_sections numeral_eq_Suc
      split: option.splits bind_splits)

lemma record_uninterrupted:
  assumes "call_ok tree (Record sname res r k)"
  shows "map_option (snd \<circ> snd) (ngx_http_snooping_url_record tree ctx sname res pf)
    = finish 5 (Record sname res r k) (Found (ngx_http_snooping_url_hash_find ctx k)) ctx"
  using assms by (cases "ngx_http_snooping_url_hash_find ctx k")
    (auto simp: ngx_http_snooping_url_record_def url_record_find_def url_record_new_sections numeral_eq_Suc
      split: option.splits bind_splits)

lemma call_uninterrupted:
  "call_ok tree c \<Longrightarrow> call_op tree c ctx = finish 5 c (Found (ngx_http_snooping_url_hash_find ctx (call_key c))) ctx"
  by (cases c) (simp_all only: call_op.simps call_key.simps handle_uninterrupted youku_uninterrupted record_uninterrupted)

section \<open>What all interleavings keep\<close>

fun stage_node :: "stage \<Rightarrow> nat option" where
  "stage_node (Found u) = u"
| "stage_node (Fill n) = Some n"
| "stage_node (Queue n t) = Some n"
| "stage_node (Mime n) = Some n"
| "stage_node (Count n) = Some n"

text \<open>A section on a node in use keeps the structure, and no node in use is given up.\<close>

definition grows :: "http_snooping_ctx \<Rightarrow> http_snooping_ctx \<Rightarrow> bool" where
  "grows ctx ctx' \<longleftrightarrow> url_struct ctx' \<and> set (url_use_list ctx) \<subseteq> set (url_use_list ctx')"

lemma grows_upd: "url_struct ctx \<Longrightarrow> keeps f (url_base ctx n) \<Longrightarrow> grows ctx (upd_url ctx n f)"
  by (simp add: grows_def url_struct_upd)

lemma grows_cache_add: "url_struct ctx \<Longrightarrow> n \<in> set (url_use_list ctx) \<Longrightarrow> grows ctx (http_url_cache_add ctx n t)"
  by (simp add: grows_def cache_add_struct)

lemma url_take_struct:
  "url_struct ctx \<Longrightarrow> 0 < url_free ctx \<Longrightarrow> \<exists>n ctx1. url_take ctx = Some (n, ctx1)"
  by (auto simp: url_take_def url_struct_def pool_inv_def split: list.split)

text \<open>The three insertions take a node that is not in use and give it the key.\<close>

definition inserted :: "http_snooping_ctx \<Rightarrow> cstr \<Rightarrow> nat option \<times> http_snooping_ctx \<Rightarrow> bool" where
  "inserted ctx k = (\<lambda>(u, c). case u of
       None \<Rightarrow> c = ctx
     | Some n \<Rightarrow> url_struct c \<and> key_of c = (key_of ctx)(n := k) \<and> url_use_list c = n # url_use_list ctx
         \<and> n \<notin> set (url_use_list ctx) \<and> url_free c = url_free ctx - 1)"

lemma inserted_new:
  assumes "url_struct ctx" "url_take ctx = Some (n, ctx1)" "file_key_name (f (url_base ctx n)) = k"
    and "w = g (set_flg HTTP_SNOOPING_FLG_URL_HASH (f (url_base ctx n)))" "file_key_name w = k" "pcache_rule w \<noteq> None"
      "bit (url_flags w) 0" "\<not> bit (url_flags w) 2" "bit (url_flags w) 3"
  shows "inserted ctx k (Some n, upd_url (ngx_http_snooping_url_hash_add (upd_url ctx1 n f) n) n g)"
proof -
  have "url_free ctx1 = url_free ctx - 1" by (rule url_take_inv [OF assms(2)]) simp
  then have "url_free (upd_url (ngx_http_snooping_url_hash_add (upd_url ctx1 n f) n) n g) = url_free ctx - 1"
    by (simp add: ngx_http_snooping_url_hash_add_def Let_def)
  then show ?thesis
    using url_new_struct [where f = f and g = g, OF assms refl] by (simp add: inserted_def)
qed

lemma handle_insert_ok:
  assumes "url_struct ctx" "handle_insert ctx r k = Some x"
  shows "inserted ctx k x"
proof (cases "0 < url_free ctx")
  case True
  then obtain n ctx1 where tk: "url_take ctx = Some (n, ctx1)" using url_take_struct [OF assms(1)] by blast
  show ?thesis using assms(2) True inserted_new [OF assms(1) tk _ refl]
    by (auto simp: handle_insert_def tk Let_def bit_or_iff)
qed (use assms in \<open>auto simp: handle_insert_def inserted_def\<close>)

lemma record_insert_ok:
  assumes "url_struct ctx" "record_insert ctx r k = Some x"
  shows "inserted ctx k x"
proof (cases "0 < url_free ctx")
  case True
  then obtain n ctx1 where tk: "url_take ctx = Some (n, ctx1)" using url_take_struct [OF assms(1)] by blast
  show ?thesis using assms(2) True inserted_new [OF assms(1) tk _ refl]
    by (auto simp: record_insert_def tk Let_def bit_or_iff key_buf_store_def split: if_splits)
qed (use assms in \<open>auto simp: record_insert_def inserted_def\<close>)

lemma youku_insert_ok:
  assumes "url_struct ctx" "youku_url_new ctx r k = Some x"
  shows "inserted ctx k x"
proof (cases "0 < url_free ctx")
  case True
  then obtain n ctx1 where tk: "url_take ctx = Some (n, ctx1)" using url_take_struct [OF assms(1)] by blast
  show ?thesis using assms(2) True inserted_new [OF assms(1) tk _ refl]
    by (auto simp: youku_url_new_def tk Let_def bit_or_iff key_buf_store_def split: if_splits)
qed (use assms in \<open>auto simp: youku_url_new_def inserted_def\<close>)

lemma call_section_keeps:
  assumes s: "url_struct ctx" and n: "\<And>n. stage_node st = Some n \<Longrightarrow> n \<in> set (url_use_list ctx)"
    and r: "call_section c st ctx = Some (st', ctx')"
  shows "grows ctx ctx' \<and> (\<forall>st'' n. st' = Some st'' \<and> stage_node st'' = Some n \<longrightarrow> n \<in> set (url_use_list ctx'))"
proof -
  have ins: "grows ctx d \<and> (\<forall>m. u = Some m \<longrightarrow> m \<in> set (url_use_list d))" if "inserted ctx k (u, d)" for u d k
    using that s by (cases u) (auto simp: inserted_def grows_def)
  note i = ins [OF handle_insert_ok [OF s]] ins [OF youku_insert_ok [OF s]] ins [OF record_insert_ok [OF s]]
  have keep: "grows ctx (handle_fill ctx url m)" "grows ctx (youku_fill ctx url m)" "grows ctx (record_fill ctx sname res m)"
    "grows ctx (upd_url ctx m (\<lambda>v. v\<lparr>url_action := HTTP_C2SP_ACTION_DELETE\<rparr>))"
    "grows ctx (upd_url ctx m (\<lambda>v. v\<lparr>node_mime := http_mime_null\<rparr>))"
    "grows ctx (upd_url ctx m (\<lambda>v. v\<lparr>url_access_num := url_access_num v + 1\<rparr>))" for url sname res m
    unfolding handle_fill_def youku_fill_def record_fill_def
    by (intro grows_upd [OF s]; simp add: keeps_simps bit_or_iff)+
  have same: "grows ctx ctx" using s by (simp add: grows_def)
  have mono: "grows ctx d \<Longrightarrow> m \<in> set (url_use_list ctx) \<Longrightarrow> m \<in> set (url_use_list d)" for d m
    by (auto simp: grows_def)
  show ?thesis
  proof (cases st)
    case (Found u)
    show ?thesis
    proof (cases u)
      case None
      then show ?thesis using r Found same
        by (cases c) (auto simp: bind_eq_Some_conv split: if_splits dest!: i)
    next
      case (Some m)
      then have m: "m \<in> set (url_use_list ctx)" using n Found by simp
      then show ?thesis using r Found Some same keep(4) mono by (cases c) (auto split: if_splits)
    qed
  next
    case (Fill m)
    then show ?thesis using r n keep(1-3) mono by (cases c) auto
  next
    case (Queue m t)
    then have "m \<in> set (url_use_list ctx)" using n by simp
    then show ?thesis using r Queue mono grows_cache_add [OF s, of m t]
      by (cases c) (auto simp: http_url_cache_data_add_eq)
  next
    case (Mime m)
    then show ?thesis using r n keep(5) mono by (cases c) auto
  next
    case (Count m)
    then show ?thesis using r keep(6) by (cases c) auto
  qed
qed

definition conc_inv :: "conc \<Rightarrow> bool" where
  "conc_inv s \<longleftrightarrow> url_struct (tab s)
     \<and> (\<forall>t c st n. calls s t = Some (c, st) \<and> stage_node st = Some n \<longrightarrow> n \<in> set (url_use_list (tab s)))"

lemma conc_inv_grows:
  assumes "conc_inv s" "grows (tab s) ctx'"
  shows "conc_inv (s\<lparr>tab := ctx'\<rparr>)"
  using assms by (fastforce simp: conc_inv_def grows_def)

lemma struct_tick [simp]:
  "url_struct (ctx\<lparr>ngx_write_tick := x\<rparr>) = url_struct ctx" "url_struct (ctx\<lparr>jiffies := y\<rparr>) = url_struct ctx"
  by (simp_all add: url_struct_def pool_inv_def hash_struct_def wheel_inv_def key_of_def wheel_def)

interpretation conc: state_inv conc_init "conc_step False tree" conc_inv
proof
  fix s assume "conc_init s"
  then show "conc_inv s" using url_inv_init by (auto simp: conc_init_def conc_inv_def url_inv_struct)
next
  fix s s' assume "conc_step False tree s s'" "conc_inv s"
  then show "conc_inv s'"
  proof (induction rule: conc_step.induct)
    case (look s t c)
    then show ?case using hash_find_use [of "tab s" "call_key c"] by (auto simp: conc_inv_def)
  next
    case (go s t c st st' ctx')
    have "grows (tab s) ctx' \<and> (\<forall>st'' n. st' = Some st'' \<and> stage_node st'' = Some n \<longrightarrow> n \<in> set (url_use_list ctx'))"
      by (rule call_section_keeps [OF _ _ go(2)]) (use go(1,3) in \<open>auto simp: conc_inv_def\<close>)
    then have g: "grows (tab s) ctx'" "\<And>st'' n. st' = Some st'' \<Longrightarrow> stage_node st'' = Some n \<Longrightarrow> n \<in> set (url_use_list ctx')"
      by blast+
    show ?case unfolding conc_inv_def
    proof (intro conjI allI impI)
      show "url_struct (tab (s\<lparr>tab := ctx', calls := (calls s)(t := map_option (Pair c) st')\<rparr>))"
        using g(1) by (simp add: grows_def)
      fix t' c' st1 n
      assume a: "calls (s\<lparr>tab := ctx', calls := (calls s)(t := map_option (Pair c) st')\<rparr>) t' = Some (c', st1) \<and> stage_node st1 = Some n"
      then show "n \<in> set (url_use_list (tab (s\<lparr>tab := ctx', calls := (calls s)(t := map_option (Pair c) st')\<rparr>)))"
      proof (cases "t' = t")
        case False
        then have "n \<in> set (url_use_list (tab s))" using a go(3) unfolding conc_inv_def by simp
        then show ?thesis using g(1) by (auto simp: grows_def)
      qed (use g(2) in auto)
    qed
  next
    case (take_node s n ctx')
    then have "url_struct (tab s)" by (simp add: conc_inv_def)
    from cache_get_struct [OF this take_node(2)] have "grows (tab s) ctx'" by (simp add: grows_def)
    then show ?case using conc_inv_grows [OF take_node(3)] by (simp add: conc_inv_def)
  next
    case (idle s ctx')
    then have "ctx' = tab s" by (auto simp: http_url_cache_get_def Let_def split: if_splits list.splits)
    then show ?case using idle(3) by (simp add: conc_inv_def)
  next
    case (touch n s f)
    then show ?case by (intro conc_inv_grows) (auto simp: conc_inv_def grows_upd)
  next
    case (queue n s tick)
    then show ?case by (intro conc_inv_grows) (auto simp: conc_inv_def grows_cache_add)
  qed (auto simp: conc_inv_def)
qed

section \<open>Properties\<close>

text \<open>C1. The URL table under all interleavings of the sections of any number of calls, of the write task and of the writes to single
  nodes, as long as no node is released: every node is either free or used, the counter of free nodes
  is right, every used node is in the hash table once, in the bucket of its key, and on the wheel at most
  once, only used nodes are on the wheel, and the counter of the wheel is right. That the keys of the used nodes differ is not
  part of it.\<close>

theorem interleaved_table_consistent:
  assumes "conc_init s0" "(conc_step False tree)\<^sup>*\<^sup>* s0 s"
  shows "url_free (tab s) = int (length (url_free_list (tab s)))
    \<and> distinct (url_free_list (tab s) @ url_use_list (tab s))
    \<and> set (url_free_list (tab s) @ url_use_list (tab s)) = {..<HTTP_SP_URL_MAX}
    \<and> (\<forall>h. distinct (url_hash (tab s) h) \<and> set (url_hash (tab s) h)
         = {n \<in> set (url_use_list (tab s)). url_bucket (file_key_name (url_base (tab s) n)) = h})
    \<and> distinct (wheel (tab s)) \<and> set (wheel (tab s)) \<subseteq> set (url_use_list (tab s))
    \<and> cache_num (tab s) = of_nat (length (wheel (tab s)))"
proof -
  have "url_struct (tab s)" using conc.reach_inv [OF assms] by (simp add: conc_inv_def)
  then show ?thesis
    unfolding url_struct_def pool_inv_def hash_struct_def wheel_inv_def key_of_def by blast
qed

definition conc0 :: conc where
  "conc0 = \<lparr>tab = ngx_http_snooping_ctx_init 0 0, calls = (\<lambda>_. None), writer = None\<rparr>"

definition youku_call :: "u8 \<Rightarrow> call" where
  "youku_call a = Handle ''1.2.3.4/youku/x.flv'' (http_cache_file ! 0) ''/youku/x.flv'' a"

lemma conc_init0: "conc_init conc0"
  by (auto simp: conc_init_def conc0_def)

lemma youku_call_ok: "call_ok http_cache_host_tree (youku_call a)"
  using youku_flv_rule youku_flv_flags youku_flv_key
  by (simp add: youku_call_def HTTP_SP_URL_LEN_MAX_def HTTP_SP_LFILE_LEN_MAX_def)

lemma interleaved_table_consistent_witness:
  "\<exists>s. (conc_step False http_cache_host_tree)\<^sup>*\<^sup>* conc0 s \<and> calls s 7 \<noteq> None
     \<and> url_free (tab s) = int (length (url_free_list (tab s)))"
proof -
  define s where "s = conc0\<lparr>calls := (calls conc0)(7 := Some (youku_call HTTP_C2SP_ACTION_ADD,
    Found (ngx_http_snooping_url_hash_find (tab conc0) (call_key (youku_call HTTP_C2SP_ACTION_ADD)))))\<rparr>"
  have "conc_step False http_cache_host_tree conc0 s" unfolding s_def
    by (rule look [OF _ youku_call_ok]) (simp add: conc0_def)
  then have r: "(conc_step False http_cache_host_tree)\<^sup>*\<^sup>* conc0 s" by blast
  moreover have "calls s 7 \<noteq> None" by (simp add: s_def)
  ultimately show ?thesis using interleaved_table_consistent [OF conc_init0 r] by blast
qed

lemma four_steps: "r a b \<Longrightarrow> r b c \<Longrightarrow> r c d \<Longrightarrow> r d e \<Longrightarrow> r\<^sup>*\<^sup>* a e"
  by (rule converse_rtranclp_into_rtranclp, assumption)+ (rule rtranclp.rtrancl_refl)

text \<open>An insertion by the second section of an add request.\<close>

lemma handle_insert_some:
  assumes "url_struct ctx" "0 < url_free ctx"
  obtains n c where "handle_insert ctx r k = Some (Some n, c)" "inserted ctx k (Some n, c)"
proof -
  obtain n ctx1 where "url_take ctx = Some (n, ctx1)" using url_take_struct assms by blast
  then have "\<exists>c. handle_insert ctx r k = Some (Some n, c)" using assms(2) by (simp add: handle_insert_def Let_def)
  then show ?thesis using that handle_insert_ok [OF assms(1)] by blast
qed

text \<open>C9. The keys do not stay different. Whenever an unknown URL that passes the checks is added by two tasks at once and two nodes
  are free, there is an interleaving after which two used nodes have the key of the URL: both calls look the key
  up (\<^verbatim>\<open>http-snooping.c:991\<close>) before either of them takes the lock (line 996).\<close>

theorem interleaved_adds_duplicate:
  assumes "url_struct (tab s)" "2 \<le> url_free (tab s)" "calls s t = None" "calls s u = None" "t \<noteq> u"
    and "call_ok tree (Handle url r k HTTP_C2SP_ACTION_ADD)" "ngx_http_snooping_url_hash_find (tab s) k = None"
  shows "\<exists>s' n m. (conc_step False tree)\<^sup>*\<^sup>* s s' \<and> n \<noteq> m \<and> {n, m} \<subseteq> set (url_use_list (tab s'))
    \<and> file_key_name (url_base (tab s') n) = k \<and> file_key_name (url_base (tab s') m) = k"
proof -
  define c where "c = Handle url r k HTTP_C2SP_ACTION_ADD"
  define s1 where "s1 = s\<lparr>calls := (calls s)(t := Some (c, Found None))\<rparr>"
  define s2 where "s2 = s1\<lparr>calls := (calls s1)(u := Some (c, Found None))\<rparr>"
  have 1: "conc_step False tree s s1"
    using look [of s t tree c False] assms(3,6,7) by (simp add: s1_def c_def)
  have 2: "conc_step False tree s1 s2"
    using look [of s1 u tree c False] assms(4-7) by (simp add: s1_def s2_def c_def)
  obtain n d where d: "handle_insert (tab s) r k = Some (Some n, d)" "inserted (tab s) k (Some n, d)"
    using handle_insert_some [OF assms(1)] assms(2) by (metis less_le_trans zero_less_numeral)
  then have d': "url_struct d" "0 < url_free d" "url_use_list d = n # url_use_list (tab s)" "key_of d n = k"
    using assms(2) by (simp_all add: inserted_def)
  obtain m e where e: "handle_insert d r k = Some (Some m, e)" "inserted d k (Some m, e)"
    using handle_insert_some [OF d'(1,2)] by blast
  define s3 where "s3 = s2\<lparr>tab := d, calls := (calls s2)(t := map_option (Pair c) (Some (Fill n)))\<rparr>"
  define s4 where "s4 = s3\<lparr>tab := e, calls := (calls s3)(u := map_option (Pair c) (Some (Fill m)))\<rparr>"
  have 3: "conc_step False tree s2 s3" unfolding s3_def
    by (rule go [where st = "Found None"]) (use assms(5) d(1) in \<open>simp_all add: s2_def s1_def c_def\<close>)
  have 4: "conc_step False tree s3 s4" unfolding s4_def
    by (rule go [where st = "Found None"]) (use assms(5) e(1) in \<open>simp_all add: s3_def s2_def s1_def c_def\<close>)
  have "(conc_step False tree)\<^sup>*\<^sup>* s s4" by (rule four_steps [of "conc_step False tree", OF 1 2 3 4])
  moreover have "m \<noteq> n" "key_of e n = k" "key_of e m = k" "{n, m} \<subseteq> set (url_use_list e)"
    using e(2) d'(3,4) by (auto simp: inserted_def)
  ultimately show ?thesis unfolding key_of_def
    by (intro exI [of _ s4] exI [of _ n] exI [of _ m]) (simp add: s4_def)
qed

lemma interleaved_adds_duplicate_witness:
  "\<exists>s n m. (conc_step False http_cache_host_tree)\<^sup>*\<^sup>* conc0 s \<and> n \<noteq> m \<and> {n, m} \<subseteq> set (url_use_list (tab s))
     \<and> file_key_name (url_base (tab s) n) = ''/youku/x.flv'' \<and> file_key_name (url_base (tab s) m) = ''/youku/x.flv''"
proof -
  have "url_struct (tab conc0)" using conc.init_inv [OF conc_init0] by (simp add: conc_inv_def)
  moreover have "2 \<le> url_free (tab conc0)"
    by (simp add: conc0_def ngx_http_snooping_ctx_init_def HTTP_SP_URL_MAX_def)
  moreover have "calls conc0 0 = None" "calls conc0 1 = None" "(0 :: nat) \<noteq> 1"
    "ngx_http_snooping_url_hash_find (tab conc0) ''/youku/x.flv'' = None"
    using ctx_init_free(2) by (simp_all add: conc0_def)
  ultimately show ?thesis
    using interleaved_adds_duplicate [of conc0 0 1] youku_call_ok [of HTTP_C2SP_ACTION_ADD] unfolding youku_call_def by blast
qed

text \<open>A released node can come back to the wheel. While the write task has in its hands a node that is marked for
  deletion, another delete request for its URL finds it; when the write task has released the node
  (\<^verbatim>\<open>http-snooping.c:3076\<close>) the request puts it on the wheel, where it stays as a free node.\<close>

lemma interleaved_delete_queues_free_node:
  assumes "url_inv (tab s)" "writer s = Some n" "n \<in> set (url_use_list (tab s))" "calls s t = None"
    and "\<not> has_flg HTTP_SNOOPING_FLG_CACHE_LIST (url_base (tab s) n)"
    and "call_ok tree (Handle url r k HTTP_C2SP_ACTION_DELETE)" "ngx_http_snooping_url_hash_find (tab s) k = Some n"
  shows "\<exists>s'. (conc_step True tree)\<^sup>*\<^sup>* s s' \<and> n \<in> set (wheel (tab s')) \<and> n \<in> set (url_free_list (tab s'))
    \<and> n \<notin> set (url_use_list (tab s'))"
proof -
  define c where "c = Handle url r k HTTP_C2SP_ACTION_DELETE"
  define d where "d = upd_url (tab s) n (\<lambda>v. v\<lparr>url_action := HTTP_C2SP_ACTION_DELETE\<rparr>)"
  define e where "e = url_release d n"
  define s1 where "s1 = s\<lparr>calls := (calls s)(t := Some (c, Found (Some n)))\<rparr>"
  define s2 where "s2 = s1\<lparr>tab := d, calls := (calls s1)(t := map_option (Pair c) (Some (Queue n 0)))\<rparr>"
  define s3 where "s3 = s2\<lparr>tab := e, writer := None\<rparr>"
  define s4 where "s4 = s3\<lparr>tab := http_url_cache_add e n 0, calls := (calls s3)(t := map_option (Pair c) None)\<rparr>"
  have 1: "conc_step True tree s s1"
    using look [of s t tree c True] assms(4,6,7) by (simp add: s1_def c_def)
  have 2: "conc_step True tree s1 s2" unfolding s2_def
    by (rule go [where st = "Found (Some n)"])
      (simp_all add: s1_def c_def d_def HTTP_C2SP_ACTION_DELETE_def HTTP_C2SP_ACTION_ADD_def)
  have 3: "conc_step True tree s2 s3"
    using release [of True s2 n tree] assms(2) by (simp add: s3_def s2_def s1_def d_def e_def)
  have 4: "conc_step True tree s3 s4" unfolding s4_def
    by (rule go [where st = "Queue n 0"]) (simp_all add: s3_def s2_def c_def)
  have "(conc_step True tree)\<^sup>*\<^sup>* s s4" by (rule four_steps [of "conc_step True tree", OF 1 2 3 4])
  moreover have "n \<in> set (wheel (tab s4))"
    using cache_add_wheel [of e n 0] by (simp add: s4_def e_def url_release_def Let_def has_flg_def)
  moreover have "url_inv d" unfolding d_def by (rule url_inv_upd [OF assms(1)]) (simp add: keeps_simps)
  then have "distinct (url_use_list d)" by (simp add: url_inv_def pool_inv_def)
  then have "n \<in> set (url_free_list e)" "n \<notin> set (url_use_list e)"
    by (simp_all add: e_def url_release_def ngx_http_snooping_url_hash_del_def Let_def)
  ultimately show ?thesis by (intro exI [of _ s4]) (simp add: s4_def)
qed

lemma interleaved_delete_queues_free_node_example:
  "\<exists>s s' n. url_inv (tab s) \<and> (conc_step True http_cache_host_tree)\<^sup>*\<^sup>* s s'
     \<and> n \<in> set (wheel (tab s')) \<and> n \<in> set (url_free_list (tab s'))"
proof -
  have init: "url_struct (tab conc0)" "0 < url_free (tab conc0)" "url_use_list (tab conc0) = []"
    using conc.init_inv [OF conc_init0]
    by (simp_all add: conc_inv_def conc0_def ngx_http_snooping_ctx_init_def HTTP_SP_URL_MAX_def)
  obtain n c where c: "handle_insert (tab conc0) (http_cache_file ! 0) ''/youku/x.flv'' = Some (Some n, c)"
    "inserted (tab conc0) ''/youku/x.flv'' (Some n, c)"
    by (rule handle_insert_some [OF init(1,2)])
  then have inv: "url_inv c" "url_use_list c = [n]" "key_of c n = ''/youku/x.flv''"
    using init(3) by (simp_all add: inserted_def url_inv_struct)
  have "url_map c ''/youku/x.flv'' = Some n" using url_map_Some_iff [OF inv(1)] inv(2,3) by simp
  then have find: "ngx_http_snooping_url_hash_find c ''/youku/x.flv'' = Some n"
    using hash_find_map [OF inv(1), of "''/youku/x.flv''"] by simp
  have flg: "\<not> has_flg HTTP_SNOOPING_FLG_CACHE_LIST (url_base c n)"
    using c(1) by (auto simp: handle_insert_def Let_def bind_eq_Some_conv c_simps bit_or_iff ngx_http_snooping_url_hash_add_def
        split: if_splits)
  have ok: "call_ok http_cache_host_tree (Handle ''1.2.3.4/youku/x.flv'' (http_cache_file ! 0) ''/youku/x.flv'' HTTP_C2SP_ACTION_DELETE)"
    using youku_call_ok [of HTTP_C2SP_ACTION_DELETE] unfolding youku_call_def .
  define s where "s = conc0\<lparr>tab := c, writer := Some n\<rparr>"
  have s: "tab s = c" "writer s = Some n" "calls s 0 = None" by (simp_all add: s_def conc0_def)
  have "n \<in> set (url_use_list (tab s))" by (simp add: s inv(2))
  from interleaved_delete_queues_free_node [OF inv(1) [folded s(1)] s(2) this s(3) flg [folded s(1)] ok find [folded s(1)]]
  show ?thesis using inv(1) unfolding s(1) [symmetric] by blast
qed

end
