(* ===== verification/ScUtil.thy ===== *)
theory ScUtil
  imports SnoopKeys
begin

text \<open>
  The utilities of the snooping clients, \<^verbatim>\<open>src/nginx/snoop_client/ngx_sc_util.c\<close>: connecting to a host with
  retries, the test for a dotted address, the parser of status lines and the copying of URLs. The system calls
  \<open>socket\<close> and \<open>connect\<close> and the library function \<open>inet_aton\<close> are arguments; what is done to the network is a list of
  events. The parser and the test are compared with descriptions of the texts they accept.
\<close>

section \<open>Connecting\<close>

definition MAX_SLEEP :: nat where
  "MAX_SLEEP = 32"

text \<open>What the client does to the network: sockets it opens and closes, attempts to connect, with their outcome, and
  pauses in seconds.\<close>

datatype sc_event = ScSocket int | ScConnect bool | ScSleep nat | ScClose int

text \<open>The loop of \<open>sock_conn_retry\<close>; the pause is 2 to the \<open>k\<close>. The outcome of an attempt depends on what
  happened before.\<close>

function conn_retry :: "(sc_event list \<Rightarrow> bool) \<Rightarrow> nat \<Rightarrow> sc_event list \<Rightarrow> int \<times> sc_event list" where
  "conn_retry connect k w =
     (if 2 ^ k > MAX_SLEEP then (-1, w)
      else if connect w then (0, w @ [ScConnect True])
      else conn_retry connect (Suc k)
             (w @ ScConnect False # (if 2 ^ k \<le> MAX_SLEEP div 2 then [ScSleep (2 ^ k)] else [])))"
  by pat_completeness auto
termination
proof (relation "measure (\<lambda>(connect, k, w). 2 * MAX_SLEEP - 2 ^ k)")
  fix connect :: "sc_event list \<Rightarrow> bool" and k :: nat and w w' :: "sc_event list"
  assume "\<not> MAX_SLEEP < 2 ^ k"
  moreover have "0 < (2 :: nat) ^ k" by simp
  ultimately have "2 * MAX_SLEEP - 2 ^ Suc k < 2 * MAX_SLEEP - 2 ^ k" unfolding MAX_SLEEP_def power_Suc by linarith
  then show "((connect, Suc k, w @ ScConnect False # (if 2 ^ k \<le> MAX_SLEEP div 2 then [ScSleep (2 ^ k)] else [])), connect, k, w)
      \<in> measure (\<lambda>(connect, k, w). 2 * MAX_SLEEP - 2 ^ k)" by simp
qed simp

declare conn_retry.simps [simp del]

definition sock_conn_retry :: "(sc_event list \<Rightarrow> bool) \<Rightarrow> u32 option \<Rightarrow> sc_event list \<Rightarrow> int \<times> sc_event list" where
  "sock_conn_retry connect addr w = (if addr = None then (-1, w) else conn_retry connect 0 w)"

section \<open>Host names that are addresses\<close>

definition IP_ADDR_STR_MAX_LEN :: nat where
  "IP_ADDR_STR_MAX_LEN = 15"

definition IP_ADDR_STR_MIN_LEN :: nat where
  "IP_ADDR_STR_MIN_LEN = 7"

definition IP_ADDR_DIGITS_MAX :: nat where
  "IP_ADDR_DIGITS_MAX = 3"

definition IP_ADDR_MAX_DOT_CNT :: nat where
  "IP_ADDR_MAX_DOT_CNT = 3"

lemmas ip_defs = IP_ADDR_STR_MAX_LEN_def IP_ADDR_STR_MIN_LEN_def IP_ADDR_DIGITS_MAX_def IP_ADDR_MAX_DOT_CNT_def

definition c_isdigit :: "char \<Rightarrow> bool" where
  "c_isdigit c \<longleftrightarrow> CHR ''0'' \<le> c \<and> c \<le> CHR ''9''"

text \<open>\<open>atoi\<close> on a string of at most three digits.\<close>

definition c_atoi :: "cstr \<Rightarrow> int" where
  "c_atoi s = foldl (\<lambda>v c. v * 10 + (of_char c - of_char CHR ''0'')) 0 s"

text \<open>The array \<open>asc\<close> holds the digits since the last dot, \<open>digits\<close> is its length; nothing is returned where
  the function returns 0.\<close>

fun ip_scan :: "nat \<Rightarrow> cstr \<Rightarrow> cstr \<Rightarrow> (nat \<times> cstr) option" where
  "ip_scan dot_cnt asc [] = Some (dot_cnt, asc)"
| "ip_scan dot_cnt asc (c # s) =
     (if c = CHR ''.'' then
        if length asc > IP_ADDR_DIGITS_MAX \<or> length asc < 1 then None
        else if c_atoi asc < 0 \<or> c_atoi asc > 255 then None
        else if dot_cnt + 1 > IP_ADDR_MAX_DOT_CNT then None
        else ip_scan (dot_cnt + 1) [] s
      else if \<not> c_isdigit c then None
      else if length asc \<ge> IP_ADDR_DIGITS_MAX then None
      else ip_scan dot_cnt (asc @ [c]) s)"

definition host_is_ip_addr :: "cstr option \<Rightarrow> int" where
  "host_is_ip_addr hst =
     (case hst of
        None \<Rightarrow> 0
      | Some h \<Rightarrow>
          if length h > IP_ADDR_STR_MAX_LEN \<or> length h < IP_ADDR_STR_MIN_LEN then 0
          else case ip_scan 0 [] h of
            None \<Rightarrow> 0
          | Some (dot_cnt, asc) \<Rightarrow>
              if dot_cnt \<noteq> IP_ADDR_MAX_DOT_CNT then 0
              else if length asc > IP_ADDR_DIGITS_MAX \<or> length asc < 1 then 0
              else if c_atoi asc < 0 \<or> c_atoi asc > 255 then 0
              else 1)"

text \<open>The names that the client knows without a resolver, and the connection. The conversion \<open>inet_aton\<close> (its return
  value and the address), the system call \<open>socket\<close> and the outcomes of \<open>connect\<close> are arguments; the result is the return value, and
  the events with the address.\<close>

definition sc_hosts :: "(cstr \<times> cstr) list" where
  "sc_hosts = [(''v.youku.com'', ''183.61.116.218''), (''f.youku.com'', ''183.61.116.52''),
     (''hot.vrs.sohu.com'', ''220.181.118.53''), (''my.tv.sohu.com'', ''220.181.94.202'')]"

definition host_addr :: "(cstr \<Rightarrow> int \<times> u32) \<Rightarrow> cstr \<Rightarrow> u32 option" where
  "host_addr inet_aton hostname =
     (let name = (if host_is_ip_addr (Some hostname) \<noteq> 0 then Some hostname else map_of sc_hosts hostname) in
      case name of
        None \<Rightarrow> None
      | Some a \<Rightarrow> let (rc, sin_addr) = inet_aton a in if rc < 0 then None else Some sin_addr)"

definition host_connect ::
  "(cstr \<Rightarrow> int \<times> u32) \<Rightarrow> int \<Rightarrow> (u32 \<Rightarrow> sc_event list \<Rightarrow> bool) \<Rightarrow> cstr option \<Rightarrow> int \<times> sc_event list" where
  "host_connect inet_aton sock connect hostname =
     (case hostname of
        None \<Rightarrow> (-1, [])
      | Some h \<Rightarrow>
          case host_addr inet_aton h of
            None \<Rightarrow> (-1, [])
          | Some a \<Rightarrow>
              if sock < 0 then (-1, [])
              else let (ret, w) = sock_conn_retry (connect a) (Some a) [ScSocket sock] in
                if ret < 0 then (-1, w @ [ScClose sock]) else (sock, w))"

section \<open>Status lines\<close>

datatype sw =
    sw_start | sw_H | sw_HT | sw_HTT | sw_HTTP | sw_first_major_digit | sw_major_digit
  | sw_first_minor_digit | sw_minor_digit | sw_status | sw_space_after_status | sw_status_text | sw_almost_done

text \<open>One round of the loop: the function returns -1, is done, or goes on.\<close>

datatype sw_result = SwError | SwDone | SwGo sw int nat

definition sw_step :: "sw \<Rightarrow> int \<Rightarrow> nat \<Rightarrow> char \<Rightarrow> sw_result" where
  "sw_step state status digits ch =
     (case state of
        sw_start \<Rightarrow> if ch = CHR ''H'' then SwGo sw_H status digits else SwError
      | sw_H \<Rightarrow> if ch = CHR ''T'' then SwGo sw_HT status digits else SwError
      | sw_HT \<Rightarrow> if ch = CHR ''T'' then SwGo sw_HTT status digits else SwError
      | sw_HTT \<Rightarrow> if ch = CHR ''P'' then SwGo sw_HTTP status digits else SwError
      | sw_HTTP \<Rightarrow> if ch = CHR ''/'' then SwGo sw_first_major_digit status digits else SwError
      | sw_first_major_digit \<Rightarrow>
          if ch < CHR ''1'' \<or> ch > CHR ''9'' then SwError else SwGo sw_major_digit status digits
      | sw_major_digit \<Rightarrow>
          if ch = CHR ''.'' then SwGo sw_first_minor_digit status digits
          else if ch < CHR ''0'' \<or> ch > CHR ''9'' then SwError else SwGo sw_major_digit status digits
      | sw_first_minor_digit \<Rightarrow>
          if ch < CHR ''0'' \<or> ch > CHR ''9'' then SwError else SwGo sw_minor_digit status digits
      | sw_minor_digit \<Rightarrow>
          if ch = CHR '' '' then SwGo sw_status status digits
          else if ch < CHR ''0'' \<or> ch > CHR ''9'' then SwError else SwGo sw_minor_digit status digits
      | sw_status \<Rightarrow>
          if ch = CHR '' '' then SwGo sw_status status digits
          else if ch < CHR ''0'' \<or> ch > CHR ''9'' then SwError
          else SwGo (if digits + 1 = 3 then sw_space_after_status else sw_status)
                 (status * 10 + of_char ch - of_char CHR ''0'') (digits + 1)
      | sw_space_after_status \<Rightarrow>
          if ch = CHR '' '' then SwGo sw_status_text status digits
          else if ch = CHR ''.'' then SwGo sw_status_text status digits
          else if ch = CR then SwGo sw_almost_done status digits
          else if ch = LF then SwDone else SwError
      | sw_status_text \<Rightarrow>
          if ch = CR then SwGo sw_almost_done status digits
          else if ch = LF then SwDone else SwGo sw_status_text status digits
      | sw_almost_done \<Rightarrow> if ch = LF then SwDone else SwError)"

text \<open>The loop over \<open>len\<close> bytes; the result is the return value and the contents of \<open>*status\<close>.\<close>

fun sw_loop :: "sw \<Rightarrow> int \<Rightarrow> nat \<Rightarrow> nat \<Rightarrow> buf \<Rightarrow> (int \<times> int) option" where
  "sw_loop state status digits 0 b = Some (-1, status)"
| "sw_loop state status digits (Suc n) [] = None"
| "sw_loop state status digits (Suc n) (ch # b) =
     (case sw_step state status digits ch of
        SwError \<Rightarrow> Some (-1, status)
      | SwDone \<Rightarrow> Some (0, status)
      | SwGo state' status' digits' \<Rightarrow> sw_loop state' status' digits' n b)"

text \<open>Without a buffer or with a negative length \<open>*status\<close> is left alone.\<close>

definition http_parse_status_line :: "buf option \<Rightarrow> int \<Rightarrow> int option \<Rightarrow> (int \<times> int option) option" where
  "http_parse_status_line b len status =
     (case (b, status) of
        (Some d, Some _) \<Rightarrow>
          if len < 0 then Some (-1, status)
          else map_option (\<lambda>(r, s). (r, Some s)) (sw_loop sw_start 0 0 (nat len) d)
      | _ \<Rightarrow> Some (-1, status))"

section \<open>Copying URLs\<close>

definition HTTP_URL_PREFIX :: cstr where
  "HTTP_URL_PREFIX = ''http://''"

fun copy_loop :: "bool \<Rightarrow> nat \<Rightarrow> buf \<Rightarrow> nat \<Rightarrow> cstr \<Rightarrow> nat \<Rightarrow> (buf \<times> nat) option" where
  "copy_loop with_para len b p [] cnt = Some (b, p)"
| "copy_loop with_para len b p (c # q) cnt =
     (if \<not> with_para \<and> c = CHR ''?'' \<or> \<not> cnt < len then Some (b, p)
      else do { b1 \<leftarrow> wr b p c; copy_loop with_para len b1 (p + 1) q (cnt + 1) })"

definition sc_copy_url :: "buf option \<Rightarrow> cstr option \<Rightarrow> nat \<Rightarrow> bool \<Rightarrow> buf option option" where
  "sc_copy_url url o_url len with_para =
     (case (url, o_url) of
        (Some b, Some q) \<Rightarrow>
          if len > HTTP_SP_URL_LEN_MAX then Some url
          else do {
            let start = (if c_strncmp (length HTTP_URL_PREFIX) q HTTP_URL_PREFIX = 0
                         then drop (length HTTP_URL_PREFIX) q else q);
            (b1, p) \<leftarrow> copy_loop with_para len b 0 start 1;
            b2 \<leftarrow> wr b1 p NUL;
            Some (Some b2)
          }
      | _ \<Rightarrow> Some url)"

section \<open>Properties\<close>

text \<open>An attempt to connect makes at most six attempts, and its result is 0 exactly if the last one succeeded.\<close>

lemma conn_retry_events:
  assumes "k \<le> 6"
  shows "\<exists>m. conn_retry connect k w = (if m < 6 - k then 0 else -1,
      w @ concat (map (\<lambda>i. ScConnect False # (if i \<le> 4 then [ScSleep (2 ^ i)] else [])) [k..<k + m])
        @ (if m < 6 - k then [ScConnect True] else [])) \<and> m \<le> 6 - k"
  using assms
proof (induction "6 - k" arbitrary: k w)
  case 0
  then have "k = 6" by simp
  then show ?case by (subst conn_retry.simps) (auto simp: MAX_SLEEP_def)
next
  case (Suc n)
  then have k: "k < 6" by simp
  then have "2 ^ k \<le> (2 :: nat) ^ 5" by (intro power_increasing) auto
  then have small: "\<not> 2 ^ k > MAX_SLEEP" by (simp add: MAX_SLEEP_def)
  have half: "2 ^ k \<le> MAX_SLEEP div 2 \<longleftrightarrow> k \<le> 4"
    using power_increasing_iff [of "2 :: nat" k 4] by (simp add: MAX_SLEEP_def)
  show ?case
  proof (cases "connect w")
    case True
    then show ?thesis using k small by (intro exI [of _ 0]) (simp add: conn_retry.simps [of connect k w])
  next
    case False
    define w1 where "w1 = w @ ScConnect False # (if k \<le> 4 then [ScSleep (2 ^ k)] else [])"
    have step: "conn_retry connect k w = conn_retry connect (Suc k) w1"
      using small half False by (subst conn_retry.simps) (simp add: w1_def)
    have n: "n = 6 - Suc k" "Suc k \<le> 6" using Suc.hyps(2) k by linarith+
    obtain m where m: "m \<le> 6 - Suc k" "conn_retry connect (Suc k) w1 = (if m < 6 - Suc k then 0 else -1,
      w1 @ concat (map (\<lambda>i. ScConnect False # (if i \<le> 4 then [ScSleep (2 ^ i)] else [])) [Suc k..<Suc k + m])
        @ (if m < 6 - Suc k then [ScConnect True] else []))"
      using Suc.hyps(1) [OF n] by blast
    have "[k..<k + Suc m] = k # [Suc k..<Suc k + m]" by (simp add: upt_rec)
    then show ?thesis using m k step by (intro exI [of _ "Suc m"]) (auto simp: w1_def)
  qed
qed

subsection \<open>Addresses\<close>

text \<open>A number of an address: one to three digits, at most 255.\<close>

definition octet :: "cstr \<Rightarrow> bool" where
  "octet s \<longleftrightarrow> s \<noteq> [] \<and> length s \<le> 3 \<and> (\<forall>c \<in> set s. c_isdigit c) \<and> c_atoi s \<le> 255"

lemma octet_length: "octet s \<Longrightarrow> 1 \<le> length s \<and> length s \<le> 3"
  by (cases s) (auto simp: octet_def)

lemma of_char_digit: "c_isdigit c \<Longrightarrow> (of_char CHR ''0'' :: int) \<le> of_char c"
  using of_char_less_iff [of c "CHR ''0''"] by (auto simp: c_isdigit_def not_less [symmetric])

lemma c_atoi_nonneg: "\<forall>c \<in> set s. c_isdigit c \<Longrightarrow> 0 \<le> c_atoi s"
proof (induction s rule: rev_induct)
  case (snoc c s)
  then show ?case using of_char_digit [of c] by (simp add: c_atoi_def)
qed (simp add: c_atoi_def)

lemma dot_no_digit: "\<not> c_isdigit CHR ''.''"
  by code_simp

lemma ip_scan_digits:
  "\<forall>c \<in> set ds. c_isdigit c \<Longrightarrow> length asc + length ds \<le> 3 \<Longrightarrow> ip_scan n asc (ds @ s) = ip_scan n (asc @ ds) s"
proof (induction ds arbitrary: asc)
  case (Cons d ds)
  then have "d \<noteq> CHR ''.''" using dot_no_digit by auto
  then show ?case using Cons by (simp add: ip_defs)
qed simp

lemma ip_scan_octet:
  assumes "octet p" "n < 3"
  shows "ip_scan n [] (p @ CHR ''.'' # s) = ip_scan (n + 1) [] s"
  using assms ip_scan_digits [of p "[]" n "CHR ''.'' # s"] c_atoi_nonneg [of p] by (auto simp: octet_def ip_defs)

text \<open>What the scan has read: numbers with a dot behind each, and the digits since the last dot.\<close>

lemma ip_scan_sound:
  assumes "ip_scan n asc s = Some (m, rest)" "\<forall>c \<in> set asc. c_isdigit c" "length asc \<le> 3"
  shows "\<exists>ps. asc @ s = concat (map (\<lambda>p. p @ ''.'') ps) @ rest \<and> (\<forall>p \<in> set ps. octet p) \<and> m = n + length ps
    \<and> (\<forall>c \<in> set rest. c_isdigit c)"
  using assms
proof (induction n asc s rule: ip_scan.induct)
  case (1 n asc)
  then show ?case by (intro exI [of _ "[]"]) auto
next
  case (2 n asc c s)
  show ?case
  proof (cases "c = CHR ''.''")
    case True
    then have o: "octet asc" and r: "ip_scan (n + 1) [] s = Some (m, rest)"
      using "2.prems" by (auto simp: octet_def ip_defs split: if_splits)
    have cond: "\<not> (length asc > IP_ADDR_DIGITS_MAX \<or> length asc < 1)" "\<not> (c_atoi asc < 0 \<or> c_atoi asc > 255)"
      "\<not> n + 1 > IP_ADDR_MAX_DOT_CNT" using "2.prems" True by (auto split: if_splits)
    obtain ps where "s = concat (map (\<lambda>p. p @ ''.'') ps) @ rest" "\<forall>p \<in> set ps. octet p" "m = n + 1 + length ps"
      "\<forall>c \<in> set rest. c_isdigit c"
      using "2.IH"(1) [OF True cond r] by auto
    then show ?thesis using o True by (intro exI [of _ "asc # ps"]) auto
  next
    case False
    then have r: "ip_scan n (asc @ [c]) s = Some (m, rest)" and d: "c_isdigit c" "\<not> length asc \<ge> IP_ADDR_DIGITS_MAX"
      using "2.prems" by (auto split: if_splits)
    show ?thesis using "2.IH"(2) [OF False _ d(2) r] d "2.prems"(2) by (auto simp: ip_defs)
  qed
qed

text \<open>C38. \<open>host_is_ip_addr\<close> recognises exactly the dotted addresses: it returns 1 for four numbers of one to three
  digits, each at most 255, with dots between them, and 0 for everything else.\<close>

theorem host_is_ip_addr_iff:
  "host_is_ip_addr (Some h)
     = (if \<exists>a b c d. octet a \<and> octet b \<and> octet c \<and> octet d \<and> h = a @ ''.'' @ b @ ''.'' @ c @ ''.'' @ d then 1 else 0)"
proof -
  have "host_is_ip_addr (Some h) = 1"
    if "octet a" "octet b" "octet c" "octet d" and h: "h = a @ ''.'' @ b @ ''.'' @ c @ ''.'' @ d" for a b c d
  proof -
    have "ip_scan 0 [] h = ip_scan 3 [] d" unfolding h using that(1-3) by (simp add: ip_scan_octet numeral_3_eq_3)
    also have "\<dots> = Some (3, d)" using that(4) ip_scan_digits [of d "[]" 3 "[]"] by (simp add: octet_def)
    finally have s: "ip_scan 0 [] h = Some (3, d)" .
    have "7 \<le> length h" "length h \<le> 15" using that(1-4) [THEN octet_length] by (auto simp: h)
    then show ?thesis using s that(4) c_atoi_nonneg [of d]
      by (auto simp: host_is_ip_addr_def octet_def ip_defs)
  qed
  moreover have "\<exists>a b c d. octet a \<and> octet b \<and> octet c \<and> octet d \<and> h = a @ ''.'' @ b @ ''.'' @ c @ ''.'' @ d"
    if nz: "host_is_ip_addr (Some h) \<noteq> 0"
  proof -
    obtain dc d where sc: "ip_scan 0 [] h = Some (dc, d)"
      using nz by (cases "ip_scan 0 [] h") (auto simp: host_is_ip_addr_def split: if_splits)
    then have s: "ip_scan 0 [] h = Some (3, d)" "\<not> (length d > 3 \<or> length d < 1)" "\<not> c_atoi d > 255"
      using nz by (simp_all add: host_is_ip_addr_def ip_defs split: if_splits)
    obtain ps where ps: "h = concat (map (\<lambda>p. p @ ''.'') ps) @ d" "\<forall>p \<in> set ps. octet p" "length ps = 3" "\<forall>c \<in> set d. c_isdigit c"
      using ip_scan_sound [OF s(1)] by auto
    then obtain a b c where "ps = [a, b, c]" by (auto simp: numeral_eq_Suc length_Suc_conv)
    moreover have "octet d" using s ps(4) by (auto simp: octet_def)
    ultimately show ?thesis using ps(1,2) by auto
  qed
  ultimately show ?thesis by (metis (no_types, lifting))
qed

subsection \<open>Status lines\<close>

text \<open>The end of a line; the text behind a status code; a status code: digits, with spaces between them, that end
  with the third digit.\<close>

definition eol :: "cstr \<Rightarrow> bool" where
  "eol t \<longleftrightarrow> (\<exists>rest. t = LF # rest \<or> t = CR # LF # rest)"

definition text_eol :: "cstr \<Rightarrow> bool" where
  "text_eol t \<longleftrightarrow> (\<exists>tx t'. t = tx @ t' \<and> CR \<notin> set tx \<and> LF \<notin> set tx \<and> eol t')"

definition after_status :: "cstr \<Rightarrow> bool" where
  "after_status t \<longleftrightarrow> eol t \<or> (\<exists>c t'. t = c # t' \<and> c \<in> {CHR '' '', CHR ''.''} \<and> text_eol t')"

definition digits_of :: "cstr \<Rightarrow> cstr" where
  "digits_of q = filter (\<lambda>c. c \<noteq> CHR '' '') q"

definition code_text :: "nat \<Rightarrow> cstr \<Rightarrow> bool" where
  "code_text k q \<longleftrightarrow> (\<forall>c \<in> set q. c = CHR '' '' \<or> c_isdigit c) \<and> length (digits_of q) = k \<and> q \<noteq> [] \<and> last q \<noteq> CHR '' ''"

definition status_line :: "cstr \<Rightarrow> int \<Rightarrow> bool" where
  "status_line t code \<longleftrightarrow> (\<exists>m maj n mnr q t'. t = ''HTTP/'' @ m # maj @ ''.'' @ n # mnr @ '' '' @ q @ t'
     \<and> c_isdigit m \<and> m \<noteq> CHR ''0'' \<and> (\<forall>c \<in> set maj. c_isdigit c) \<and> c_isdigit n \<and> (\<forall>c \<in> set mnr. c_isdigit c)
     \<and> code_text 3 q \<and> code = c_atoi (digits_of q) \<and> after_status t')"

text \<open>The loop on a list of bytes.\<close>

fun sw_run :: "sw \<Rightarrow> int \<Rightarrow> nat \<Rightarrow> cstr \<Rightarrow> int \<times> int" where
  "sw_run state status digits [] = (-1, status)"
| "sw_run state status digits (ch # b) =
     (case sw_step state status digits ch of
        SwError \<Rightarrow> (-1, status)
      | SwDone \<Rightarrow> (0, status)
      | SwGo state' status' digits' \<Rightarrow> sw_run state' status' digits' b)"

lemma sw_loop_run: "n \<le> length b \<Longrightarrow> sw_loop state status digits n b = Some (sw_run state status digits (take n b))"
  by (induction state status digits n b rule: sw_loop.induct) (auto split: sw_result.split)

lemma digit_iff: "c < CHR ''0'' \<or> c > CHR ''9'' \<longleftrightarrow> \<not> c_isdigit c"
  by (auto simp: c_isdigit_def)

lemma major_digit_iff: "c < CHR ''1'' \<or> c > CHR ''9'' \<longleftrightarrow> \<not> (c_isdigit c \<and> c \<noteq> CHR ''0'')"
proof -
  have "(of_char c :: int) < 49 \<longleftrightarrow> \<not> 48 < (of_char c :: int)" by auto
  then have "c < CHR ''1'' \<longleftrightarrow> c \<le> CHR ''0''"
    using of_char_less_iff [of c "CHR ''1''"] of_char_less_iff [of "CHR ''0''" c] by (simp add: not_less [symmetric])
  then show ?thesis by (auto simp: c_isdigit_def)
qed

lemma not_digits: "\<not> c_isdigit CHR '' ''" "\<not> c_isdigit CHR ''.''"
  by code_simp+

lemma run_almost: "sw_run sw_almost_done st k t = (0, code) \<longleftrightarrow> (\<exists>rest. t = LF # rest) \<and> code = st"
  by (cases t) (auto simp: sw_step_def)

lemma text_eol_Cons: "text_eol (c # t) \<longleftrightarrow> eol (c # t) \<or> c \<noteq> CR \<and> c \<noteq> LF \<and> text_eol t"
proof
  assume "text_eol (c # t)"
  then obtain tx t' where t: "c # t = tx @ t'" "CR \<notin> set tx" "LF \<notin> set tx" "eol t'" unfolding text_eol_def by blast
  then show "eol (c # t) \<or> c \<noteq> CR \<and> c \<noteq> LF \<and> text_eol t" by (cases tx) (auto simp: text_eol_def)
next
  assume "eol (c # t) \<or> c \<noteq> CR \<and> c \<noteq> LF \<and> text_eol t"
  then consider "eol (c # t)"
    | tx t' where "c \<noteq> CR" "c \<noteq> LF" "t = tx @ t'" "CR \<notin> set tx" "LF \<notin> set tx" "eol t'" unfolding text_eol_def by blast
  then show "text_eol (c # t)" unfolding text_eol_def
  proof cases
    case 1
    then show "\<exists>tx t'. c # t = tx @ t' \<and> CR \<notin> set tx \<and> LF \<notin> set tx \<and> eol t'" by (intro exI [of _ "[]"] exI [of _ "c # t"]) simp
  next
    case 2
    then show "\<exists>tx t'. c # t = tx @ t' \<and> CR \<notin> set tx \<and> LF \<notin> set tx \<and> eol t'"
      by (intro exI [of _ "c # tx"] exI [of _ t']) simp
  qed
qed

lemma run_text: "sw_run sw_status_text st k t = (0, code) \<longleftrightarrow> text_eol t \<and> code = st"
proof (induction t)
  case (Cons c t)
  then show ?case by (auto simp: sw_step_def run_almost eol_def text_eol_Cons)
qed (auto simp: text_eol_def eol_def)

lemma run_after: "sw_run sw_space_after_status st k t = (0, code) \<longleftrightarrow> after_status t \<and> code = st"
  by (cases t) (auto simp: sw_step_def run_almost run_text after_status_def eol_def)

lemma digits_of_simps [simp]: "digits_of [] = []" "digits_of (c # q) = (if c = CHR '' '' then digits_of q else c # digits_of q)"
  by (simp_all add: digits_of_def)

lemma code_text_pos:
  assumes "code_text k q"
  shows "0 < k"
proof -
  have "last q \<in> set (digits_of q)" using assms last_in_set [of q] unfolding code_text_def digits_of_def by simp
  then have "digits_of q \<noteq> []" by force
  then show ?thesis using assms unfolding code_text_def by blast
qed

lemma code_text_Nil [simp]: "\<not> code_text k []"
  by (simp add: code_text_def)

lemma code_text_space: "code_text k (CHR '' '' # q) \<longleftrightarrow> code_text k q"
  by (cases "q = []") (simp_all add: code_text_def)

lemma code_text_digit:
  assumes "c_isdigit c"
  shows "code_text (Suc k) (c # q) \<longleftrightarrow> (if q = [] then k = 0 else code_text k q)"
proof -
  have "c \<noteq> CHR '' ''" using assms not_digits by auto
  then show ?thesis using assms by (cases "q = []") (simp_all add: code_text_def)
qed

lemma code_text_other: "\<not> c_isdigit c \<Longrightarrow> c \<noteq> CHR '' '' \<Longrightarrow> \<not> code_text k (c # q)"
  by (simp add: code_text_def)

text \<open>The value of the digits behind those that were read.\<close>

definition more_val :: "int \<Rightarrow> cstr \<Rightarrow> int" where
  "more_val st q = foldl (\<lambda>v c. v * 10 + (of_char c - of_char CHR ''0'')) st (digits_of q)"

lemma more_val_Cons:
  "more_val st (c # q) = (if c = CHR '' '' then more_val st q else more_val (st * 10 + (of_char c - of_char CHR ''0'')) q)"
  by (simp add: more_val_def)

lemma ex_append_Cons:
  "(\<And>t'. \<not> P [] t') \<Longrightarrow> (\<exists>q t'. c # t = q @ t' \<and> P q t') \<longleftrightarrow> (\<exists>q t'. t = q @ t' \<and> P (c # q) t')"
  by (metis Cons_eq_append_conv append_Cons)

lemma run_status:
  "sw_run sw_status st (3 - Suc n) t = (0, code)
     \<longleftrightarrow> (\<exists>q t'. t = q @ t' \<and> code_text (Suc n) q \<and> after_status t' \<and> code = more_val st q)" if "n < 3"
  using that
proof (induction t arbitrary: st n)
  case Nil
  then show ?case by simp
next
  case (Cons c t)
  define P where "P = (\<lambda>st n q t'. code_text (Suc n) q \<and> after_status t' \<and> code = more_val st q)"
  have IH: "sw_run sw_status st (3 - Suc n) t = (0, code) \<longleftrightarrow> (\<exists>q t'. t = q @ t' \<and> P st n q t')" if "n < 3" for st n
    using Cons.IH [OF that] by (simp add: P_def)
  have "sw_run sw_status st (3 - Suc n) (c # t) = (0, code) \<longleftrightarrow> (\<exists>q t'. t = q @ t' \<and> P st n (c # q) t')"
  proof -
    consider "c = CHR '' ''" | "c_isdigit c" "c \<noteq> CHR '' ''" | "\<not> c_isdigit c" "c \<noteq> CHR '' ''" by blast
    then show ?thesis
    proof cases
      case 1
      have "P st n (c # q) t' = P st n q t'" for q t' by (simp add: P_def 1 code_text_space more_val_Cons)
      then show ?thesis using IH [OF Cons.prems, of st] by (simp add: 1 sw_step_def)
    next
      case 2
      define st' where "st' = st * 10 + (of_char c - of_char CHR ''0'')"
      have P: "P st n (c # q) t' \<longleftrightarrow> (if q = [] then n = 0 else code_text n q) \<and> after_status t' \<and> code = more_val st' q" for q t'
        using 2 by (simp add: P_def code_text_digit more_val_Cons st'_def)
      show ?thesis
      proof (cases n)
        case 0
        have "sw_run sw_status st (3 - Suc n) (c # t) = sw_run sw_space_after_status st' 3 t"
          using 2 0 digit_iff [of c] by (simp add: sw_step_def st'_def diff_add_eq add_diff_eq)
        then show ?thesis unfolding P using code_text_pos [of 0] by (auto simp: run_after 0 more_val_def split: if_splits)
      next
        case (Suc m)
        have "sw_run sw_status st (3 - Suc n) (c # t) = sw_run sw_status st' (3 - Suc m) t"
          using 2 Suc Cons.prems digit_iff [of c] by (cases m) (auto simp: sw_step_def st'_def add_diff_eq numeral_2_eq_2)
        moreover have "P st n (c # q) t' = P st' m q t'" for q t' unfolding P by (auto simp: P_def Suc)
        ultimately show ?thesis using IH [of m st'] Cons.prems Suc by simp
      qed
    next
      case 3
      then show ?thesis using digit_iff [of c] by (simp add: sw_step_def P_def code_text_other)
    qed
  qed
  also have "\<dots> \<longleftrightarrow> (\<exists>q t'. c # t = q @ t' \<and> P st n q t')"
    by (rule ex_append_Cons [symmetric]) (simp add: P_def)
  finally show ?case by (simp add: P_def)
qed

lemma sw_run_result: "fst (sw_run state status digits t) \<in> {0, -1}"
  by (induction state status digits t rule: sw_run.induct) (auto split: sw_result.split)

lemma run_char:
  assumes "\<And>c. sw_step s1 st k c = (if c = d then SwGo s2 st k else SwError)"
  shows "sw_run s1 st k t = (0, code) \<longleftrightarrow> (\<exists>t'. t = d # t' \<and> sw_run s2 st k t' = (0, code))"
  by (cases t) (auto simp: assms)

lemma run_digits:
  assumes "\<And>c. sw_step s1 st k c = (if c = d then SwGo s2 st k else if c_isdigit c then SwGo s1 st k else SwError)"
    "\<not> c_isdigit d"
  shows "sw_run s1 st k t = (0, code)
    \<longleftrightarrow> (\<exists>ds t'. t = ds @ d # t' \<and> (\<forall>c \<in> set ds. c_isdigit c) \<and> sw_run s2 st k t' = (0, code))"
proof (induction t)
  case (Cons c t)
  have "(\<exists>ds t'. c # t = ds @ d # t' \<and> (\<forall>c \<in> set ds. c_isdigit c) \<and> sw_run s2 st k t' = (0, code))
      \<longleftrightarrow> c = d \<and> sw_run s2 st k t = (0, code)
        \<or> c_isdigit c \<and> (\<exists>ds t'. t = ds @ d # t' \<and> (\<forall>c \<in> set ds. c_isdigit c) \<and> sw_run s2 st k t' = (0, code))"
    (is "?L \<longleftrightarrow> ?R")
  proof
    assume ?L
    then obtain ds t' where "c # t = ds @ d # t'" "\<forall>c \<in> set ds. c_isdigit c" "sw_run s2 st k t' = (0, code)" by blast
    then show ?R by (cases ds) auto
  next
    assume ?R
    then consider "c = d" "sw_run s2 st k t = (0, code)"
      | ds t' where "t = ds @ d # t'" "c_isdigit c" "\<forall>c \<in> set ds. c_isdigit c" "sw_run s2 st k t' = (0, code)" by blast
    then show ?L
    proof cases
      case 1
      then show ?thesis by (intro exI [of _ "[]"] exI [of _ t]) simp
    next
      case 2
      then show ?thesis by (intro exI [of _ "c # ds"] exI [of _ t']) simp
    qed
  qed
  then show ?case using Cons.IH assms(2) by (auto simp: assms(1))
qed simp

lemma run_first:
  assumes "\<And>c. sw_step s1 st k c = (if P c then SwGo s2 st k else SwError)"
  shows "sw_run s1 st k t = (0, code) \<longleftrightarrow> (\<exists>c t'. t = c # t' \<and> P c \<and> sw_run s2 st k t' = (0, code))"
  by (cases t) (auto simp: assms)

lemma run_version:
  "sw_run sw_start 0 0 t = (0, code) \<longleftrightarrow>
     (\<exists>m maj n mnr t'. t = ''HTTP/'' @ m # maj @ CHR ''.'' # n # mnr @ CHR '' '' # t'
       \<and> c_isdigit m \<and> m \<noteq> CHR ''0'' \<and> (\<forall>c \<in> set maj. c_isdigit c) \<and> c_isdigit n \<and> (\<forall>c \<in> set mnr. c_isdigit c)
       \<and> sw_run sw_status 0 0 t' = (0, code))"
proof -
  have major: "sw_step sw_first_major_digit 0 0 c = (if c_isdigit c \<and> c \<noteq> CHR ''0'' then SwGo sw_major_digit 0 0 else SwError)" for c
    using major_digit_iff [of c] by (auto simp: sw_step_def)
  have dot: "sw_step sw_major_digit 0 0 c = (if c = CHR ''.'' then SwGo sw_first_minor_digit 0 0
      else if c_isdigit c then SwGo sw_major_digit 0 0 else SwError)" for c
    using digit_iff [of c] by (auto simp: sw_step_def)
  have minor: "sw_step sw_first_minor_digit 0 0 c = (if c_isdigit c then SwGo sw_minor_digit 0 0 else SwError)" for c
    using digit_iff [of c] by (auto simp: sw_step_def)
  have space: "sw_step sw_minor_digit 0 0 c = (if c = CHR '' '' then SwGo sw_status 0 0
      else if c_isdigit c then SwGo sw_minor_digit 0 0 else SwError)" for c
    using digit_iff [of c] by (auto simp: sw_step_def)
  have start: "sw_run sw_start 0 0 t = (0, code) \<longleftrightarrow> (\<exists>t'. t = ''HTTP/'' @ t' \<and> sw_run sw_first_major_digit 0 0 t' = (0, code))" for t
  proof -
    have "sw_run sw_start 0 0 t = (0, code) \<longleftrightarrow> (\<exists>t'. t = CHR ''H'' # t' \<and> sw_run sw_H 0 0 t' = (0, code))" for t
      by (rule run_char) (simp add: sw_step_def)
    moreover have "sw_run sw_H 0 0 t = (0, code) \<longleftrightarrow> (\<exists>t'. t = CHR ''T'' # t' \<and> sw_run sw_HT 0 0 t' = (0, code))" for t
      by (rule run_char) (simp add: sw_step_def)
    moreover have "sw_run sw_HT 0 0 t = (0, code) \<longleftrightarrow> (\<exists>t'. t = CHR ''T'' # t' \<and> sw_run sw_HTT 0 0 t' = (0, code))" for t
      by (rule run_char) (simp add: sw_step_def)
    moreover have "sw_run sw_HTT 0 0 t = (0, code) \<longleftrightarrow> (\<exists>t'. t = CHR ''P'' # t' \<and> sw_run sw_HTTP 0 0 t' = (0, code))" for t
      by (rule run_char) (simp add: sw_step_def)
    moreover have "sw_run sw_HTTP 0 0 t = (0, code) \<longleftrightarrow> (\<exists>t'. t = CHR ''/'' # t' \<and> sw_run sw_first_major_digit 0 0 t' = (0, code))" for t
      by (rule run_char) (simp add: sw_step_def)
    ultimately show ?thesis by auto
  qed
  show ?thesis
    unfolding start run_first [of sw_first_major_digit 0 0 _ sw_major_digit, OF major] run_first [of sw_first_minor_digit 0 0 _ sw_minor_digit, OF minor]
      run_digits [OF dot not_digits(2)] run_digits [OF space not_digits(1)]
    by (intro iffI; elim exE conjE; hypsubst; intro exI conjI; (rule refl | assumption))
qed

text \<open>C37. \<open>http_parse_status_line\<close> is right and complete. On a buffer with at least \<open>len\<close> bytes it never reads
  behind them and returns 0 or -1; it returns 0 with a number in \<open>*status\<close> exactly if the first \<open>len\<close> bytes begin
  with a whole status line that has this code: \<open>HTTP/\<close>, a version, a space, three digits (the function lets spaces
  stand between them), and a text up to LF or CR LF.\<close>

theorem http_parse_status_line_iff:
  assumes "0 \<le> len" "nat len \<le> length d"
  shows "(\<exists>r s. http_parse_status_line (Some d) len (Some old) = Some (r, Some s) \<and> r \<in> {0, -1})
    \<and> (\<forall>code. http_parse_status_line (Some d) len (Some old) = Some (0, Some code)
         \<longleftrightarrow> status_line (take (nat len) d) code)"
proof -
  have eq: "http_parse_status_line (Some d) len (Some old)
      = (case sw_run sw_start 0 0 (take (nat len) d) of (r, s) \<Rightarrow> Some (r, Some s))"
    using assms by (simp add: http_parse_status_line_def sw_loop_run split: prod.split)
  have run: "http_parse_status_line (Some d) len (Some old) = Some (0, Some code)
      \<longleftrightarrow> sw_run sw_start 0 0 (take (nat len) d) = (0, code)" for code
    unfolding eq by (simp split: prod.split)
  have st: "sw_run sw_status 0 0 t = (0, code)
      \<longleftrightarrow> (\<exists>q t'. t = q @ t' \<and> code_text 3 q \<and> after_status t' \<and> code = c_atoi (digits_of q))" for t code
    using run_status [of 2 0 t code] by (simp add: more_val_def c_atoi_def)
  have "http_parse_status_line (Some d) len (Some old) = Some (0, Some code)
      \<longleftrightarrow> status_line (take (nat len) d) code" for code
    unfolding run run_version st status_line_def append_Cons append_Nil
    by (intro iffI; elim exE conjE; (hypsubst | erule ssubst); intro exI conjI; (rule refl | assumption))
  moreover have "\<exists>r s. http_parse_status_line (Some d) len (Some old) = Some (r, Some s) \<and> r \<in> {0, -1}"
    unfolding eq using sw_run_result [of sw_start 0 0 "take (nat len) d"] by (auto split: prod.split)
  ultimately show ?thesis by blast
qed

lemma http_parse_status_line_iff_witness:
  "http_parse_status_line (Some (''HTTP/1.1 200 OK'' @ [CR, LF] @ ''Server'')) 17 (Some 7) = Some (0, Some 200)
    \<and> status_line (''HTTP/1.1 200 OK'' @ [CR, LF]) 200"
proof -
  have "http_parse_status_line (Some (''HTTP/1.1 200 OK'' @ [CR, LF] @ ''Server'')) 17 (Some 7) = Some (0, Some 200)"
    by code_simp
  then show ?thesis
    using http_parse_status_line_iff [of 17 "''HTTP/1.1 200 OK'' @ [CR, LF] @ ''Server''" 7] by force
qed

subsection \<open>Connections\<close>

text \<open>The failed attempts of a connection: six at most, with pauses of 1, 2, 4, 8 and 16 seconds.\<close>

definition failed_attempts :: "nat \<Rightarrow> sc_event list" where
  "failed_attempts m = concat (map (\<lambda>i. ScConnect False # (if i \<le> 4 then [ScSleep (2 ^ i)] else [])) [0..<m])"

text \<open>C39. \<open>host_connect\<close> leaks no socket and ends. Either it does nothing and returns -1, because the name is no
  address and not one of the four known hosts, the address is refused, or there is no socket; or it opens the
  socket, makes at most five attempts that fail before one that succeeds and returns the socket, or
  makes six attempts that fail, closes the socket and returns -1.\<close>

theorem host_connect_spec:
  "\<exists>m \<le> 6. host_connect inet_aton sock connect (Some h) =
     (if host_addr inet_aton h = None \<or> sock < 0 then (-1, [])
      else if m < 6 then (sock, ScSocket sock # failed_attempts m @ [ScConnect True])
      else (-1, ScSocket sock # failed_attempts 6 @ [ScClose sock]))"
proof (cases "host_addr inet_aton h = None \<or> sock < 0")
  case True
  then show ?thesis by (auto simp: host_connect_def split: option.split)
next
  case False
  then obtain a where a: "host_addr inet_aton h = Some a" "\<not> sock < 0" by auto
  obtain m where "m \<le> 6" "conn_retry (connect a) 0 [ScSocket sock] = (if m < 6 then 0 else -1,
      [ScSocket sock] @ failed_attempts m @ (if m < 6 then [ScConnect True] else []))"
    using conn_retry_events [of 0 "connect a" "[ScSocket sock]"] unfolding failed_attempts_def by auto
  moreover from this have "m = 6" if "\<not> m < 6" using that by simp
  ultimately show ?thesis using a
    by (intro exI [of _ m]) (auto simp: host_connect_def sock_conn_retry_def)
qed

subsection \<open>URLs\<close>

lemma c_strncmp_prefix: "NUL \<notin> set pre \<Longrightarrow> c_strncmp (length pre) q pre = 0 \<longleftrightarrow> (\<exists>r. q = pre @ r)"
proof (induction pre arbitrary: q)
  case (Cons c pre)
  then show ?case by (cases q) auto
qed simp

text \<open>What is copied of a URL into \<open>n\<close> bytes.\<close>

definition url_copy :: "bool \<Rightarrow> nat \<Rightarrow> cstr \<Rightarrow> cstr" where
  "url_copy with_para n q = take n (if with_para then q else takeWhile (\<lambda>c. c \<noteq> CHR ''?'') q)"

lemma copy_loop_spec:
  assumes "p + (len - cnt) \<le> length b"
  shows "copy_loop with_para len b p q cnt = Some (take p b @ url_copy with_para (len - cnt) q
      @ drop (p + length (url_copy with_para (len - cnt) q)) b, p + length (url_copy with_para (len - cnt) q))"
  using assms unfolding url_copy_def
proof (induction with_para len b p q cnt rule: copy_loop.induct)
  case (2 with_para len b p c q cnt)
  show ?case
  proof (cases "\<not> with_para \<and> c = CHR ''?'' \<or> \<not> cnt < len")
    case False
    then have p: "p < length b" "len - cnt = Suc (len - (cnt + 1))" using "2.prems" by auto
    then have "wr b p c = Some (b[p := c])" by (simp add: wr_def)
    moreover have "p + 1 + (len - (cnt + 1)) \<le> length (b[p := c])" using "2.prems" p by simp
    moreover have "take (p + 1) (b[p := c]) = take p b @ [c]" using p by (simp add: take_Suc_conv_app_nth)
    ultimately show ?thesis using False "2.IH" p by auto
  qed auto
qed simp

text \<open>C40. \<open>sc_copy_url\<close> never writes more than \<open>len\<close> bytes and its result is always terminated: it holds the URL without
  a leading \<open>http://\<close>, without what follows the first question mark unless \<open>with_para\<close>, cut to \<open>len - 1\<close> bytes, and the
  NUL; the buffer behind it is not touched.\<close>

theorem sc_copy_url_spec:
  assumes "1 \<le> len" "len \<le> HTTP_SP_URL_LEN_MAX" "len \<le> length b"
    "start = (if \<exists>r. q = ''http://'' @ r then drop 7 q else q)"
    "t = url_copy with_para (len - 1) start"
  shows "sc_copy_url (Some b) (Some q) len with_para = Some (Some (t @ NUL # drop (length t + 1) b))"
proof -
  have s: "(if c_strncmp (length HTTP_URL_PREFIX) q HTTP_URL_PREFIX = 0 then drop (length HTTP_URL_PREFIX) q else q) = start"
    unfolding assms(4) HTTP_URL_PREFIX_def using c_strncmp_prefix [of "''http://''" q] by (simp add: eval_nat_numeral)
  have "copy_loop with_para len b 0 start 1 = Some (t @ drop (length t) b, length t)"
    using copy_loop_spec [of 0 len 1 b with_para start] assms(1,3) by (simp add: assms(5))
  moreover have "length t < length b" using assms(1,3) by (auto simp: assms(5) url_copy_def)
  moreover from this have "(t @ drop (length t) b)[length t := NUL] = t @ NUL # drop (length t + 1) b"
    by (simp add: list_update_append Cons_nth_drop_Suc [symmetric])
  ultimately show ?thesis unfolding sc_copy_url_def using assms(2) s by (simp add: wr_def)
qed

lemma sc_copy_url_spec_witness:
  "sc_copy_url (Some (replicate 12 (CHR ''x''))) (Some ''http://a.cn/v.flv?k=1'') 12 False
    = Some (Some (''a.cn/v.flv'' @ [NUL] @ ''x''))"
proof -
  have "sc_copy_url (Some (replicate 12 (CHR ''x''))) (Some ''http://a.cn/v.flv?k=1'') 12 False
      = Some (Some (''a.cn/v.flv'' @ NUL # drop 11 (replicate 12 (CHR ''x''))))"
    using sc_copy_url_spec [of 12 "replicate 12 (CHR ''x'')" "''a.cn/v.flv?k=1''" "''http://a.cn/v.flv?k=1''" "''a.cn/v.flv''" False]
    by (simp add: HTTP_SP_URL_LEN_MAX_def url_copy_def)
  then show ?thesis by (simp add: eval_nat_numeral)
qed

text \<open>With \<open>len = 0\<close> a byte is written nevertheless.\<close>

lemma sc_copy_url_zero: "sc_copy_url (Some []) (Some q) 0 with_para = None"
  by (cases "if c_strncmp (length HTTP_URL_PREFIX) q HTTP_URL_PREFIX = 0 then drop (length HTTP_URL_PREFIX) q else q")
    (auto simp: sc_copy_url_def wr_def HTTP_SP_URL_LEN_MAX_def)

end
