(* ===== verification/Spec2Isabelle.thy ===== *)
theory Spec2Isabelle
  imports SnoopPool SnoopTask SnoopInterleave ScUtil
begin

text \<open>
  Verification of the HTTP snooping cache of the repository, of the AVL tree library it rests on and of the
  utilities of its clients.

  \<^bold>\<open>The program.\<close> A router of the 32-bit big-endian MIPS family hands the packets of proxied HTTP connections to the
  snooping engine (\<^verbatim>\<open>src/nginx/http-snooping/http-snooping.c\<close>). The engine follows requests and responses. A rule
  table says for which hosts and paths a URL is worth caching and how its \<^emph>\<open>key\<close> is computed: URLs of the same
  resource on different servers have the same key. A table of 32768 nodes records the URLs by key, with a state
  (storing, stored, error) and, while a response is being recorded, its body in data buffers. A write task takes the
  recorded nodes from a wheel of twenty lists, writes their files, and appends them to a log, from which
  the table is rebuilt at the start. A request for a stored URL is answered with a redirection to the local nginx
  server. The snooping client (\<^verbatim>\<open>src/nginx/snoop_client\<close>) finds the real addresses
  of films of two video sites and exchanges URL messages with the engine.

  \<^bold>\<open>The theories.\<close> In the order of their imports:

  \<^item> \<open>Prelude\<close>: checked access to byte buffers, C strings and slices, big-endian words; the locales
    \<open>state_inv\<close> (a predicate kept by every step holds in all reachable states) and \<open>ranked_loop\<close> (a loop each
    of whose rounds lowers a rank equals the loop with a bound and ends).
  \<^item> \<open>AvlLib\<close>: all of \<^verbatim>\<open>src/nginx/avllib/avlLib.c\<close>. The locale \<open>avl_order\<close> states what a comparison function has to
    promise; in it the operations refine lookup, update and deletion in a finite map, keep the balance and
    stay within the ancestor array. It is interpreted on the unsigned routines and, in \<open>SnoopRules\<close>, on \<open>http_host_cmp\<close>.
  \<^item> \<open>SnoopRules\<close>: the rule tables, the flags, \<open>ngx_http_url_rule_get\<close> and \<open>ngx_http_url_file_cache\<close>. The search
    through the tree is the search through the table, the rule found is the first that matches the parts of the URL.
  \<^item> \<open>SnoopKeys\<close>: the parsers of parameters and \<open>ngx_http_snooping_url2local_key\<close> with its in-place rewriting, and
    \<open>ngx_http_snooping_url2local_file\<close>, each refined to a function on strings, with the bounds under which no byte outside
    the buffer is touched. The key is pinned down for URLs in which the copies inside the buffer do not overlap; for the others \<open>memcpy\<close>
    is undefined and its result unspecified.
  \<^item> \<open>SnoopMime\<close>: the table of content types and the tree over it.
  \<^item> \<open>SnoopUrls\<close>: the nodes, the free and used lists, the hash table, the wheel, \<open>ngx_http_sp_url_handle\<close> and
    the other operations on the table, and the messages of the client; the invariant \<open>url_inv\<close> and the refinement of
    the hash table to a map from keys to nodes.
  \<^item> \<open>SnoopInterleave\<close>: the same operations cut into the sections that the locks protect, with any number of calls and the
    write task interleaved. As long as no node is released the lists, the hash table and the wheel stay consistent; two
    theorems show what is lost: two tasks can give two nodes the same key, and a released node can come back to the wheel.
  \<^item> \<open>SnoopWrite\<close>, \<open>SnoopTask\<close>: the data buffers, the three writers, the write task, the log and its reading. What is
    written is what the buffers hold; every buffer is released but on one path; writing the log and
    reading it back gives the URLs; as long as the wheel is not empty a node is taken from it within twenty calls.
  \<^item> \<open>SnoopConn\<close>: the packet path (connections, chains of packets, the request and response parsers, the copying
    of bodies, the callbacks of the proxy). Its loops are \<open>partial_function\<close>s; the interpretations \<open>req\<close> and \<open>res\<close> of
    \<open>ranked_loop\<close> show that they end.
  \<^item> \<open>SnoopKeep\<close>, \<open>SnoopBody\<close>: copying a body fills the data buffers with exactly its bytes; the locale \<open>data_kept\<close>
    collects what filling the buffers keeps, and is interpreted on \<open>url_inv\<close> and on the file of a node.
  \<^item> \<open>SnoopHttp\<close>, \<open>SnoopRequest\<close>, \<open>SnoopResponse\<close>: whole requests and responses. A request for a stored URL
    gets the redirection and no packet of it reaches the server; any other one is passed on in order; a
    response is passed on in order and its body recorded; headers that are too long.
  \<^item> \<open>SnoopPool\<close>: the pool of connections and its invariant \<open>con_inv\<close> over the callbacks.
  \<^item> \<open>ScUtil\<close>: \<^verbatim>\<open>src/nginx/snoop_client/ngx_sc_util.c\<close>: connecting with retries, the test for
    addresses, the parser of status lines, the copying of URLs.
  \<^item> This theory: the table under all operations, one after the other (\<open>snoop_step\<close>), the whole engine under callbacks and table
    operations (\<open>sys_step\<close>), both interpretations of \<open>state_inv\<close>, and the way of a response from the packets to its file.

  \<^bold>\<open>State and effects.\<close> Every operation takes the state and returns it changed. \<open>None\<close> is undefined behaviour: an access
  outside a buffer or through a null pointer, an undefined shift, a wait that never ends. A node, a connection or a packet is
  its index; a kernel list is the list of the indices linked into it. In \<open>snoop_step\<close> and \<open>sys_step\<close> an operation is one
  step: they describe executions in which every operation on the table runs to its end before the next one begins. The spin locks of
  the code protect single sections only and do not enforce this; what holds when the sections interleave is the subject
  of \<open>SnoopInterleave\<close>. The lists of connections are changed under their lock and the other fields of a connection are used by
  its own callbacks. A signed overflow in \<open>ngx_atoi\<close> is the wrap-around of the machine. Lengths, counters and ticks have the width
  they have in the code. What lies outside the sources is an argument: the packet library (\<open>ef_lib\<close>, with the laws
  \<open>ef_laws\<close>, and \<open>demo_ef\<close> as an instance that has them), the TCP proxy (\<open>tp_env\<close>), files, sockets, zlib and the video site client
  (the environment of \<open>SnoopWrite\<close>, whose answers depend on all calls before), \<open>socket\<close>, \<open>connect\<close> and \<open>inet_aton\<close> (\<open>ScUtil\<close>).

  \<^bold>\<open>Bounds.\<close> No definition has a bound of its own where the code has none. The write loop of the code returns only if
  \<open>write\<close> makes progress, which the property on it says. The loops of the parsers take at most two (requests) or three (responses)
  rounds: every round that asks for another one goes to a later stage of the parser. \<open>sock_conn_retry\<close> makes at most six
  attempts. The height of a tree is bounded through the Fibonacci numbers, so the 42 entries of the ancestor array suffice
  for every tree that fits into a 32-bit address space. The wheel is indexed with a signed tick: the property on it asks for
  a tick below 2 to the 31.

  \<^bold>\<open>Rules in force.\<close> In the tables of the commit the rules that set \<open>HTTP_CACHE_URL_SP_WRITE\<close> are commented out, so
  with them the engine itself records no body and the client fetches the files; the recording is modelled as
  the code has it and runs with any rule that has the flag.

  \<^bold>\<open>Not modelled.\<close> Of \<^verbatim>\<open>http-snooping.c\<close>: the command-line handlers \<open>http_server_config\<close>, \<open>http_url_cache_show\<close> and
  \<open>http_host_hash_show\<close> (they print), \<open>http_snooping_cache_file_cmp\<close> (unused), and the frames of the tasks and of initialisation
  (\<open>ngx_http_snooping_write_task\<close>, \<open>ngx_http_snooping_rxtx_task\<close>, \<open>ngx_http_snooping_init\<close>, \<open>ngx_http_snooping_uninit\<close>:
  sockets, sleeping and allocation around operations that are modelled). Of the client: the site specific
  parts (\<^verbatim>\<open>yk_lib.c\<close>, \<^verbatim>\<open>sohu_lib.c\<close>, \<^verbatim>\<open>ngx_sc_youku.c\<close>, \<^verbatim>\<open>ngx_sc_sohu.c\<close>, \<^verbatim>\<open>ngx_snoop_client.c\<close>, \<^verbatim>\<open>yk_player_plugin.c\<close>). Not at all:
  \<^verbatim>\<open>src/http_download\<close>, \<^verbatim>\<open>src/tools\<close>, \<^verbatim>\<open>src/elf_example\<close>, \<^verbatim>\<open>src/nginx/adv\<close>, and the third-party code: the nginx
  server under \<^verbatim>\<open>src/nginx/src\<close> and zlib under \<^verbatim>\<open>src/nginx/zlib\<close>.
\<close>

section \<open>All operations on the URL table\<close>

text \<open>One step of the program on the table: a whole call of one of its operations by the packet path, the write
  task, the message task, the clients or the start-up code, or the passing of time. Calls that overlap in time are the
  subject of \<open>SnoopInterleave\<close>.\<close>

inductive snoop_step :: "host_tree \<Rightarrow> http_snooping_ctx \<Rightarrow> http_snooping_ctx \<Rightarrow> bool" for tree where
  url_handle: "ngx_http_sp_url_handle tree ctx url action = Some (url_id, ctx') \<Longrightarrow> snoop_step tree ctx ctx'"
| set_state: "snoop_step tree ctx (ngx_http_sp_url_state_setby_id ctx url_id state)"
| set_name: "ngx_http_sp_url_state_setby_name tree ctx url_name state = Some ctx' \<Longrightarrow> snoop_step tree ctx ctx'"
| youku_add: "ngx_http_youku_url_add tree ctx url = Some ctx' \<Longrightarrow> snoop_step tree ctx ctx'"
| record_url: "ngx_http_snooping_url_record tree ctx sname res pf = Some (u, pf', ctx')
    \<Longrightarrow> snoop_step tree ctx ctx'"
| sp2c: "snoop_step tree ctx (ngx_http_sp2c_rec_process ctx pkt)"
| c2sp: "ngx_http_c2sp_rec_process tree ctx req = Some (ctx', res) \<Longrightarrow> snoop_step tree ctx ctx'"
| write_task: "ngx_http_snooping_write_process e ctx w = Some (ctx', w') \<Longrightarrow> snoop_step tree ctx ctx'"
| load_log: "ngx_http_snooping_load_url tree stack ctx log = Some (ctx', log') \<Longrightarrow> snoop_step tree ctx ctx'"
| tick: "snoop_step tree ctx (ctx\<lparr>jiffies := j\<rparr>)"

interpretation snoop: state_inv "\<lambda>ctx. \<exists>server ticks. ctx = ngx_http_snooping_ctx_init server ticks"
  "snoop_step tree" url_inv
proof
  fix ctx ctx' assume "snoop_step tree ctx ctx'" "url_inv ctx"
  then show "url_inv ctx'"
    by (induction rule: snoop_step.induct)
      (auto dest: url_handle_inv url_record_inv intro: youku_url_add_inv setby_id_inv setby_name_inv sp2c_rec_inv
        c2sp_rec_inv write_process_inv load_url_inv)
qed (auto simp: url_inv_init)

text \<open>C8. The URL table in executions without overlap. In every state that the operations of the program can bring about, in any
  order and with any answers of the environment, as long as each operation runs to its end before the next one begins (which the
  locks of the code do not enforce), every node is either free or used, the counter of free nodes is right,
  every used node is in the hash table once, under its key, no two used nodes have the same key, and every used node
  is on the wheel at most once.\<close>

theorem reachable_url_inv:
  assumes "(snoop_step tree)\<^sup>*\<^sup>* (ngx_http_snooping_ctx_init server ticks) ctx"
  shows "url_free ctx = int (length (url_free_list ctx))
    \<and> distinct (url_free_list ctx @ url_use_list ctx)
    \<and> set (url_free_list ctx @ url_use_list ctx) = {..<HTTP_SP_URL_MAX}
    \<and> (\<forall>h. distinct (url_hash ctx h)
         \<and> set (url_hash ctx h) = {n \<in> set (url_use_list ctx). url_bucket (file_key_name (url_base ctx n)) = h})
    \<and> inj_on (\<lambda>n. file_key_name (url_base ctx n)) (set (url_use_list ctx))
    \<and> distinct (wheel ctx) \<and> set (wheel ctx) \<subseteq> set (url_use_list ctx)
    \<and> cache_num ctx = of_nat (length (wheel ctx))"
proof -
  have "url_inv ctx" using snoop.reach_inv assms by blast
  then show ?thesis
    unfolding url_inv_def pool_inv_def hash_inv_def wheel_inv_def key_of_def by blast
qed

lemma reachable_url_inv_witness:
  "\<exists>ctx n. ngx_http_sp_url_handle http_cache_host_tree (ngx_http_snooping_ctx_init 0 0)
       ''1.2.3.4/youku/x.flv'' HTTP_C2SP_ACTION_ADD = Some (int n, ctx)
     \<and> set (url_free_list ctx @ url_use_list ctx) = {..<HTTP_SP_URL_MAX}"
proof -
  obtain n ctx where a: "ngx_http_sp_url_handle http_cache_host_tree (ngx_http_snooping_ctx_init 0 0)
      ''1.2.3.4/youku/x.flv'' HTTP_C2SP_ACTION_ADD = Some (int n, ctx)" using youku_flv_add by blast
  have "(snoop_step http_cache_host_tree)\<^sup>*\<^sup>* (ngx_http_snooping_ctx_init 0 0) ctx"
    by (rule r_into_rtranclp) (rule url_handle [OF a])
  from reachable_url_inv [OF this] a show ?thesis by blast
qed


section \<open>The whole program\<close>

text \<open>The state of the program: the pool of connections and the state of the packet path with the URL table. A
  step is a callback of the proxy (a connection opens, data arrive, a side is shut), in any environment, or
  an operation on the table.\<close>

inductive sys_step :: "host_tree \<Rightarrow> con_pool \<times> sp_state \<Rightarrow> con_pool \<times> sp_state \<Rightarrow> bool" for tree where
  open_con: "ngx_http_snooping_create ef server p t = Some (m, p') \<Longrightarrow> sys_step tree (p, st) (p', st)"
| data_in: "ngx_http_snooping_data tree te ef space rcv p t st = Some (p', st') \<Longrightarrow> sys_step tree (p, st) (p', st')"
| shut_con: "ngx_http_snooping_shut ef p t st = Some (p', st') \<Longrightarrow> sys_step tree (p, st) (p', st')"
| table: "snoop_step tree (sp_ctx st) ctx' \<Longrightarrow> sys_step tree (p, st) (p, st\<lparr>sp_ctx := ctx'\<rparr>)"

definition sys_init :: "con_pool \<times> sp_state \<Rightarrow> bool" where
  "sys_init s \<longleftrightarrow> (\<exists>tp server ticks. (\<forall>t. wan_ta_app_cb (tp t) = None)
     \<and> fst s = con_pool_init tp \<and> sp_ctx (snd s) = ngx_http_snooping_ctx_init server ticks)"

definition sys_inv :: "con_pool \<times> sp_state \<Rightarrow> bool" where
  "sys_inv s \<longleftrightarrow> con_inv (fst s) \<and> url_inv (sp_ctx (snd s))"

interpretation sys: state_inv sys_init "sys_step tree" sys_inv
proof
  fix s assume "sys_init s"
  then show "sys_inv s" by (auto simp: sys_init_def sys_inv_def con_inv_init url_inv_init)
next
  fix s s' assume "sys_step tree s s'" "sys_inv s"
  then show "sys_inv s'"
    by (induction rule: sys_step.induct)
      (auto simp: sys_inv_def dest: create_inv data_inv shut_inv shut_ctx snoop.step_inv)
qed

text \<open>C4. The pool of connections is well formed at all times. In every state the program can reach, by callbacks
  of the proxy and operations on the URL table in any order and any environment, the free and the used
  connections partition the pool, the counter is right, exactly the used ones are flagged, and the header
  buffers of every connection have their size, with positions that leave room for the terminator.\<close>

theorem reachable_connections_wf:
  assumes "sys_init s" "(sys_step tree)\<^sup>*\<^sup>* s (p, st)"
  shows "unat (con_num p) = length (con_use_list p)
    \<and> distinct (con_free_list p @ con_use_list p) \<and> set (con_free_list p @ con_use_list p) = {..<con_max}
    \<and> (\<forall>c < con_max. (con_flags (con_base p c) AND HTTP_SNOOPING_FLG_RES \<noteq> 0 \<longleftrightarrow> c \<in> set (con_use_list p))
         \<and> length (current_request_header_buf (con_base p c)) = HTTP_SP_REQ_HEAD_LEN_MAX
         \<and> parse_req_pos (con_base p c) < HTTP_SP_REQ_HEAD_LEN_MAX
         \<and> length (current_response_header_buf (con_base p c)) = HTTP_SP_RES_HEAD_LEN_MAX
         \<and> parse_res_pos (con_base p c) < HTTP_SP_RES_HEAD_LEN_MAX)"
proof -
  have "sys_inv (p, st)" using sys.reach_inv assms by blast
  moreover have "m \<le> HTTP_SP_REQ_HEAD_LEN_MAX - 1 \<Longrightarrow> m < HTTP_SP_REQ_HEAD_LEN_MAX"
    "m \<le> HTTP_SP_RES_HEAD_LEN_MAX - 1 \<Longrightarrow> m < HTTP_SP_RES_HEAD_LEN_MAX" for m
    by (simp_all add: HTTP_SP_REQ_HEAD_LEN_MAX_def HTTP_SP_RES_HEAD_LEN_MAX_def)
  ultimately show ?thesis unfolding sys_inv_def con_inv_def con_wf_def by simp
qed

theorem reachable_connections_wf_witness:
  "\<exists>m p. ngx_http_snooping_create (demo_ef (\<lambda>_. [])) 1 (con_pool_init demo_tps) 0 = Some (m, p)
     \<and> unat (con_num p) = length (con_use_list p)
     \<and> length (current_request_header_buf (con_base p 7)) = HTTP_SP_REQ_HEAD_LEN_MAX"
proof -
  have init: "sys_init (con_pool_init demo_tps, demo_st)" unfolding sys_init_def
    by (intro exI [of _ demo_tps] exI [of _ 0] conjI) (simp_all add: demo_st_def demo_tps_def)
  have inv: "con_inv (con_pool_init demo_tps)" by (rule con_inv_init) (simp add: demo_tps_def)
  obtain c cs where free: "con_free_list (con_pool_init demo_tps) = c # cs"
    by (cases "con_free_list (con_pool_init demo_tps)") (auto simp: con_pool_init_def con_max_def fold_Cons)
  obtain p where p: "ngx_http_snooping_create (demo_ef (\<lambda>_. [])) 1 (con_pool_init demo_tps) 0 = Some (WAN_TA_APP_MATCH, p)"
    using create_takes [OF inv _ _ free, of 0 1] by (auto simp: con_pool_init_def demo_tps_def)
  have "(sys_step http_cache_host_tree)\<^sup>*\<^sup>* (con_pool_init demo_tps, demo_st) (p, demo_st)"
    by (rule r_into_rtranclp) (rule open_con [OF p])
  from reachable_connections_wf [OF init this] p show ?thesis by (simp add: con_max_def)
qed

text \<open>C2. From the packets to the file. After a response has been cached whose body is not encoded, the write task
  opens the file of the URL, writes exactly the body of the response, closes the file, marks the URL as
  saved, so that the next request for it is redirected, and gives all its data buffers back: the free list
  has the buffers it had before the response arrived.\<close>

theorem response_reaches_file:
  assumes con: "res_state con = HTTP_SP_STATE_INIT" "length (current_response_header_buf con) = HTTP_SP_RES_HEAD_LEN_MAX"
      "con_url con = Some n" "req_state con \<noteq> HTTP_SP_STATE_REQUEST_HEADER_ERROR"
    and c: "ef_buf_chain2chain ef (sp_links st) (response_pkt_chain con) efb_chain = (l, efb_chain)"
    and p: "holds l efb_chain ps" "linked l (chain_head efb_chain) ps" "0 < length ps" "length ps \<le> token" "ef_laws ef"
    and pay: "payload ef ps = h0 @ http_end @ body" "length body = k" "0 < k"
    and h0: "fresh http_end h0" "NUL \<notin> set h0" "length (h0 @ http_end) \<le> HTTP_SP_RES_HEAD_LEN_MAX - 1"
    and ok: "response_ok (c_str (take (HTTP_SP_RES_HEAD_LEN_MAX - 1) (h0 @ http_end @ body))) ty len (int k)"
      "c_strstr (c_str (take (HTTP_SP_RES_HEAD_LEN_MAX - 1) (h0 @ http_end @ body))) http_content_encoding_type = None"
    and v: "pcache_rule (url_base (sp_ctx st) n) = Some r" "cache_flg r AND HTTP_CACHE_URL_SP_WRITE \<noteq> 0"
      "\<not> has_flg HTTP_SNOOPING_FLG_RES_WRITE (url_base (sp_ctx st) n)"
    and rdy: "bufs_ready (sp_ctx st) k" and pf: "post_fix con = 0"
    and e: "write_progress e" "write_no_error e" "local_file_path e (url_base (sp_ctx st) n) = Some path" "env_open e w path"
  shows "\<exists>con' st' ctx' w'. ngx_http_snooping_response_parse te ef con efb_chain token st = Some (con', efb_chain, st')
    \<and> ngx_http_url_write e (sp_ctx st') w n = Some (ctx', w @ IoOpen path True # w' @ [IoClose])
    \<and> written w' = body \<and> has_flg HTTP_SNOOPING_FLG_RES_WRITE (url_base ctx' n)
    \<and> mset (data_buf_free_list ctx') = mset (data_buf_free_list (sp_ctx st))"
proof -
  obtain con' st' where r: "ngx_http_snooping_response_parse te ef con efb_chain token st = Some (con', efb_chain, st')"
    and b: "stored (sp_ctx st') n = body"
      "data_buf_list (url_base (sp_ctx st') n) = take (bufs_for k) (data_buf_free_list (sp_ctx st))"
      "data_buf_free_list (sp_ctx st') = drop (bufs_for k) (data_buf_free_list (sp_ctx st))"
    and f: "url_data_len (url_base (sp_ctx st') n) = int k" "url_res_len (url_base (sp_ctx st') n) = int k"
      "has_flg HTTP_SNOOPING_FLG_RES_CACHE (url_base (sp_ctx st') n)"
      "has_flg HTTP_SNOOPING_FLG_CACHE_BUF_ALLOC (url_base (sp_ctx st') n)"
      "\<not> has_flg HTTP_SNOOPING_FLG_RES_WRITE (url_base (sp_ctx st') n)"
      "url_encoding (url_base (sp_ctx st') n) = HTTP_ECODING_TYPE_NONE"
      "file_id (url_base (sp_ctx st') n) = file_id (url_base (sp_ctx st) n)"
    using response_cached [OF con c p pay h0 ok(1) v rdy, of te] ok(2) pf by blast
  have bufs: "mset (rev (take m xs) @ drop m xs) = mset xs" for m and xs :: "nat list"
    by (metis append_take_drop_id mset_append mset_rev)
  have eq: "url_res_len (url_base (sp_ctx st') n) = url_data_len (url_base (sp_ctx st') n)" using f(1,2) by simp
  have path: "local_file_path e (url_base (sp_ctx st') n) = Some path" using local_file_path_id [OF f(7)] e(3) by simp
  from url_write_ok [OF e(1) path e(4) f(3-5) eq f(6)] e(2) b(1) bufs r show ?thesis
    unfolding b(2,3) stored_def by fastforce
qed

text \<open>An example: the response for \<open>1.2.3.4/a/x.swf\<close>.\<close>

definition swf_node :: http_snooping_url where
  "swf_node = url_node0\<lparr>pcache_rule := Some swf_rule, url_buf := ''1.2.3.4/a/x.swf'', server_name_len := 7, res_url_len := 8\<rparr>"

definition swf_ctx :: http_snooping_ctx where
  "swf_ctx = wait_ctx\<lparr>url_base := (\<lambda>_. swf_node)\<rparr>"

lemma swf_path: "local_file_path demo_env swf_node = Some ''/mnt/usb0/html/1_2_3_4/a_x.swf''"
  by code_simp

theorem response_reaches_file_witness:
  "\<exists>con' st' ctx' w'. ngx_http_snooping_response_parse demo_te (demo_ef (\<lambda>_. demo_head @ http_end @ ''hello''))
       (con0\<lparr>res_state := HTTP_SP_STATE_INIT, con_url := Some 3\<rparr>)
       \<lparr>chain_head = Some 0, chain_tail = Some 0, chain_count = 1\<rparr> 5 (demo_st\<lparr>sp_ctx := swf_ctx\<rparr>)
     = Some (con', \<lparr>chain_head = Some 0, chain_tail = Some 0, chain_count = 1\<rparr>, st')
     \<and> ngx_http_url_write demo_env (sp_ctx st') [] 3
       = Some (ctx', IoOpen ''/mnt/usb0/html/1_2_3_4/a_x.swf'' True # w' @ [IoClose])
     \<and> written w' = ''hello''"
proof -
  define ef where "ef = demo_ef (\<lambda>_. demo_head @ http_end @ ''hello'')"
  define ch where "ch = \<lparr>chain_head = Some (0 :: nat), chain_tail = Some 0, chain_count = 1\<rparr>"
  define con where "con = con0\<lparr>res_state := HTTP_SP_STATE_INIT, con_url := Some 3\<rparr>"
  define st where "st = demo_st\<lparr>sp_ctx := swf_ctx\<rparr>"
  have con: "res_state con = HTTP_SP_STATE_INIT" "length (current_response_header_buf con) = HTTP_SP_RES_HEAD_LEN_MAX"
    "con_url con = Some 3" "req_state con \<noteq> HTTP_SP_STATE_REQUEST_HEADER_ERROR"
    by (simp_all add: con_def con0_def http_sp_state_defs)
  have c: "ef_buf_chain2chain ef (sp_links st) (response_pkt_chain con) ch = (sp_links demo_st, ch)"
    by (simp add: ef_def demo_ef_def con_def con0_def chain0_def st_def)
  have p: "holds (sp_links demo_st) ch [0]" "linked (sp_links demo_st) (chain_head ch) [0]"
    by (simp_all add: holds_def ch_def demo_st_def)
  have pay: "payload ef [0] = demo_head @ http_end @ ''hello''" by (simp add: ef_def demo_ef_def)
  have h: "fresh http_end demo_head" "NUL \<notin> set demo_head" "length (demo_head @ http_end) \<le> HTTP_SP_RES_HEAD_LEN_MAX - 1"
    by code_simp+
  have ok: "response_ok (c_str (take (HTTP_SP_RES_HEAD_LEN_MAX - 1) (demo_head @ http_end @ ''hello''))) ''video/x'' ''5'' (int 5)"
    unfolding demo_head_text using demo_response_ok by simp
  have enc: "c_strstr (c_str (take (HTTP_SP_RES_HEAD_LEN_MAX - 1) (demo_head @ http_end @ ''hello''))) http_content_encoding_type = None"
    unfolding demo_head_text by code_simp
  have v: "pcache_rule (url_base (sp_ctx st) 3) = Some swf_rule" "cache_flg swf_rule AND HTTP_CACHE_URL_SP_WRITE \<noteq> 0"
    "\<not> has_flg HTTP_SNOOPING_FLG_RES_WRITE (url_base (sp_ctx st) 3)" "bufs_ready (sp_ctx st) 5"
    by (simp_all add: st_def swf_ctx_def swf_node_def wait_ctx_def swf_rule_def rule_def http_cache_flag_defs has_flg_def url_node0_def
        bufs_ready_def bufs_for_def HTTP_SP_BUF_LEN_MAX_def)
  have path: "local_file_path demo_env (url_base (sp_ctx st) 3) = Some ''/mnt/usb0/html/1_2_3_4/a_x.swf''"
    using swf_path by (simp add: st_def swf_ctx_def)
  have "\<exists>con' st' ctx' w'. ngx_http_snooping_response_parse demo_te ef con ch 5 st = Some (con', ch, st')
    \<and> ngx_http_url_write demo_env (sp_ctx st') [] 3 = Some (ctx', [] @ IoOpen ''/mnt/usb0/html/1_2_3_4/a_x.swf'' True # w' @ [IoClose])
    \<and> written w' = ''hello'' \<and> has_flg HTTP_SNOOPING_FLG_RES_WRITE (url_base ctx' 3)
    \<and> mset (data_buf_free_list ctx') = mset (data_buf_free_list (sp_ctx st))"
    by (rule response_reaches_file [OF con c p _ _ _ pay _ _ h ok enc v _ demo_progress path])
      (simp_all add: ef_def demo_ef_laws demo_env_def con_def con0_def)
  then show ?thesis by (auto simp: ef_def ch_def con_def st_def)
qed

end
